(* ===== verification/Prelude.thy ===== *)
theory Prelude
  imports Main "HOL-Library.AList" "HOL-Library.Multiset" "HOL-Library.Word"
begin

text \<open>
  Shared vocabulary of the development: addresses and object stores, the
  outcome of C code that may have undefined behaviour, the safety predicate
  that the component theories are stated with, and generic list lemmas.
\<close>

named_theorems safe_rules \<open>safety triples of the operations, ready for \<open>safe_bind\<close>\<close>
named_theorems inv_defs \<open>definitions of the component invariants\<close>

section \<open>Undefined behaviour as a value\<close>

text \<open>
  A C function that dereferences pointers or does signed arithmetic returns
  \<open>Inl\<close> of the kind of undefined behaviour it ran into, or \<open>Inr\<close> of its result.
  \<^item> \<open>DanglingPointer\<close>: a dereference of \<open>NULL\<close>, of a freed object or outside an array;
  \<^item> \<open>SignedOverflow\<close>: a signed result that does not fit its type.
\<close>

datatype ub = DanglingPointer | SignedOverflow

type_synonym 'a outcome = "ub + 'a"

definition rbind :: "'a outcome \<Rightarrow> ('a \<Rightarrow> 'b outcome) \<Rightarrow> 'b outcome" where
  "rbind m f = (case m of Inl e \<Rightarrow> Inl e | Inr x \<Rightarrow> f x)"

lemma rbind_simps [simp]:
  "rbind (Inl e) f = Inl e"
  "rbind (Inr x) f = f x"
  by (simp_all add: rbind_def)

lemma rbind_cong [fundef_cong]:
  "m = m' \<Longrightarrow> (\<And>x. m' = Inr x \<Longrightarrow> f x = g x) \<Longrightarrow> rbind m f = rbind m' g"
  by (cases m') auto

lemma rbind_eq_Inr: "rbind m f = Inr y \<longleftrightarrow> (\<exists>x. m = Inr x \<and> f x = Inr y)"
  by (cases m) auto

lemma rbind_eq_Inl: "rbind m f = Inl e \<longleftrightarrow> m = Inl e \<or> (\<exists>x. m = Inr x \<and> f x = Inl e)"
  by (cases m) auto

text \<open>
  \<open>safe m Q\<close>: the code never touches freed or foreign memory, and its result
  satisfies \<open>Q\<close> whenever no signed counter overflowed on the way.
\<close>

definition safe :: "'a outcome \<Rightarrow> ('a \<Rightarrow> bool) \<Rightarrow> bool" where
  "safe m Q = (case m of Inl e \<Rightarrow> e = SignedOverflow | Inr x \<Rightarrow> Q x)"

lemma safe_simps [simp]:
  "safe (Inr x) Q = Q x"
  "safe (Inl e) Q = (e = SignedOverflow)"
  by (simp_all add: safe_def)

lemma safe_rbind [simp]: "safe (rbind m f) Q = safe m (\<lambda>x. safe (f x) Q)"
  by (cases m) auto

lemma safe_mono: "safe m P \<Longrightarrow> (\<And>x. P x \<Longrightarrow> Q x) \<Longrightarrow> safe m Q"
  by (cases m) auto

lemma safe_conj: "safe m P \<Longrightarrow> safe m Q \<Longrightarrow> safe m (\<lambda>x. P x \<and> Q x)"
  by (cases m) auto

lemma safe_with: "safe m Q \<Longrightarrow> (\<And>x. m = Inr x \<Longrightarrow> R x) \<Longrightarrow> safe m (\<lambda>x. Q x \<and> R x)"
  by (cases m) auto

lemma safe_bind: "safe m P \<Longrightarrow> (\<And>x. P x \<Longrightarrow> safe (f x) Q) \<Longrightarrow> safe (rbind m f) Q"
  by (cases m) auto

lemma safe_Inr: "safe m Q \<Longrightarrow> m = Inr x \<Longrightarrow> Q x"
  by simp

lemma safe_not_dangling: "safe m Q \<Longrightarrow> m \<noteq> Inl DanglingPointer"
  by auto

lemma safe_iff: "safe m Q \<longleftrightarrow> m \<noteq> Inl DanglingPointer \<and> (\<forall>x. m = Inr x \<longrightarrow> Q x)"
  by (cases m) (auto, metis ub.exhaust)

section \<open>Signed arithmetic\<close>

definition INT32_MAX :: int where
  "INT32_MAX = 2147483647"

definition check32 :: "int \<Rightarrow> int outcome" where
  "check32 x = (if - INT32_MAX - 1 \<le> x \<and> x \<le> INT32_MAX then Inr x else Inl SignedOverflow)"

lemma safe_check32 [simp]:
  "safe (check32 x) Q \<longleftrightarrow> (- INT32_MAX - 1 \<le> x \<longrightarrow> x \<le> INT32_MAX \<longrightarrow> Q x)"
  by (auto simp: check32_def)

lemma check32_Inr [simp]:
  "check32 x = Inr y \<longleftrightarrow> y = x \<and> - INT32_MAX - 1 \<le> x \<and> x \<le> INT32_MAX"
  by (auto simp: check32_def)

definition INT64_MAX :: int where
  "INT64_MAX = 9223372036854775807"

definition check64 :: "int \<Rightarrow> int outcome" where
  "check64 x = (if - INT64_MAX - 1 \<le> x \<and> x \<le> INT64_MAX then Inr x else Inl SignedOverflow)"

lemma safe_check64 [simp]:
  "safe (check64 x) Q \<longleftrightarrow> (- INT64_MAX - 1 \<le> x \<longrightarrow> x \<le> INT64_MAX \<longrightarrow> Q x)"
  by (auto simp: check64_def)

lemma check64_Inr [simp]:
  "check64 x = Inr y \<longleftrightarrow> y = x \<and> - INT64_MAX - 1 \<le> x \<and> x \<le> INT64_MAX"
  by (auto simp: check64_def)

section \<open>Addresses and object stores\<close>

type_synonym addr = nat

abbreviation (input) NULL :: addr where
  "NULL \<equiv> 0"

text \<open>
  Heap objects of one C type live in one store, keyed by address. Freeing an
  object removes its entry, so a later access is a dangling one.
\<close>

type_synonym 'v store = "(addr \<times> 'v) list"

definition deref :: "'v store \<Rightarrow> addr \<Rightarrow> 'v outcome" where
  "deref st a = (case map_of st a of None \<Rightarrow> Inl DanglingPointer | Some v \<Rightarrow> Inr v)"

definition put :: "addr \<Rightarrow> 'v \<Rightarrow> 'v store \<Rightarrow> 'v store" where
  "put = AList.update"

definition del :: "addr \<Rightarrow> 'v store \<Rightarrow> 'v store" where
  "del = AList.delete"

definition addrs :: "'v store \<Rightarrow> addr list" where
  "addrs st = map fst st"

lemma map_of_put [simp]: "map_of (put a v st) = (map_of st)(a \<mapsto> v)"
  by (simp add: put_def update_conv')

lemma map_of_del [simp]: "map_of (del a st) = (map_of st)(a := None)"
  by (simp add: del_def delete_conv')

lemma put_same [simp]: "map_of st a = Some v \<Longrightarrow> put a v st = st"
  unfolding put_def by (induction st) (auto split: if_splits)

lemma set_addrs: "a \<in> set (addrs st) \<longleftrightarrow> map_of st a \<noteq> None"
  by (auto simp: addrs_def map_of_eq_None_iff)

lemma deref_Some [simp]: "map_of st a = Some v \<Longrightarrow> deref st a = Inr v"
  by (simp add: deref_def)

lemma deref_Inr: "deref st a = Inr v \<longleftrightarrow> map_of st a = Some v"
  by (auto simp: deref_def split: option.splits)

lemma safe_deref [simp]: "safe (deref st a) Q \<longleftrightarrow> (\<exists>v. map_of st a = Some v \<and> Q v)"
  by (auto simp: deref_def split: option.splits)

text \<open>Reading and writing a plain C array of known size.\<close>

definition aget :: "'a list \<Rightarrow> nat \<Rightarrow> 'a outcome" where
  "aget xs i = (if i < length xs then Inr (xs ! i) else Inl DanglingPointer)"

definition aset :: "'a list \<Rightarrow> nat \<Rightarrow> 'a \<Rightarrow> 'a list outcome" where
  "aset xs i x = (if i < length xs then Inr (xs[i := x]) else Inl DanglingPointer)"

lemma aget_in [simp]: "i < length xs \<Longrightarrow> aget xs i = Inr (xs ! i)"
  by (simp add: aget_def)

lemma aset_in [simp]: "i < length xs \<Longrightarrow> aset xs i x = Inr (xs[i := x])"
  by (simp add: aset_def)

section \<open>Lists\<close>

lemma nth_list_update_if: "i < length xs \<Longrightarrow> xs[i := x] ! j = (if i = j then x else xs ! j)"
  by auto

lemma take_Suc_update: "n < length xs \<Longrightarrow> take (Suc n) (xs[n := x]) = take n xs @ [x]"
  by (simp add: take_Suc_conv_app_nth)

lemma distinct_remove1_set: "distinct xs \<Longrightarrow> set (remove1 x xs) = set xs - {x}"
  by (rule set_remove1_eq)

end
