(* ===== verification/BioArray.thy ===== *)
theory BioArray
  imports Prelude
begin

text \<open>
  The growable array of \<open>src/src/array.c\<close> and its macros in \<open>src/src/array.h\<close>.
  A C array pointer is \<open>NULL\<close> or points behind a header with a capacity and a
  length. Memory that \<open>realloc\<close> has handed out and nobody has written yet holds
  no value; it is \<open>None\<close> here.
\<close>

section \<open>Model\<close>

record 'a bio_array_header =
  capacity :: nat
  len :: nat
  elems :: "'a option list"

type_synonym 'a bio_array = "'a bio_array_header option"

definition realloc_elems :: "nat \<Rightarrow> 'a option list \<Rightarrow> 'a option list" where
  "realloc_elems n es = take n es @ replicate (n - length es) None"

definition header_elems :: "'a bio_array \<Rightarrow> 'a option list" where
  "header_elems a = (case a of None \<Rightarrow> [] | Some h \<Rightarrow> elems h)"

definition bio_array_len :: "'a bio_array \<Rightarrow> nat" where
  "bio_array_len a = (case a of None \<Rightarrow> 0 | Some h \<Rightarrow> len h)"

definition bio_array_capacity :: "'a bio_array \<Rightarrow> nat" where
  "bio_array_capacity a = (case a of None \<Rightarrow> 0 | Some h \<Rightarrow> capacity h)"

definition bio_array_clear :: "'a bio_array \<Rightarrow> 'a bio_array" where
  "bio_array_clear a = (case a of None \<Rightarrow> None | Some h \<Rightarrow> Some (h\<lparr>len := 0\<rparr>))"

text \<open>Returns the array and the new length (the C code returns the latter by pointer).\<close>

definition bio_array__prepare_push :: "'a bio_array \<Rightarrow> 'a bio_array_header \<times> nat" where
  "bio_array__prepare_push a =
    (let len' = (case a of None \<Rightarrow> 0 | Some h \<Rightarrow> len h);
         capacity' = (case a of None \<Rightarrow> 0 | Some h \<Rightarrow> capacity h)
     in if len' < capacity'
        then ((the a)\<lparr>len := len' + 1\<rparr>, len' + 1)
        else (let new_capacity = (if capacity' > 0 then capacity' * 2 else 2)
              in (\<lparr>capacity = new_capacity, len = len' + 1,
                   elems = realloc_elems new_capacity (header_elems a)\<rparr>, len' + 1)))"

definition bio_array_push :: "'a bio_array \<Rightarrow> 'a \<Rightarrow> 'a bio_array" where
  "bio_array_push a x =
    (let (h, new_len) = bio_array__prepare_push a
     in Some (h\<lparr>elems := (elems h)[new_len - 1 := Some x]\<rparr>))"

text \<open>
  When the array is \<open>NULL\<close> the header is fresh memory and its length is never
  written: \<open>garbage\<close> is whatever that memory holds.
\<close>

definition bio_array__do_reserve :: "nat \<Rightarrow> 'a bio_array \<Rightarrow> nat \<Rightarrow> 'a bio_array" where
  "bio_array__do_reserve garbage a new_capacity =
    (let current_capacity = (case a of None \<Rightarrow> 0 | Some h \<Rightarrow> capacity h)
     in if new_capacity \<le> current_capacity then a
        else Some \<lparr>capacity = new_capacity,
                   len = (case a of None \<Rightarrow> garbage | Some h \<Rightarrow> len h),
                   elems = realloc_elems new_capacity (header_elems a)\<rparr>)"

definition bio_array__do_resize :: "'a bio_array \<Rightarrow> nat \<Rightarrow> 'a bio_array" where
  "bio_array__do_resize a new_len =
    (let current_capacity = (case a of None \<Rightarrow> 0 | Some h \<Rightarrow> capacity h)
     in if new_len \<le> current_capacity
        then (case a of None \<Rightarrow> None | Some h \<Rightarrow> Some (h\<lparr>len := new_len\<rparr>))
        else Some \<lparr>capacity = new_len, len = new_len,
                   elems = realloc_elems new_len (header_elems a)\<rparr>)"

text \<open>The length is a \<open>size_t\<close>: popping an empty array wraps around.\<close>

definition bio_array__do_pop :: "'a bio_array \<Rightarrow> 'a bio_array outcome" where
  "bio_array__do_pop a =
    (case a of None \<Rightarrow> Inl DanglingPointer
     | Some h \<Rightarrow> Inr (Some (h\<lparr>len := (if len h = 0 then 2 ^ 64 - 1 else len h - 1)\<rparr>)))"

text \<open>Indexing \<open>array[i]\<close>; reading memory nobody has written is undefined.\<close>

definition array_get :: "'a bio_array \<Rightarrow> nat \<Rightarrow> 'a outcome" where
  "array_get a i =
    (case a of None \<Rightarrow> Inl DanglingPointer
     | Some h \<Rightarrow>
        (if i < length (elems h)
         then (case elems h ! i of None \<Rightarrow> Inl DanglingPointer | Some x \<Rightarrow> Inr x)
         else Inl DanglingPointer))"

definition bio_array_pop :: "'a bio_array \<Rightarrow> ('a \<times> 'a bio_array) outcome" where
  "bio_array_pop a =
    rbind (bio_array__do_pop a) (\<lambda>a'. rbind (array_get a' (bio_array_len a')) (\<lambda>x. Inr (x, a')))"

section \<open>Invariant and abstraction\<close>

definition array_inv :: "'a bio_array \<Rightarrow> bool" where
  "array_inv a =
    (case a of None \<Rightarrow> True
     | Some h \<Rightarrow> 0 < capacity h \<and> len h \<le> capacity h \<and> length (elems h) = capacity h
               \<and> list_all (\<lambda>e. e \<noteq> None) (take (len h) (elems h)))"

definition array_list :: "'a bio_array \<Rightarrow> 'a list" where
  "array_list a = (case a of None \<Rightarrow> [] | Some h \<Rightarrow> map the (take (len h) (elems h)))"

lemma array_inv_NULL [simp]: "array_inv None" "array_list None = []"
  by (simp_all add: array_inv_def array_list_def)

lemma array_len_list [simp]: "array_inv a \<Longrightarrow> length (array_list a) = bio_array_len a"
  by (auto simp: array_inv_def array_list_def bio_array_len_def split: option.splits)

lemma length_realloc [simp]: "length (realloc_elems n es) = n"
  by (simp add: realloc_elems_def)

lemma take_realloc: "m \<le> n \<Longrightarrow> m \<le> length es \<Longrightarrow> take m (realloc_elems n es) = take m es"
  by (simp add: realloc_elems_def min_def)

lemma array_push_cases:
  assumes "array_inv a"
  obtains h where "bio_array_push a x = Some h" "0 < capacity h"
    "len h = Suc (bio_array_len a)" "len h \<le> capacity h" "length (elems h) = capacity h"
    "take (len h) (elems h) = take (bio_array_len a) (header_elems a) @ [Some x]"
proof (cases "bio_array_len a < bio_array_capacity a")
  case True
  then obtain h0 where h0: "a = Some h0" by (cases a) (auto simp: bio_array_capacity_def)
  with True assms show ?thesis
    by (intro that [of "h0\<lparr>len := Suc (len h0), elems := (elems h0)[len h0 := Some x]\<rparr>"])
      (auto simp: bio_array_push_def bio_array__prepare_push_def bio_array_len_def array_inv_def
        bio_array_capacity_def header_elems_def take_Suc_update Let_def)
next
  case False
  let ?c = "bio_array_capacity a" and ?n = "bio_array_len a"
  let ?c' = "if ?c > 0 then ?c * 2 else 2"
  let ?es = "(realloc_elems ?c' (header_elems a))[?n := Some x]"
  have n: "?n = ?c" "length (header_elems a) = ?c" "?n < ?c'"
    using False assms
    by (auto simp: array_inv_def bio_array_len_def bio_array_capacity_def header_elems_def split: option.splits)
  have "take (Suc ?n) ?es = take ?n (header_elems a) @ [Some x]"
    using n by (simp add: take_Suc_update take_realloc)
  with n False show ?thesis
    by (intro that [of "\<lparr>capacity = ?c', len = Suc ?n, elems = ?es\<rparr>"])
      (auto simp: bio_array_push_def bio_array__prepare_push_def bio_array_len_def
        bio_array_capacity_def Let_def split: option.splits)
qed

lemma array_inv_len: "array_inv a \<Longrightarrow> list_all (\<lambda>e. e \<noteq> None) (take (bio_array_len a) (header_elems a))"
  by (auto simp: array_inv_def bio_array_len_def header_elems_def split: option.splits)

lemma array_list_alt: "array_list a = map the (take (bio_array_len a) (header_elems a))"
  by (auto simp: array_list_def bio_array_len_def header_elems_def split: option.splits)

lemma array_push_inv [simp]:
  assumes "array_inv a"
  shows "array_inv (bio_array_push a x)"
  using assms
  by (rule array_push_cases [where x = x]) (use array_inv_len [OF assms] in \<open>simp add: array_inv_def\<close>)

lemma array_push_list [simp]:
  assumes "array_inv a"
  shows "array_list (bio_array_push a x) = array_list a @ [x]"
  using assms
  by (rule array_push_cases [where x = x])
    (simp add: array_list_alt bio_array_len_def [of "Some _"] header_elems_def [of "Some _"])

lemma array_clear_inv [simp]: "array_inv a \<Longrightarrow> array_inv (bio_array_clear a)"
  by (auto simp: array_inv_def bio_array_clear_def split: option.splits)

lemma array_clear_list [simp]: "array_list (bio_array_clear a) = []"
  by (auto simp: array_list_def bio_array_clear_def split: option.splits)

lemma array_get_list [simp]:
  assumes "array_inv a" "i < bio_array_len a"
  shows "array_get a i = Inr (array_list a ! i)"
proof -
  obtain h where h: "a = Some h" using assms(2) by (cases a) (auto simp: bio_array_len_def)
  have "i < len h" "i < length (elems h)" using assms by (auto simp: h bio_array_len_def array_inv_def)
  moreover have "elems h ! i \<noteq> None"
    using assms by (auto simp: h bio_array_len_def array_inv_def list_all_length)
  ultimately show ?thesis by (auto simp: h array_get_def array_list_def)
qed

lemma array_pop_list:
  assumes "array_inv a" "array_list a \<noteq> []"
  shows "\<exists>a'. bio_array_pop a = Inr (last (array_list a), a') \<and> array_inv a'
              \<and> array_list a' = butlast (array_list a)"
proof -
  obtain h where h: "a = Some h" using assms(2) by (cases a) auto
  let ?a = "Some (h\<lparr>len := len h - 1\<rparr>)"
  have n: "0 < len h" using assms by (auto simp: h array_list_def)
  have inv: "array_inv ?a"
    using assms n by (auto simp: h array_inv_def list_all_length)
  have butl: "array_list ?a = butlast (array_list a)"
    using assms n by (simp add: h array_list_def array_inv_def map_butlast [symmetric] butlast_take)
  have "elems h ! (len h - 1) \<noteq> None" "len h - 1 < length (elems h)"
    using assms(1) n by (auto simp: h array_inv_def list_all_length)
  moreover from this n have "last (array_list a) = the (elems h ! (len h - 1))"
    using assms(1)
    by (subst last_conv_nth) (auto simp: h array_list_def array_inv_def min_def)
  ultimately have "bio_array_pop a = Inr (last (array_list a), ?a)"
    using n by (auto simp: bio_array_pop_def bio_array__do_pop_def array_get_def h bio_array_len_def)
  with inv butl show ?thesis by blast
qed

section \<open>Contract\<close>

text \<open>What the clients rely on: a sequence that grows at its end.\<close>

locale sequence =
  fixes empty :: "'s"
    and push :: "'s \<Rightarrow> 'a \<Rightarrow> 's"
    and clear :: "'s \<Rightarrow> 's"
    and size_of :: "'s \<Rightarrow> nat"
    and get :: "'s \<Rightarrow> nat \<Rightarrow> 'a outcome"
    and seq :: "'s \<Rightarrow> 'a list"
    and inv :: "'s \<Rightarrow> bool"
  assumes inv_empty: "inv empty" and seq_empty: "seq empty = []"
    and inv_push: "inv s \<Longrightarrow> inv (push s x)"
    and seq_push: "inv s \<Longrightarrow> seq (push s x) = seq s @ [x]"
    and inv_clear: "inv s \<Longrightarrow> inv (clear s)" and seq_clear: "inv s \<Longrightarrow> seq (clear s) = []"
    and size_seq: "inv s \<Longrightarrow> size_of s = length (seq s)"
    and get_seq: "inv s \<Longrightarrow> i < size_of s \<Longrightarrow> get s i = Inr (seq s ! i)"
begin

definition push_all :: "'s \<Rightarrow> 'a list \<Rightarrow> 's" where
  "push_all = foldl push"

lemma push_all: "inv s \<Longrightarrow> inv (push_all s xs) \<and> seq (push_all s xs) = seq s @ xs"
  unfolding push_all_def
  by (induction xs arbitrary: s) (auto simp: inv_push seq_push)

lemma get_push_all:
  assumes "inv s" "i < length xs"
  shows "get (push_all s xs) (size_of s + i) = Inr (xs ! i)"
  using push_all [OF assms(1), of xs] assms by (simp add: get_seq size_seq nth_append)

end

interpretation arr: sequence None bio_array_push bio_array_clear bio_array_len array_get array_list array_inv
  by unfold_locales simp_all

end
