(* ===== verification/HandleTable.thy ===== *)
theory HandleTable
  imports Prelude
begin

text \<open>
  The handle table of \<open>src/src/handle.c\<close>: a growable array of slots with a free
  list threaded through it. A handle is a slot number plus one and the
  generation the slot had when the handle was made; closing a handle bumps the
  generation, which turns every copy of the handle stale.
\<close>

section \<open>Model\<close>

text \<open>
  \<open>bio_tag_t\<close>: tags are static objects compared by address, so they are
  distinct constructors here; \<open>NULL_TAG\<close> is the null pointer.
\<close>

datatype bio_tag =
    NULL_TAG
  | BIO_CORO_HANDLE | BIO_SIGNAL_HANDLE | BIO_MONITOR_HANDLE
  | BIO_TIMER_HANDLE | BIO_MAILBOX_HANDLE | BIO_BUFFER_HANDLE
  | BIO_LOGGER_HANDLE | BIO_FILE_HANDLE | BIO_SOCKET_HANDLE
  | BIO_CORE_ERROR | BIO_PLATFORM_ERROR
  | USER_TAG nat

record bio_handle =
  index :: int
  gen :: int

definition BIO_INVALID_HANDLE :: bio_handle where
  "BIO_INVALID_HANDLE = \<lparr>index = 0, gen = 0\<rparr>"

record bio_handle_slot =
  slot_tag :: bio_tag
  slot_obj :: addr
  slot_gen :: int
  slot_next :: int

record handle_table =
  handle_slots :: "bio_handle_slot list"
  handle_capacity :: int
  next_handle_slot :: int
  num_handles :: int

definition BIO_INITIAL_HANDLE_CAPACITY :: int where
  "BIO_INITIAL_HANDLE_CAPACITY = 4"

definition init_slot :: "int \<Rightarrow> bio_handle_slot" where
  "init_slot i = \<lparr>slot_tag = NULL_TAG, slot_obj = NULL, slot_gen = 0, slot_next = i + 1\<rparr>"

definition bio_grow_handle_table :: "int \<Rightarrow> int \<Rightarrow> handle_table \<Rightarrow> handle_table" where
  "bio_grow_handle_table old_capacity new_capacity ht =
    ht\<lparr>handle_slots := take (nat old_capacity) (handle_slots ht)
                       @ map init_slot [old_capacity..new_capacity - 1],
       next_handle_slot := old_capacity,
       handle_capacity := new_capacity\<rparr>"

definition bio_handle_table_init :: handle_table where
  "bio_handle_table_init =
    bio_grow_handle_table 0 BIO_INITIAL_HANDLE_CAPACITY
      \<lparr>handle_slots = [], handle_capacity = 0, next_handle_slot = 0, num_handles = 0\<rparr>"

text \<open>Indexing \<open>bio_ctx.handle_slots[i]\<close>.\<close>

definition slot_at :: "handle_table \<Rightarrow> int \<Rightarrow> bio_handle_slot outcome" where
  "slot_at ht i =
    (if 0 \<le> i \<and> i < int (length (handle_slots ht)) then Inr (handle_slots ht ! nat i)
     else Inl DanglingPointer)"

definition bio_make_handle :: "addr \<Rightarrow> bio_tag \<Rightarrow> handle_table \<Rightarrow> (bio_handle \<times> handle_table) outcome" where
  "bio_make_handle obj tag ht =
    rbind (if num_handles ht \<ge> handle_capacity ht
           then rbind (check32 (handle_capacity ht * 2))
                  (\<lambda>c. Inr (bio_grow_handle_table (handle_capacity ht) c ht))
           else Inr ht) (\<lambda>ht.
    let i = next_handle_slot ht in
    rbind (slot_at ht i) (\<lambda>slot.
    let slot' = slot\<lparr>slot_obj := obj, slot_tag := tag\<rparr>;
        ht' = ht\<lparr>handle_slots := (handle_slots ht)[nat i := slot'],
                 next_handle_slot := slot_next slot',
                 num_handles := num_handles ht + 1\<rparr>
    in Inr (\<lparr>index = i + 1, gen = slot_gen slot'\<rparr>, ht')))"

definition bio_resolve_handle :: "bio_handle \<Rightarrow> bio_tag \<Rightarrow> handle_table \<Rightarrow> addr" where
  "bio_resolve_handle h tag ht =
    (let i = index h - 1 in
     if 0 \<le> i \<and> i < handle_capacity ht
     then (let slot = handle_slots ht ! nat i in
           if slot_gen slot = gen h \<and> slot_tag slot = tag then slot_obj slot else NULL)
     else NULL)"

definition bio_handle_info :: "bio_handle \<Rightarrow> handle_table \<Rightarrow> bio_tag" where
  "bio_handle_info h ht =
    (let i = index h - 1 in
     if 0 \<le> i \<and> i < handle_capacity ht
     then (let slot = handle_slots ht ! nat i in
           if slot_gen slot = gen h then slot_tag slot else NULL_TAG)
     else NULL_TAG)"

definition bio_close_handle :: "bio_handle \<Rightarrow> bio_tag \<Rightarrow> handle_table \<Rightarrow> (addr \<times> handle_table) outcome" where
  "bio_close_handle h tag ht =
    (let i = index h - 1 in
     if 0 \<le> i \<and> i < handle_capacity ht
     then (let slot = handle_slots ht ! nat i in
           if slot_gen slot = gen h \<and> slot_tag slot = tag
           then rbind (check32 (slot_gen slot + 1)) (\<lambda>g.
                let slot' = slot\<lparr>slot_gen := g, slot_next := next_handle_slot ht\<rparr>;
                    ht' = ht\<lparr>handle_slots := (handle_slots ht)[nat i := slot'],
                             next_handle_slot := i,
                             num_handles := num_handles ht - 1\<rparr>
                in Inr (slot_obj slot', ht'))
           else Inr (NULL, ht))
     else Inr (NULL, ht))"

definition bio_handle_compare :: "bio_handle \<Rightarrow> bio_handle \<Rightarrow> int" where
  "bio_handle_compare lhs rhs =
    (if index lhs \<noteq> index rhs then index lhs - index rhs else gen lhs - gen rhs)"

lemma bio_handle_compare_zero [simp]: "bio_handle_compare h k = 0 \<longleftrightarrow> h = k"
  by (cases h, cases k) (auto simp: bio_handle_compare_def)

section \<open>Free list and invariant\<close>

text \<open>The first \<open>n\<close> slots reached from \<open>i\<close> through the \<open>next_handle_slot\<close> links.\<close>

fun walk :: "bio_handle_slot list \<Rightarrow> int \<Rightarrow> nat \<Rightarrow> int list" where
  "walk sl i 0 = []"
| "walk sl i (Suc n) = i # walk sl (slot_next (sl ! nat i)) n"

definition free_list :: "handle_table \<Rightarrow> int list" where
  "free_list ht = walk (handle_slots ht) (next_handle_slot ht) (nat (handle_capacity ht - num_handles ht))"

definition handle_inv :: "handle_table \<Rightarrow> bool" where
  "handle_inv ht \<longleftrightarrow>
     int (length (handle_slots ht)) = handle_capacity ht \<and> 0 < handle_capacity ht
   \<and> num_handles ht \<le> handle_capacity ht
   \<and> distinct (free_list ht) \<and> list_all (\<lambda>i. 0 \<le> i \<and> i < handle_capacity ht) (free_list ht)
   \<and> list_all (\<lambda>s. 0 \<le> slot_gen s) (handle_slots ht)"

text \<open>
  The abstract content: which object and tag a live handle stands for. A handle
  is \<open>issued\<close> if the table may have handed it out: it names a slot, and its
  generation is not in the future of that slot.
\<close>

definition lookup_handle :: "handle_table \<Rightarrow> bio_handle \<Rightarrow> (addr \<times> bio_tag) option" where
  "lookup_handle ht h =
    (let i = index h - 1 in
     if 0 \<le> i \<and> i < handle_capacity ht \<and> i \<notin> set (free_list ht)
        \<and> gen h = slot_gen (handle_slots ht ! nat i)
     then Some (slot_obj (handle_slots ht ! nat i), slot_tag (handle_slots ht ! nat i))
     else None)"

definition issued :: "handle_table \<Rightarrow> bio_handle \<Rightarrow> bool" where
  "issued ht h \<longleftrightarrow>
    index h = 0 \<or>
    (let i = index h - 1 in
     0 \<le> i \<and> i < handle_capacity ht \<and> gen h \<le> slot_gen (handle_slots ht ! nat i)
     \<and> (i \<in> set (free_list ht) \<longrightarrow> gen h < slot_gen (handle_slots ht ! nat i)))"

lemma length_walk [simp]: "length (walk sl i n) = n"
  by (induction n arbitrary: i) auto

lemma walk_cong:
  "list_all (\<lambda>j. slot_next (sl ! nat j) = slot_next (sl' ! nat j)) (walk sl i n) \<Longrightarrow> walk sl' i n = walk sl i n"
  by (induction n arbitrary: i) auto

lemma walk_init:
  "nat i + n = length sl \<Longrightarrow> 0 \<le> i \<Longrightarrow> (\<And>j. i \<le> j \<Longrightarrow> j < int (length sl) \<Longrightarrow> sl ! nat j = init_slot j)
   \<Longrightarrow> walk sl i n = [i..int (length sl) - 1]"
proof (induction n arbitrary: i)
  case 0
  then show ?case by (simp add: upto.simps)
next
  case (Suc n)
  have "walk sl (i + 1) n = [i + 1..int (length sl) - 1]"
    using Suc.prems by (intro Suc.IH) auto
  moreover have "[i..int (length sl) - 1] = i # [i + 1..int (length sl) - 1]"
    using Suc.prems by (intro upto_rec1) auto
  ultimately show ?case using Suc.prems by (simp add: init_slot_def)
qed

text \<open>A duplicate-free list of slots inside the table has at most \<open>capacity\<close> entries.\<close>

lemma free_list_bound: "handle_inv ht \<Longrightarrow> 0 \<le> num_handles ht"
proof -
  assume inv: "handle_inv ht"
  have sub: "set (free_list ht) \<subseteq> {0..<handle_capacity ht}"
    using inv by (auto simp: handle_inv_def list_all_iff)
  have "length (free_list ht) = card (set (free_list ht))"
    using inv by (simp add: handle_inv_def distinct_card)
  also have "\<dots> \<le> card {0..<handle_capacity ht}"
    using sub by (rule card_mono [rotated]) simp
  finally have "nat (handle_capacity ht - num_handles ht) \<le> nat (handle_capacity ht)"
    by (simp add: free_list_def)
  with inv show ?thesis by (auto simp: handle_inv_def nat_le_eq_zle)
qed

section \<open>Laws of the operations\<close>

lemma issued_invalid [simp]: "issued ht BIO_INVALID_HANDLE" "lookup_handle ht BIO_INVALID_HANDLE = None"
  by (simp_all add: issued_def lookup_handle_def BIO_INVALID_HANDLE_def)

lemma lookup_issued: "handle_inv ht \<Longrightarrow> lookup_handle ht h = Some x \<Longrightarrow> issued ht h"
  by (auto simp: lookup_handle_def issued_def Let_def split: if_splits)

lemma lookup_index: "lookup_handle ht h = Some x \<Longrightarrow> 0 < index h"
  by (auto simp: lookup_handle_def Let_def split: if_splits)

lemma resolve_lookup:
  "handle_inv ht \<Longrightarrow> issued ht h \<Longrightarrow>
   bio_resolve_handle h tag ht =
     (case lookup_handle ht h of None \<Rightarrow> NULL | Some (obj, t) \<Rightarrow> if t = tag then obj else NULL)"
  by (auto simp: bio_resolve_handle_def lookup_handle_def issued_def Let_def)

lemma init_inv: "handle_inv bio_handle_table_init" "lookup_handle bio_handle_table_init h = None"
proof -
  have sl: "map init_slot [0..3] = [init_slot 0, init_slot 1, init_slot 2, init_slot 3]"
    by (simp add: upto.simps)
  have fl: "free_list bio_handle_table_init = [0, 1, 2, 3]"
    by (simp add: free_list_def bio_handle_table_init_def bio_grow_handle_table_def sl
        BIO_INITIAL_HANDLE_CAPACITY_def numeral_eq_Suc init_slot_def)
  show "handle_inv bio_handle_table_init"
    by (simp add: handle_inv_def fl)
      (simp add: bio_handle_table_init_def bio_grow_handle_table_def sl
        BIO_INITIAL_HANDLE_CAPACITY_def init_slot_def)
  have "handle_capacity bio_handle_table_init = 4"
    by (simp add: bio_handle_table_init_def bio_grow_handle_table_def BIO_INITIAL_HANDLE_CAPACITY_def)
  then show "lookup_handle bio_handle_table_init h = None"
    by (auto simp: lookup_handle_def fl Let_def)
qed

text \<open>Growing a full table adds only free slots.\<close>

lemma grow_free_list:
  assumes "handle_inv ht" "handle_capacity ht \<le> num_handles ht"
  shows "free_list (bio_grow_handle_table (handle_capacity ht) (handle_capacity ht * 2) ht)
         = [handle_capacity ht..handle_capacity ht * 2 - 1]"
proof -
  let ?c = "handle_capacity ht"
  let ?sl = "take (nat ?c) (handle_slots ht) @ map init_slot [?c..?c * 2 - 1]"
  have c: "int (length (handle_slots ht)) = ?c" "0 < ?c" "num_handles ht = ?c"
    using assms by (auto simp: handle_inv_def)
  have len: "int (length ?sl) = ?c * 2" using c by auto
  have nth: "?sl ! nat j = init_slot j" if "?c \<le> j" "j < ?c * 2" for j
    using that c by (auto simp: nth_append nat_diff_distrib' min_def)
  have "walk ?sl ?c (nat ?c) = [?c..int (length ?sl) - 1]"
    using c nth len by (intro walk_init) auto
  then show ?thesis
    using c len by (simp add: free_list_def bio_grow_handle_table_def mult.commute)
qed

lemma grow_law:
  assumes inv: "handle_inv ht" and full: "handle_capacity ht \<le> num_handles ht"
  defines "ht' \<equiv> bio_grow_handle_table (handle_capacity ht) (handle_capacity ht * 2) ht"
  shows "handle_inv ht'" "lookup_handle ht' = lookup_handle ht"
    "issued ht h \<Longrightarrow> issued ht' h" "num_handles ht' < handle_capacity ht'"
proof -
  let ?c = "handle_capacity ht"
  have c: "int (length (handle_slots ht)) = ?c" "0 < ?c" "num_handles ht = ?c"
    using inv full by (auto simp: handle_inv_def)
  have fl: "free_list ht' = [?c..?c * 2 - 1]" "free_list ht = []"
    unfolding ht'_def using grow_free_list [OF inv full] c by (simp_all add: free_list_def)
  have sl: "handle_slots ht' = handle_slots ht @ map init_slot [?c..?c * 2 - 1]"
    and cap: "handle_capacity ht' = ?c * 2" "num_handles ht' = ?c"
    using c by (auto simp: ht'_def bio_grow_handle_table_def)
  have nth: "handle_slots ht' ! nat i = handle_slots ht ! nat i" if "0 \<le> i" "i < ?c" for i
    using that c by (simp add: sl nth_append nat_less_iff)
  show "handle_inv ht'"
    using inv c by (auto simp: handle_inv_def fl sl cap list_all_iff init_slot_def)
  show "lookup_handle ht' = lookup_handle ht"
    using nth c by (auto simp: fun_eq_iff lookup_handle_def fl cap Let_def)
  show "issued ht h \<Longrightarrow> issued ht' h"
    using nth c by (auto simp: issued_def fl cap Let_def)
  show "num_handles ht' < handle_capacity ht'"
    using c by (simp add: cap)
qed

text \<open>Taking the first free slot of a table that has one.\<close>

lemma handle_eq_iff: "(h :: bio_handle) = k \<longleftrightarrow> index h = index k \<and> gen h = gen k"
  by (cases h, cases k) simp

lemma free_list_Cons:
  assumes "num_handles ht < handle_capacity ht"
  shows "free_list ht = next_handle_slot ht #
    walk (handle_slots ht) (slot_next (handle_slots ht ! nat (next_handle_slot ht)))
      (nat (handle_capacity ht - (num_handles ht + 1)))"
proof -
  have "nat (handle_capacity ht - num_handles ht) = Suc (nat (handle_capacity ht - (num_handles ht + 1)))"
    using assms by simp
  then show ?thesis by (simp add: free_list_def)
qed

lemma next_slot_bounds:
  assumes "handle_inv ht" "num_handles ht < handle_capacity ht"
  shows "0 \<le> next_handle_slot ht" "next_handle_slot ht < int (length (handle_slots ht))"
  using assms(1) free_list_Cons [OF assms(2)] by (auto simp: handle_inv_def)

lemma update_gens:
  assumes "handle_inv ht" "0 \<le> slot_gen slot"
  shows "list_all (\<lambda>s. 0 \<le> slot_gen s) ((handle_slots ht)[n := slot])"
  using assms subsetD [OF set_update_subset_insert [of "handle_slots ht" n slot]]
  by (auto simp: handle_inv_def list_all_iff)

lemma slot_gen_nonneg:
  "handle_inv ht \<Longrightarrow> 0 \<le> i \<Longrightarrow> i < int (length (handle_slots ht)) \<Longrightarrow> 0 \<le> slot_gen (handle_slots ht ! nat i)"
  by (auto simp: handle_inv_def list_all_length)

lemma take_slot_law:
  fixes obj :: addr and tag :: bio_tag
  assumes inv: "handle_inv ht" and room: "num_handles ht < handle_capacity ht"
    and i_def: "i = next_handle_slot ht" and sl_def: "sl = handle_slots ht"
    and slot'_def: "slot' = (sl ! nat i)\<lparr>slot_obj := obj, slot_tag := tag\<rparr>"
    and ht'_def: "ht' = ht\<lparr>handle_slots := sl[nat i := slot'], next_handle_slot := slot_next slot',
                    num_handles := num_handles ht + 1\<rparr>"
    and h_def: "h = \<lparr>index = i + 1, gen = slot_gen slot'\<rparr>"
  shows "handle_inv ht'" "\<not> issued ht h"
    "lookup_handle ht' = (lookup_handle ht)(h \<mapsto> (obj, tag))"
    "issued ht' h" "issued ht k \<Longrightarrow> issued ht' k"
proof -
  have i: "0 \<le> i" "i < int (length sl)"
    using next_slot_bounds [OF inv room] by (simp_all add: i_def sl_def)
  have nth: "sl[nat i := slot'] ! nat j = (if j = i then slot' else sl ! nat j)" if "0 \<le> j" for j
    using i that by (auto simp: nth_list_update_if)
  have same: "slot_next (sl[nat i := slot'] ! n) = slot_next (sl ! n)"
    "slot_gen (sl[nat i := slot'] ! n) = slot_gen (sl ! n)" for n
    using i by (cases "n = nat i"; simp add: slot'_def)+
  have cap: "handle_capacity ht' = handle_capacity ht" "handle_slots ht' = sl[nat i := slot']"
    "num_handles ht' = num_handles ht + 1" "next_handle_slot ht' = slot_next (sl ! nat i)"
    by (simp_all add: ht'_def slot'_def)
  have fl: "free_list ht = i # free_list ht'"
    unfolding free_list_Cons [OF room] free_list_def [of ht'] cap i_def [symmetric] sl_def [symmetric]
    by (simp, subst walk_cong [of sl]) (simp_all add: same list_all_iff)
  have i': "i \<notin> set (free_list ht')" "int (length sl) = handle_capacity ht"
    using inv by (simp_all add: handle_inv_def fl sl_def)
  have "0 \<le> slot_gen slot'"
    using slot_gen_nonneg [OF inv, of i] i by (simp add: slot'_def sl_def)
  from update_gens [OF inv this] show "handle_inv ht'"
    using inv room by (auto simp: handle_inv_def fl cap sl_def)
  show "\<not> issued ht h"
    using i by (simp add: issued_def h_def fl Let_def slot'_def sl_def)
  show "lookup_handle ht' = (lookup_handle ht)(h \<mapsto> (obj, tag))"
  proof
    fix k
    have "lookup_handle ht' k = lookup_handle ht k \<and> k \<noteq> h" if "index k - 1 \<noteq> i"
      using that nth [of "index k - 1"]
      by (auto simp: lookup_handle_def h_def fl cap Let_def sl_def)
    moreover have "lookup_handle ht k = None \<and> lookup_handle ht' k = (if k = h then Some (obj, tag) else None)"
      if k: "index k - 1 = i"
      unfolding lookup_handle_def k Let_def cap fl using i i' k
      by (auto simp: nth h_def handle_eq_iff) (simp_all add: slot'_def)
    ultimately show "lookup_handle ht' k = ((lookup_handle ht)(h \<mapsto> (obj, tag))) k"
      by (cases "index k - 1 = i") auto
  qed
  show "issued ht' h"
    using i i' by (simp add: issued_def h_def cap Let_def nth)
  show "issued ht k \<Longrightarrow> issued ht' k"
    by (auto simp: issued_def Let_def cap same fl sl_def [symmetric])
qed

lemma make_handle_room:
  assumes inv: "handle_inv ht" and room: "num_handles ht < handle_capacity ht"
  obtains h ht' where "bio_make_handle obj tag ht = Inr (h, ht')"
    "handle_inv ht'" "\<not> issued ht h"
    "lookup_handle ht' = (lookup_handle ht)(h \<mapsto> (obj, tag))"
    "issued ht' h" "\<forall>k. issued ht k \<longrightarrow> issued ht' k"
  using that take_slot_law [OF inv room refl refl refl refl refl, where obj = obj and tag = tag] next_slot_bounds [OF inv room] room
  by (simp add: bio_make_handle_def slot_at_def Let_def)

lemma make_handle_full:
  assumes inv: "handle_inv ht" and full: "handle_capacity ht \<le> num_handles ht"
    and fits: "handle_capacity ht * 2 \<le> INT32_MAX"
  shows "bio_make_handle obj tag ht =
    bio_make_handle obj tag (bio_grow_handle_table (handle_capacity ht) (handle_capacity ht * 2) ht)"
proof -
  have "0 < handle_capacity ht" using inv by (simp add: handle_inv_def)
  then have c: "check32 (handle_capacity ht * 2) = Inr (handle_capacity ht * 2)"
    using fits by (simp add: INT32_MAX_def)
  show ?thesis
    using full grow_law(4) [OF inv full] by (simp add: bio_make_handle_def c)
qed

text \<open>Making a handle fails only if the slot array would have to pass \<open>INT32_MAX\<close> slots.\<close>

lemma make_handle_total:
  assumes inv: "handle_inv ht" and room: "num_handles ht < handle_capacity ht \<or> handle_capacity ht * 2 \<le> INT32_MAX"
  obtains h ht' where "bio_make_handle obj tag ht = Inr (h, ht')"
    "handle_inv ht'" "\<not> issued ht h"
    "lookup_handle ht' = (lookup_handle ht)(h \<mapsto> (obj, tag))"
    "issued ht' h" "\<forall>k. issued ht k \<longrightarrow> issued ht' k"
proof (cases "num_handles ht < handle_capacity ht")
  case True
  from make_handle_room [OF inv True, of obj tag] that show ?thesis by blast
next
  case False
  then have full: "handle_capacity ht \<le> num_handles ht" and fits: "handle_capacity ht * 2 \<le> INT32_MAX"
    using room by auto
  note g = grow_law [OF inv full]
  show ?thesis
    by (rule make_handle_room [OF g(1) g(4), of obj tag])
      (rule that, auto simp: make_handle_full [OF inv full fits] g(2) dest: g(3))
qed

lemma make_handle_law [safe_rules]:
  assumes inv: "handle_inv ht"
  shows "safe (bio_make_handle obj tag ht) (\<lambda>(h, ht').
           handle_inv ht' \<and> \<not> issued ht h
         \<and> lookup_handle ht' = (lookup_handle ht)(h \<mapsto> (obj, tag))
         \<and> issued ht' h \<and> (\<forall>k. issued ht k \<longrightarrow> issued ht' k))"
proof (cases "num_handles ht < handle_capacity ht \<or> handle_capacity ht * 2 \<le> INT32_MAX")
  case True
  from make_handle_total [OF inv this, of obj tag] show ?thesis by fastforce
next
  case False
  then have "bio_make_handle obj tag ht = Inl SignedOverflow"
    by (simp add: bio_make_handle_def check32_def)
  then show ?thesis by simp
qed

lemma close_slot_law:
  assumes inv: "handle_inv ht" and live: "lookup_handle ht h = Some (obj, tag)"
    and i_def: "i = index h - 1" and sl_def: "sl = handle_slots ht"
    and slot'_def: "slot' = (sl ! nat i)\<lparr>slot_gen := slot_gen (sl ! nat i) + 1, slot_next := next_handle_slot ht\<rparr>"
    and ht'_def: "ht' = ht\<lparr>handle_slots := sl[nat i := slot'], next_handle_slot := i,
                    num_handles := num_handles ht - 1\<rparr>"
  shows "handle_inv ht'" "lookup_handle ht' = (lookup_handle ht)(h := None)"
    "issued ht k \<Longrightarrow> issued ht' k"
proof -
  have i: "0 \<le> i" "i < handle_capacity ht" "i \<notin> set (free_list ht)" "gen h = slot_gen (sl ! nat i)"
    using live by (auto simp: lookup_handle_def Let_def i_def sl_def split: if_splits)
  have len: "int (length sl) = handle_capacity ht" "num_handles ht \<le> handle_capacity ht"
    using inv by (auto simp: handle_inv_def sl_def)
  have nth: "sl[nat i := slot'] ! nat j = (if j = i then slot' else sl ! nat j)" if "0 \<le> j" for j
    using i that len by (auto simp: nth_list_update_if)
  have pos: "0 \<le> j" if "j \<in> set (free_list ht)" for j
    using inv that by (auto simp: handle_inv_def list_all_iff)
  have cap: "handle_capacity ht' = handle_capacity ht" "handle_slots ht' = sl[nat i := slot']"
    "num_handles ht' = num_handles ht - 1" "next_handle_slot ht' = i"
    by (simp_all add: ht'_def)
  have w: "walk (sl[nat i := slot']) (next_handle_slot ht) (nat (handle_capacity ht - num_handles ht)) = free_list ht"
    unfolding free_list_def sl_def
    by (rule walk_cong) (use pos i(3) nth in \<open>auto simp: free_list_def sl_def list_all_iff\<close>)
  have n: "nat (handle_capacity ht - (num_handles ht - 1)) = Suc (nat (handle_capacity ht - num_handles ht))"
    using len by simp
  have nx: "slot_next (sl[nat i := slot'] ! nat i) = next_handle_slot ht"
    using nth [of i] i(1) by (simp add: slot'_def)
  have fl: "free_list ht' = i # free_list ht"
    unfolding free_list_def [of ht'] cap n walk.simps nx w ..
  have "0 \<le> slot_gen slot'"
    using slot_gen_nonneg [OF inv, of i] i len by (simp add: slot'_def sl_def)
  from update_gens [OF inv this] show "handle_inv ht'"
    using inv i by (auto simp: handle_inv_def fl cap sl_def)
  show "lookup_handle ht' = (lookup_handle ht)(h := None)"
  proof
    fix k
    have "lookup_handle ht' k = lookup_handle ht k \<and> k \<noteq> h" if "index k - 1 \<noteq> i"
      using that nth [of "index k - 1"]
      by (auto simp: lookup_handle_def i_def fl cap Let_def sl_def)
    moreover have "lookup_handle ht' k = None \<and> (k \<noteq> h \<longrightarrow> lookup_handle ht k = None)"
      if k: "index k - 1 = i"
      unfolding lookup_handle_def k Let_def cap fl using i k
      by (auto simp: handle_eq_iff i_def sl_def)
    ultimately show "lookup_handle ht' k = ((lookup_handle ht)(h := None)) k"
      by (cases "index k - 1 = i") auto
  qed
  have "slot_gen slot' = slot_gen (sl ! nat i) + 1" by (simp add: slot'_def)
  then show "issued ht k \<Longrightarrow> issued ht' k"
    using nth [of "index k - 1"] i unfolding issued_def cap fl Let_def sl_def [symmetric]
    by (cases "index k - 1 = i") auto
qed

lemma close_handle_live:
  assumes "handle_inv ht" "lookup_handle ht h = Some (obj, tag)"
  shows "safe (bio_close_handle h tag ht) (\<lambda>(p, ht').
           p = obj \<and> handle_inv ht' \<and> lookup_handle ht' = (lookup_handle ht)(h := None)
         \<and> (\<forall>k. issued ht k \<longrightarrow> issued ht' k))"
  using close_slot_law [OF assms refl refl refl refl] assms(2)
  by (auto simp: bio_close_handle_def lookup_handle_def Let_def split: if_splits)

lemma close_handle_dead:
  assumes "handle_inv ht" "issued ht h" "\<And>obj. lookup_handle ht h \<noteq> Some (obj, tag)"
  shows "bio_close_handle h tag ht = Inr (NULL, ht)"
  using assms(1,2) assms(3) [of "slot_obj (handle_slots ht ! nat (index h - 1))"]
  by (auto simp: bio_close_handle_def lookup_handle_def issued_def Let_def split: if_splits)

lemma close_handle_law [safe_rules]:
  assumes "handle_inv ht" "issued ht h"
  shows "safe (bio_close_handle h tag ht) (\<lambda>(p, ht').
           handle_inv ht' \<and> (\<forall>k. issued ht k \<longrightarrow> issued ht' k) \<and>
           (case lookup_handle ht h of
              Some (obj, t) \<Rightarrow>
                if t = tag then p = obj \<and> lookup_handle ht' = (lookup_handle ht)(h := None)
                else p = NULL \<and> ht' = ht
            | None \<Rightarrow> p = NULL \<and> ht' = ht))"
proof (cases "\<exists>obj. lookup_handle ht h = Some (obj, tag)")
  case True
  then obtain obj where l: "lookup_handle ht h = Some (obj, tag)" by blast
  show ?thesis
    by (rule safe_mono [OF close_handle_live [OF assms(1) l]]) (auto simp: l)
next
  case False
  with close_handle_dead [OF assms] show ?thesis
    using assms by (auto split: option.splits)
qed

section \<open>Contract\<close>

text \<open>
  What every client relies on: handles are names for objects. A name is handed
  out once, stands for its object until it is closed, and for nothing after.
\<close>

locale handle_map =
  fixes make :: "addr \<Rightarrow> 'g \<Rightarrow> 't \<Rightarrow> ('h \<times> 't) outcome"
    and close :: "'h \<Rightarrow> 'g \<Rightarrow> 't \<Rightarrow> (addr \<times> 't) outcome"
    and resolve :: "'h \<Rightarrow> 'g \<Rightarrow> 't \<Rightarrow> addr"
    and lookup :: "'t \<Rightarrow> 'h \<Rightarrow> (addr \<times> 'g) option"
    and known :: "'t \<Rightarrow> 'h \<Rightarrow> bool"
    and inv :: "'t \<Rightarrow> bool"
  assumes known_lookup: "inv t \<Longrightarrow> lookup t h = Some x \<Longrightarrow> known t h"
    and resolve_known: "inv t \<Longrightarrow> known t h \<Longrightarrow>
      resolve h g t = (case lookup t h of None \<Rightarrow> NULL | Some (p, g') \<Rightarrow> if g' = g then p else NULL)"
    and make_safe: "inv t \<Longrightarrow> safe (make p g t) (\<lambda>(h, t'). inv t' \<and> \<not> known t h
      \<and> lookup t' = (lookup t)(h \<mapsto> (p, g)) \<and> known t' h \<and> (\<forall>k. known t k \<longrightarrow> known t' k))"
    and close_live: "inv t \<Longrightarrow> lookup t h = Some (p, g) \<Longrightarrow> safe (close h g t) (\<lambda>(p', t').
      p' = p \<and> inv t' \<and> lookup t' = (lookup t)(h := None) \<and> (\<forall>k. known t k \<longrightarrow> known t' k))"
    and close_dead: "inv t \<Longrightarrow> known t h \<Longrightarrow> (\<And>p. lookup t h \<noteq> Some (p, g)) \<Longrightarrow> close h g t = Inr (NULL, t)"
begin

lemma make_Inr:
  assumes "inv t" "make p g t = Inr (h, t')"
  shows "inv t'" "\<not> known t h" "lookup t' = (lookup t)(h \<mapsto> (p, g))" "known t' h"
    "known t k \<Longrightarrow> known t' k"
  using make_safe [OF assms(1), of p g] assms(2) by auto

lemma resolve_new:
  assumes "inv t" "make p g t = Inr (h, t')"
  shows "resolve h g' t' = (if g' = g then p else NULL)"
  using make_Inr [OF assms] by (auto simp: resolve_known)

lemma resolve_other_make:
  assumes "inv t" "make p g t = Inr (h, t')" "known t k"
  shows "resolve k g' t' = resolve k g' t"
proof -
  have "k \<noteq> h" using make_Inr(2) [OF assms(1,2)] assms(3) by auto
  then show ?thesis using make_Inr [OF assms(1,2)] assms by (simp add: resolve_known)
qed

lemma close_Inr:
  assumes "inv t" "known t h" "close h g t = Inr (p, t')"
  shows "inv t'" "known t k \<Longrightarrow> known t' k" "p = resolve h g t"
    "lookup t' = (if \<exists>q. lookup t h = Some (q, g) then (lookup t)(h := None) else lookup t)"
proof -
  have "inv t' \<and> (known t k \<longrightarrow> known t' k) \<and> p = resolve h g t
    \<and> lookup t' = (if \<exists>q. lookup t h = Some (q, g) then (lookup t)(h := None) else lookup t)"
  proof (cases "\<exists>q. lookup t h = Some (q, g)")
    case True
    then obtain q where q: "lookup t h = Some (q, g)" by blast
    show ?thesis using close_live [OF assms(1) q] assms q by (auto simp: resolve_known)
  next
    case False
    then have "close h g t = Inr (NULL, t)" using close_dead [OF assms(1,2), of g] by blast
    with False assms show ?thesis by (auto simp: resolve_known split: option.splits)
  qed
  then show "inv t'" "known t k \<Longrightarrow> known t' k" "p = resolve h g t"
    "lookup t' = (if \<exists>q. lookup t h = Some (q, g) then (lookup t)(h := None) else lookup t)"
    by auto
qed

lemma resolve_closed:
  assumes "inv t" "known t h" "close h g t = Inr (p, t')"
  shows "resolve h g t' = NULL"
  using close_Inr [OF assms] assms by (auto simp: resolve_known split: option.splits)

lemma resolve_other_close:
  assumes "inv t" "known t h" "close h g t = Inr (p, t')" "known t k" "k \<noteq> h"
  shows "resolve k g' t' = resolve k g' t"
  using close_Inr [OF assms(1-3)] assms by (auto simp: resolve_known)

lemma close_twice:
  assumes "inv t" "known t h" "close h g t = Inr (p, t')"
  shows "close h g t' = Inr (NULL, t')"
  using close_Inr [OF assms] assms(2) by (intro close_dead) (auto split: if_splits)

lemma stale_make: "inv t \<Longrightarrow> make p g t = Inr (h, t') \<Longrightarrow> known t k \<Longrightarrow> lookup t k = None \<Longrightarrow> lookup t' k = None"
  using make_Inr [of t p g h t'] by (auto simp: fun_upd_def)

lemma stale_close:
  "inv t \<Longrightarrow> known t h \<Longrightarrow> close h g t = Inr (p, t') \<Longrightarrow> lookup t k = None \<Longrightarrow> lookup t' k = None"
  using close_Inr(4) [of t h g p t'] by simp

end

interpretation ht: handle_map bio_make_handle bio_close_handle bio_resolve_handle lookup_handle issued handle_inv
proof unfold_locales
  show "safe (bio_close_handle h g t) (\<lambda>(p', t'). p' = p \<and> handle_inv t'
      \<and> lookup_handle t' = (lookup_handle t)(h := None) \<and> (\<forall>k. issued t k \<longrightarrow> issued t' k))"
    if "handle_inv t" "lookup_handle t h = Some (p, g)" for t h p g
    using close_handle_live [OF that] by simp
  show "bio_close_handle h g t = Inr (NULL, t)"
    if "handle_inv t" "issued t h" "\<And>p. lookup_handle t h \<noteq> Some (p, g)" for t h g
    using that by (rule close_handle_dead)
qed (fact lookup_issued resolve_lookup make_handle_law)+

section \<open>Runs of the table\<close>

text \<open>
  Any sequence of calls to the table that only uses handles the table has
  issued (or the invalid handle).
\<close>

inductive handle_steps :: "handle_table \<Rightarrow> handle_table \<Rightarrow> bool" where
  steps_refl: "handle_steps t t"
| steps_make: "handle_steps t u \<Longrightarrow> bio_make_handle obj tag u = Inr (h, v) \<Longrightarrow> handle_steps t v"
| steps_close: "handle_steps t u \<Longrightarrow> issued u h \<Longrightarrow> bio_close_handle h tag u = Inr (p, v) \<Longrightarrow> handle_steps t v"

lemma handle_steps_inv: "handle_steps t u \<Longrightarrow> handle_inv t \<Longrightarrow> handle_inv u"
  by (induction rule: handle_steps.induct) (auto dest: ht.make_Inr(1) ht.close_Inr(1))

lemma handle_steps_issued: "handle_steps t u \<Longrightarrow> handle_inv t \<Longrightarrow> issued t k \<Longrightarrow> issued u k"
proof (induction rule: handle_steps.induct)
  case (steps_make t u obj tag h v)
  then show ?case using handle_steps_inv ht.make_Inr(5) by blast
next
  case (steps_close t u h tag p v)
  then show ?case using handle_steps_inv ht.close_Inr(2) by blast
qed simp

lemma handle_steps_stale:
  "handle_steps t u \<Longrightarrow> handle_inv t \<Longrightarrow> issued t k \<Longrightarrow> lookup_handle t k = None \<Longrightarrow> lookup_handle u k = None"
proof (induction rule: handle_steps.induct)
  case (steps_make t u obj tag h v)
  then show ?case using handle_steps_inv handle_steps_issued ht.stale_make by metis
next
  case (steps_close t u h tag p v)
  then show ?case using handle_steps_inv ht.stale_close by metis
qed simp

end
