(* ===== verification/Context.thy ===== *)
theory Context
  imports BioArray HandleTable
begin

text \<open>
  The data of the framework: the structs of \<open>src/src/internal.h\<close> and the files
  that keep their own implementation structs, and the global \<open>bio_ctx\<close>.
  Pointers are addresses into one store per struct type; an intrusive list head
  (\<open>BIO_DEFINE_LIST_LINK\<close>) is the list of the addresses linked into it, in order
  (theory \<open>IntrusiveList\<close> justifies this view of the list macros).
\<close>

datatype bio_coro_state = BIO_CORO_READY | BIO_CORO_RUNNING | BIO_CORO_WAITING | BIO_CORO_DEAD

datatype bio_exit_reason = BIO_EXIT_OS_REQUEST | BIO_EXIT_TERMINATE

record bio_signal_impl =
  sig_owner :: addr
  sig_handle :: bio_handle
  sig_wait_counter :: int

record bio_cls_entry =
  cls_spec :: addr
  cls_data :: addr

record bio_coro_impl =
  entrypoint :: addr
  daemon :: bool
  userdata :: addr
  extra_data :: addr
  extra_data_tag :: bio_tag
  coro_name :: addr
  cls_buckets :: "bio_cls_entry list list option"
  coro_handle :: bio_handle
  coro_state :: bio_coro_state
  pending_signals :: "addr list"
  monitors :: "addr list"
  num_blocking_signals :: int
  wait_counter :: int

record bio_exit_info =
  exit_signal :: bio_handle
  exit_reason :: bio_exit_reason

record bio_monitor_impl =
  mon_handle :: bio_handle
  mon_signal :: bio_handle

record bio_timer_entry =
  due_time_ms :: int
  timer_signal :: bio_handle

datatype bio_timer_type = BIO_TIMER_ONESHOT | BIO_TIMER_INTERVAL

record bio_timer_impl =
  tm_type :: bio_timer_type
  tm_timeout_ms :: int
  tm_fn :: addr
  tm_userdata :: addr
  tm_wake_signal :: bio_handle
  tm_due_time_ms :: int
  tm_cancelled :: bool
  tm_handle :: bio_handle

type_synonym byte = "8 word"

record bio_mailbox =
  mb_capacity :: "32 word"
  mb_read :: "32 word"
  mb_write :: "32 word"
  mb_signal :: bio_handle
  mb_data :: "byte list"

text \<open>
  Function pointers of the buffering layer: the static callbacks of
  \<open>src/src/buffering.c\<close> by name, and those of the application.
\<close>

datatype bio_io_fn =
    NULL_FN
  | bio_read_file_buffered | bio_write_file_buffered | bio_flush_file_buffered
  | bio_read_socket_buffered | bio_write_socket_buffered
  | USER_FN nat

record bio_buffer_options =
  buf_ctx :: bio_handle
  read_fn :: bio_io_fn
  write_fn :: bio_io_fn
  flush_fn :: bio_io_fn
  buf_size :: nat

record bio_io_buffer_impl =
  buf_options :: bio_buffer_options
  buf_offset :: nat
  buf_data_size :: nat
  buf_data :: "byte list"

datatype bio_log_level =
    BIO_LOG_LEVEL_TRACE | BIO_LOG_LEVEL_DEBUG | BIO_LOG_LEVEL_INFO
  | BIO_LOG_LEVEL_WARN | BIO_LOG_LEVEL_ERROR | BIO_LOG_LEVEL_FATAL

text \<open>\<open>BIO_SERVICE(T)\<close>: the coroutine of a service and its mailbox.\<close>

record bio_service =
  svc_coro :: bio_handle
  svc_mailbox :: bio_handle

text \<open>
  \<open>bio_service_data_t\<close>: what \<open>bio__service_start\<close> hands to the new coroutine. The
  arguments are the machine words of the caller's struct.
\<close>

record bio_service_data =
  svd_mailbox :: bio_handle
  svd_ready_signal :: bio_handle
  svd_entry :: addr
  svd_args :: "addr list"

record bio_logger_impl =
  logger_handle :: bio_handle
  min_level :: bio_log_level
  logger_service :: bio_service

text \<open>
  \<open>bio_fmt_buf_t\<close>: the characters of the allocated block (\<open>None\<close>: no block yet) and
  the number the code believes it has.
\<close>

record bio_fmt_buf =
  fmt_mem :: "char list option"
  fmt_len :: int

record bio_file_logger_data =
  fl_file :: bio_handle
  fl_with_colors :: bool
  fl_format_buf :: bio_fmt_buf

record bio_file_impl =
  file_fd :: int
  file_offset :: int
  file_seekable :: bool

record bio_socket_impl =
  sock_fd :: int

datatype bio_worker_msg_type = BIO_WORKER_MSG_NOOP | BIO_WORKER_MSG_TERMINATE | BIO_WORKER_MSG_RUN

record bio_worker_msg =
  msg_type :: bio_worker_msg_type
  need_notification :: bool
  run_fn :: addr
  run_userdata :: addr
  run_signal :: bio_handle

text \<open>
  Where a worker thread is in the body of \<open>bio_async_worker\<close>: about to take a
  request, about to act on the message it took, about to answer (with the value
  of \<open>running\<close>), about to notify the main thread, or returned.
\<close>

datatype worker_pc =
    Taking
  | Acting addr
  | Answering addr bool
  | Notifying bool
  | Returned

text \<open>
  A worker thread. The two queues are the values between \<open>head\<close> and \<open>tail\<close> of the
  rings, oldest first (theory \<open>Spscq\<close> shows that the rings behave like this).
\<close>

record bio_worker_thread =
  request_queue :: "addr list"
  request_size :: nat
  response_queue :: "addr list"
  response_size :: nat
  load :: "32 word"
  worker_at :: worker_pc

text \<open>
  Linux: a request that was submitted to the ring (\<open>bio_io_req_t\<close>; what the kernel
  has stored into the caller's buffer or \<open>struct statx\<close> is kept with it), and the state of
  the platform layer.
\<close>

record bio_io_req =
  req_signal :: bio_handle
  req_res :: int
  req_flags :: "32 word"
  req_buf :: "byte list"
  req_stx_size :: nat

text \<open>
  \<open>bio_fs_test_lseek_args_t\<close> without its \<open>result\<close>, which a worker thread stores and
  which is therefore part of the \<open>world\<close>.
\<close>

record bio_fs_test_lseek_args =
  lseek_fd :: int
  lseek_whence :: int

record bio_platform =
  signal_polled :: bool
  signal_fd :: int
  event_fd :: int
  notification_counter :: "32 word"
  ack_counter :: "32 word"
  has_op_bind :: bool
  has_op_listen :: bool
  has_op_futex_wait :: bool

text \<open>
  The part of the context that the scheduler and the timers never touch: exit
  handlers, loggers, the objects of the file, network and buffering layers and
  the thread pool.
\<close>

record bio_rest =
  exit_handlers :: "addr bio_array"
  exit_infos :: "bio_exit_info store"
  loggers :: "addr list"
  logger_impls :: "bio_logger_impl store"
  log_filename :: "string option"
  log_depth :: int
  log_prefix_len :: int
  log_bufs :: "bio_fmt_buf store"
  log_strings :: "string store"
  file_loggers :: "bio_file_logger_data store"
  service_datas :: "bio_service_data store"
  io_buffers :: "bio_io_buffer_impl store"
  file_impls :: "bio_file_impl store"
  socket_impls :: "bio_socket_impl store"
  thread_pool :: "bio_worker_thread list"
  worker_msgs :: "bio_worker_msg store"
  num_running_async_jobs :: int
  BIO_STDIN :: bio_handle
  BIO_STDOUT :: bio_handle
  BIO_STDERR :: bio_handle
  io_reqs :: "bio_io_req store"
  lseek_args :: "bio_fs_test_lseek_args store"
  plat :: bio_platform

text \<open>
  The global context. \<open>world\<close> stands for everything the framework's own code
  never looks into: the coroutine stacks that minicoro keeps, the operating
  system, the state of the application. \<open>allocator\<close> is the allocation function
  of the options: given the addresses in use it picks the address of the next
  object.
\<close>

record 'w bio_ctx =
  allocator :: "addr list \<Rightarrow> addr"
  num_cls_buckets :: int
  is_terminating :: bool
  handles :: handle_table
  timer_entries :: "bio_timer_entry list"
  timer_capacity :: nat
  num_timers :: nat
  current_time_ms :: int
  current_ready_coros :: "addr bio_array"
  next_ready_coros :: "addr bio_array"
  num_coros :: int
  num_daemons :: int
  coros :: "bio_coro_impl store"
  signals :: "bio_signal_impl store"
  monitor_impls :: "bio_monitor_impl store"
  timer_impls :: "bio_timer_impl store"
  mailboxes :: "bio_mailbox store"
  rest :: bio_rest
  world :: 'w

definition cls_addrs :: "'w bio_ctx \<Rightarrow> addr list" where
  "cls_addrs s = concat (map (\<lambda>(_, k). case cls_buckets k of None \<Rightarrow> [] | Some bs \<Rightarrow> map cls_data (concat bs)) (coros s))"

definition live_addrs :: "'w bio_ctx \<Rightarrow> addr list" where
  "live_addrs s = addrs (coros s) @ addrs (signals s) @ addrs (monitor_impls s)
     @ addrs (timer_impls s) @ addrs (mailboxes s) @ addrs (exit_infos (rest s)) @ addrs (logger_impls (rest s))
     @ addrs (io_buffers (rest s)) @ addrs (file_impls (rest s)) @ addrs (socket_impls (rest s)) @ addrs (worker_msgs (rest s)) @ addrs (io_reqs (rest s))
     @ addrs (log_strings (rest s)) @ addrs (file_loggers (rest s)) @ addrs (service_datas (rest s)) @ addrs (lseek_args (rest s)) @ cls_addrs s"

definition bio_malloc :: "'w bio_ctx \<Rightarrow> addr" where
  "bio_malloc s = allocator s (live_addrs s)"

text \<open>The documented contract of the allocation function: fresh memory, never \<open>NULL\<close>.\<close>

definition allocator_ok :: "(addr list \<Rightarrow> addr) \<Rightarrow> bool" where
  "allocator_ok f \<longleftrightarrow> (\<forall>used. f used \<noteq> NULL \<and> f used \<notin> set used)"

lemma bio_malloc_fresh:
  assumes "allocator_ok (allocator s)"
  shows "bio_malloc s \<noteq> NULL"
    "map_of (coros s) (bio_malloc s) = None" "map_of (signals s) (bio_malloc s) = None"
    "map_of (monitor_impls s) (bio_malloc s) = None" "map_of (timer_impls s) (bio_malloc s) = None"
    "map_of (mailboxes s) (bio_malloc s) = None" "map_of (exit_infos (rest s)) (bio_malloc s) = None"
    "map_of (logger_impls (rest s)) (bio_malloc s) = None" "map_of (io_buffers (rest s)) (bio_malloc s) = None"
    "map_of (file_impls (rest s)) (bio_malloc s) = None" "map_of (socket_impls (rest s)) (bio_malloc s) = None"
    "map_of (worker_msgs (rest s)) (bio_malloc s) = None" "map_of (io_reqs (rest s)) (bio_malloc s) = None"
    "map_of (log_strings (rest s)) (bio_malloc s) = None" "map_of (file_loggers (rest s)) (bio_malloc s) = None"
    "map_of (service_datas (rest s)) (bio_malloc s) = None" "map_of (lseek_args (rest s)) (bio_malloc s) = None"
proof -
  have "bio_malloc s \<notin> set (live_addrs s)" and n: "bio_malloc s \<noteq> NULL"
    using assms by (auto simp: allocator_ok_def bio_malloc_def)
  then show "bio_malloc s \<noteq> NULL"
    "map_of (coros s) (bio_malloc s) = None" "map_of (signals s) (bio_malloc s) = None"
    "map_of (monitor_impls s) (bio_malloc s) = None" "map_of (timer_impls s) (bio_malloc s) = None"
    "map_of (mailboxes s) (bio_malloc s) = None" "map_of (exit_infos (rest s)) (bio_malloc s) = None"
    "map_of (logger_impls (rest s)) (bio_malloc s) = None" "map_of (io_buffers (rest s)) (bio_malloc s) = None"
    "map_of (file_impls (rest s)) (bio_malloc s) = None" "map_of (socket_impls (rest s)) (bio_malloc s) = None"
    "map_of (worker_msgs (rest s)) (bio_malloc s) = None" "map_of (io_reqs (rest s)) (bio_malloc s) = None"
    "map_of (log_strings (rest s)) (bio_malloc s) = None" "map_of (file_loggers (rest s)) (bio_malloc s) = None"
    "map_of (service_datas (rest s)) (bio_malloc s) = None" "map_of (lseek_args (rest s)) (bio_malloc s) = None"
    by (auto simp: live_addrs_def set_addrs simp del: not_None_eq)
qed

text \<open>A concrete allocation function that keeps the contract: one past every address in use.\<close>

definition bump_allocator :: "addr list \<Rightarrow> addr" where
  "bump_allocator used = Suc (fold max used 0)"

lemma fold_max_ge: "(x :: nat) \<in> set xs \<Longrightarrow> x \<le> fold max xs a"
proof (induction xs arbitrary: a)
  case (Cons y ys)
  have mono: "b \<le> fold max zs b" for b :: nat and zs
    by (induction zs arbitrary: b) (auto intro: order_trans [OF max.cobounded2])
  show ?case using Cons mono [of "max y a" ys] by auto
qed simp

lemma bump_allocator_ok: "allocator_ok bump_allocator"
proof -
  have "Suc (fold max used 0) \<notin> set used" for used :: "addr list"
    using fold_max_ge [of "Suc (fold max used 0)" used 0] by auto
  then show ?thesis by (simp add: allocator_ok_def bump_allocator_def)
qed

end
