(* ===== verification/Objects.thy ===== *)
theory Objects
  imports Context
begin

text \<open>
  How the objects of a component hang together: every object is named by
  exactly one live handle, and intrusive lists hold exactly the objects that
  claim to be in them. The components state their invariants with these
  predicates, and prove that an operation keeps them from the lemmas here.
\<close>

lemma map_option_upd:
  "(\<lambda>q. map_option f ((B(p \<mapsto> x)) q)) = (\<lambda>q. map_option f (B q))(p \<mapsto> f x)"
  "(\<lambda>q. map_option f ((B(p := None)) q)) = (\<lambda>q. map_option f (B q))(p := None)"
  by auto

section \<open>Named objects and linked lists\<close>

text \<open>
  \<open>named t L B nm\<close>: the live handles with tag \<open>t\<close> and the objects of the store
  \<open>B\<close> are in one-to-one correspondence; \<open>L\<close> is the content of the handle table
  and \<open>nm\<close> the handle an object remembers.
\<close>

definition named :: "bio_tag \<Rightarrow> (bio_handle \<rightharpoonup> addr \<times> bio_tag) \<Rightarrow> (addr \<rightharpoonup> 'o) \<Rightarrow> ('o \<Rightarrow> bio_handle) \<Rightarrow> bool" where
  "named t L B nm \<longleftrightarrow> B NULL = None \<and> (\<forall>h p. L h = Some (p, t) \<longleftrightarrow> (\<exists>x. B p = Some x \<and> nm x = h))"

lemma named_NULL: "named t L B nm \<Longrightarrow> B NULL = None"
  by (simp add: named_def)

lemma named_handle: "named t L B nm \<Longrightarrow> B p = Some x \<Longrightarrow> L (nm x) = Some (p, t)"
  by (auto simp: named_def)

lemma named_object: "named t L B nm \<Longrightarrow> L h = Some (p, t) \<Longrightarrow> \<exists>x. B p = Some x \<and> nm x = h"
  by (auto simp: named_def)

lemma named_neq_NULL: "named t L B nm \<Longrightarrow> B p = Some x \<Longrightarrow> p \<noteq> NULL"
  by (metis named_NULL option.distinct(1))

lemma named_cong:
  "(\<And>h p. L' h = Some (p, t) \<longleftrightarrow> L h = Some (p, t)) \<Longrightarrow> named t L' B nm = named t L B nm"
  by (simp add: named_def)

lemma named_add: "named t L B nm \<Longrightarrow> L h = None \<Longrightarrow> t' \<noteq> t \<Longrightarrow> named t (L(h \<mapsto> (p, t'))) B nm"
  by (subst named_cong [of _ t L]) auto

lemma named_close: "named t L B nm \<Longrightarrow> L h = Some (p, t') \<Longrightarrow> t' \<noteq> t \<Longrightarrow> named t (L(h := None)) B nm"
  by (subst named_cong [of _ t L]) auto

lemma named_upd:
  assumes "named t L B nm" "B p = Some x" "nm y = nm x"
  shows "named t L (B(p \<mapsto> y)) nm"
proof -
  have "(\<exists>z. (B(p \<mapsto> y)) q = Some z \<and> nm z = h) \<longleftrightarrow> (\<exists>z. B q = Some z \<and> nm z = h)" for q h
    using assms(2,3) by (cases "q = p") auto
  then show ?thesis using assms(1) named_neq_NULL [OF assms(1,2)] by (simp add: named_def)
qed

lemma named_new:
  assumes "named t L B nm" "L h = None" "B p = None" "p \<noteq> NULL" "nm x = h"
  shows "named t (L(h \<mapsto> (p, t))) (B(p \<mapsto> x)) nm"
proof -
  have "nm y \<noteq> h" if "B q = Some y" for q y using named_handle [OF assms(1) that] assms(2) by auto
  then show ?thesis using assms by (auto simp: named_def)
qed

lemma named_remove:
  assumes "named t L B nm" "B p = Some x"
  shows "named t (L(nm x := None)) (B(p := None)) nm"
proof -
  have inj: "q = p" if "B q = Some y" "nm y = nm x" for q y
    using named_handle [OF assms(1) that(1)] named_handle [OF assms] that(2) by simp
  show ?thesis
    unfolding named_def using named_NULL [OF assms(1)] assms
    by (auto simp: named_def dest: inj)
qed

lemma named_map: "(\<And>x. nm (f x) = nm x) \<Longrightarrow> named t L (\<lambda>p. map_option f (B p)) nm = named t L B nm"
  by (simp add: named_def map_option_eq_Some ex_simps [symmetric] del: ex_simps)

text \<open>
  \<open>linked P W\<close>: \<open>P\<close> gives each list head its list and \<open>W\<close> each linked item the
  head of the list it is in. Every list is free of duplicates.
\<close>

definition linked :: "(addr \<rightharpoonup> addr list) \<Rightarrow> (addr \<rightharpoonup> addr) \<Rightarrow> bool" where
  "linked P W \<longleftrightarrow> (\<forall>p c. W p = Some c \<longleftrightarrow> (\<exists>l. P c = Some l \<and> p \<in> set l)) \<and> (\<forall>c l. P c = Some l \<longrightarrow> distinct l)"

lemma linkedD:
  assumes "linked P W"
  shows "W p = Some c \<Longrightarrow> \<exists>l. P c = Some l \<and> p \<in> set l" "P c = Some l \<Longrightarrow> p \<in> set l \<Longrightarrow> W p = Some c"
    "P c = Some l \<Longrightarrow> distinct l"
  using assms by (auto simp: linked_def)

lemma linked_append:
  assumes "linked P W" "P c = Some l" "W p = None"
  shows "linked (P(c \<mapsto> l @ [p])) (W(p \<mapsto> c))"
proof -
  have "p \<notin> set l'" if "P d = Some l'" for d l' using linkedD(2) [OF assms(1) that] assms(3) by auto
  then show ?thesis using assms by (auto simp: linked_def)
qed

lemma linked_unique: "linked P W \<Longrightarrow> W p = Some c \<Longrightarrow> P a = Some l \<Longrightarrow> p \<in> set l \<Longrightarrow> a = c"
  using linkedD(2) [of P W a l p] by simp

lemma linked_remove_all:
  assumes "linked P W" "W p = Some c" "P c = Some l"
  shows "(\<lambda>a. map_option (remove1 p) (P a)) = P(c \<mapsto> remove1 p l)"
proof
  fix a
  show "map_option (remove1 p) (P a) = (P(c \<mapsto> remove1 p l)) a"
  proof (cases "P a")
    case (Some l')
    then show ?thesis
      using assms(3) linked_unique [OF assms(1,2) Some] by (cases "p \<in> set l'") (auto simp: remove1_idem)
  qed (use assms in auto)
qed

lemma linked_remove:
  assumes "linked P W" "W p = Some c" "P c = Some l"
  shows "linked (P(c \<mapsto> remove1 p l)) (W(p := None))"
proof -
  have "set (remove1 p l) = set l - {p}" "distinct (remove1 p l)"
    using linkedD(3) [OF assms(1,3)] by auto
  moreover have "(W(p := None)) q = Some a \<longleftrightarrow> (\<exists>l'. (P(c \<mapsto> remove1 p l)) a = Some l' \<and> q \<in> set l')" for q a
  proof (cases "q = p")
    case True
    then show ?thesis using calculation linked_unique [OF assms(1,2), of a] by auto
  next
    case False
    then show ?thesis using calculation assms(1,3) by (cases "a = c") (auto simp: linked_def)
  qed
  ultimately show ?thesis using linkedD(3) [OF assms(1)] by (simp add: linked_def)
qed

lemma linked_new: "linked P W \<Longrightarrow> P c = None \<Longrightarrow> linked (P(c \<mapsto> [])) W"
  by (fastforce simp: linked_def)

lemma linked_del: "linked P W \<Longrightarrow> P c = Some [] \<Longrightarrow> linked (P(c := None)) W"
  by (fastforce simp: linked_def)

section \<open>Frames of the handle table\<close>

text \<open>Handles with a tag outside of \<open>T\<close> keep their meaning, and no handle is forgotten.\<close>

definition table_frame :: "bio_tag set \<Rightarrow> handle_table \<Rightarrow> handle_table \<Rightarrow> bool" where
  "table_frame T ht ht' \<longleftrightarrow>
     (\<forall>h. issued ht h \<longrightarrow> issued ht' h)
   \<and> (\<forall>h p t. t \<notin> T \<longrightarrow> (lookup_handle ht' h = Some (p, t) \<longleftrightarrow> lookup_handle ht h = Some (p, t)))"

lemma table_frame_refl [simp]: "table_frame T ht ht"
  by (simp add: table_frame_def)

lemma table_frame_trans: "table_frame T a b \<Longrightarrow> table_frame T b c \<Longrightarrow> table_frame T a c"
  by (simp add: table_frame_def)

lemma table_frame_make:
  "lookup_handle ht h = None \<Longrightarrow> lookup_handle ht' = (lookup_handle ht)(h \<mapsto> (p, t)) \<Longrightarrow> t \<in> T \<Longrightarrow>
   (\<And>k. issued ht k \<Longrightarrow> issued ht' k) \<Longrightarrow> table_frame T ht ht'"
  by (auto simp: table_frame_def)

lemma table_frame_close:
  "lookup_handle ht h = Some (p, t) \<Longrightarrow> lookup_handle ht' = (lookup_handle ht)(h := None) \<Longrightarrow> t \<in> T \<Longrightarrow>
   (\<And>k. issued ht k \<Longrightarrow> issued ht' k) \<Longrightarrow> table_frame T ht ht'"
  by (auto simp: table_frame_def)

section \<open>Steps of the handle table\<close>

text \<open>The table \<open>ht'\<close> after a handle was made, and after one was closed.\<close>

definition made :: "handle_table \<Rightarrow> bio_handle \<Rightarrow> addr \<Rightarrow> bio_tag \<Rightarrow> handle_table \<Rightarrow> bool" where
  "made ht h p t ht' \<longleftrightarrow>
     handle_inv ht' \<and> \<not> issued ht h \<and> lookup_handle ht h = None
   \<and> lookup_handle ht' = (lookup_handle ht)(h \<mapsto> (p, t)) \<and> issued ht' h \<and> (\<forall>k. issued ht k \<longrightarrow> issued ht' k)"

definition closed :: "handle_table \<Rightarrow> bio_handle \<Rightarrow> addr \<Rightarrow> bio_tag \<Rightarrow> handle_table \<Rightarrow> bool" where
  "closed ht h p t ht' \<longleftrightarrow>
     handle_inv ht' \<and> lookup_handle ht h = Some (p, t)
   \<and> lookup_handle ht' = (lookup_handle ht)(h := None) \<and> (\<forall>k. issued ht k \<longrightarrow> issued ht' k)"

lemma make_safe: "handle_inv ht \<Longrightarrow> safe (bio_make_handle p t ht) (\<lambda>(h, ht'). made ht h p t ht')"
  by (rule safe_mono [OF make_handle_law])
    (auto simp: made_def dest: lookup_issued intro: ccontr)

lemma close_safe:
  "handle_inv ht \<Longrightarrow> lookup_handle ht h = Some (p, t) \<Longrightarrow>
   safe (bio_close_handle h t ht) (\<lambda>(q, ht'). q = p \<and> closed ht h p t ht')"
  by (rule safe_mono [OF close_handle_live]) (auto simp: closed_def)

lemma close_none:
  "handle_inv ht \<Longrightarrow> issued ht h \<Longrightarrow> (\<nexists>p. lookup_handle ht h = Some (p, t)) \<Longrightarrow>
   bio_close_handle h t ht = Inr (NULL, ht)"
  by (rule close_handle_dead) auto

lemma made_frame: "made ht h p t ht' \<Longrightarrow> t \<in> T \<Longrightarrow> table_frame T ht ht'"
  by (auto simp: made_def intro: table_frame_make)

lemma closed_frame: "closed ht h p t ht' \<Longrightarrow> t \<in> T \<Longrightarrow> table_frame T ht ht'"
  by (auto simp: closed_def intro: table_frame_close)

lemma named_made:
  "named t (lookup_handle ht) B nm \<Longrightarrow> made ht h p t' ht' \<Longrightarrow> t' \<noteq> t \<Longrightarrow> named t (lookup_handle ht') B nm"
  by (auto simp: made_def intro: named_add)

lemma named_closed:
  "named t (lookup_handle ht) B nm \<Longrightarrow> closed ht h p t' ht' \<Longrightarrow> t' \<noteq> t \<Longrightarrow> named t (lookup_handle ht') B nm"
  by (auto simp: closed_def intro: named_close)

lemma named_made_new:
  "named t (lookup_handle ht) B nm \<Longrightarrow> made ht h p t ht' \<Longrightarrow> B p = None \<Longrightarrow> p \<noteq> NULL \<Longrightarrow> nm x = h \<Longrightarrow>
   named t (lookup_handle ht') (B(p \<mapsto> x)) nm"
  by (auto simp: made_def intro: named_new)

lemma named_closed_remove:
  "named t (lookup_handle ht) B nm \<Longrightarrow> closed ht h p t ht' \<Longrightarrow> named t (lookup_handle ht') (B(p := None)) nm"
  using named_object [of t "lookup_handle ht" B nm h p]
  by (auto simp: closed_def dest: named_remove)

end
