(* ===== verification/Signal.thy ===== *)
theory Signal
  imports Objects
begin

text \<open>
  Signals and monitors of \<open>src/src/scheduler.c\<close>: the operations a running
  coroutine uses to synchronise with others.
\<close>

section \<open>Model\<close>

text \<open>
  \<open>self\<close> is the coroutine that minicoro is running (\<open>mco_running()->user_data\<close>),
  or \<open>NULL\<close> outside of any coroutine.
\<close>

definition bio_make_signal :: "addr \<Rightarrow> 'w bio_ctx \<Rightarrow> (bio_handle \<times> 'w bio_ctx) outcome" where
  "bio_make_signal self s =
    (if self \<noteq> NULL then
       rbind (deref (coros s) self) (\<lambda>coro.
       rbind (check32 (wait_counter coro - 1)) (\<lambda>w.
       let p = bio_malloc s in
       rbind (bio_make_handle p BIO_SIGNAL_HANDLE (handles s)) (\<lambda>(h, ht).
       Inr (h, s\<lparr>handles := ht,
                 signals := put p \<lparr>sig_owner = self, sig_handle = h, sig_wait_counter = w\<rparr> (signals s),
                 coros := put self (coro\<lparr>pending_signals := pending_signals coro @ [p]\<rparr>) (coros s)\<rparr>))))
     else Inr (BIO_INVALID_HANDLE, s))"

text \<open>\<open>BIO_LIST_REMOVE\<close> takes an item out of the list it is linked into.\<close>

definition unlink_signal :: "addr \<Rightarrow> bio_coro_impl store \<Rightarrow> bio_coro_impl store" where
  "unlink_signal p = map (\<lambda>(a, k). (a, k\<lparr>pending_signals := remove1 p (pending_signals k)\<rparr>))"

definition unlink_monitor :: "addr \<Rightarrow> bio_coro_impl store \<Rightarrow> bio_coro_impl store" where
  "unlink_monitor m = map (\<lambda>(a, k). (a, k\<lparr>monitors := remove1 m (monitors k)\<rparr>))"

definition bio_raise_signal :: "bio_handle \<Rightarrow> 'w bio_ctx \<Rightarrow> (bool \<times> 'w bio_ctx) outcome" where
  "bio_raise_signal ref s =
    rbind (bio_close_handle ref BIO_SIGNAL_HANDLE (handles s)) (\<lambda>(p, ht).
    let s = s\<lparr>handles := ht\<rparr> in
    if p \<noteq> NULL then
      rbind (deref (signals s) p) (\<lambda>sig.
      rbind (deref (coros s) (sig_owner sig)) (\<lambda>owner.
      rbind (if coro_state owner = BIO_CORO_WAITING \<and> sig_wait_counter sig = wait_counter owner then
               (let n = num_blocking_signals owner - 1 in
                if n = 0
                then Inr (True, s\<lparr>next_ready_coros := bio_array_push (next_ready_coros s) (sig_owner sig),
                                  coros := put (sig_owner sig)
                                    (owner\<lparr>num_blocking_signals := n, coro_state := BIO_CORO_READY\<rparr>) (coros s)\<rparr>)
                else Inr (False, s\<lparr>coros := put (sig_owner sig) (owner\<lparr>num_blocking_signals := n\<rparr>) (coros s)\<rparr>))
             else Inr (False, s)) (\<lambda>(woken, s).
      Inr (woken, s\<lparr>coros := unlink_signal p (coros s), signals := del p (signals s)\<rparr>))))
    else Inr (False, s))"

definition bio_check_signal :: "bio_handle \<Rightarrow> 'w bio_ctx \<Rightarrow> bool" where
  "bio_check_signal ref s = (bio_resolve_handle ref BIO_SIGNAL_HANDLE (handles s) = NULL)"

text \<open>
  \<open>bio_wait_for_signals\<close> up to the point where it yields: the loop over the
  signals, and the decision whether to suspend (the \<open>bool\<close> of the result).
\<close>

fun wait_scan :: "addr \<Rightarrow> int \<Rightarrow> bio_handle list \<Rightarrow> int \<Rightarrow> bool \<Rightarrow> 'w bio_ctx \<Rightarrow> (int \<times> bool \<times> 'w bio_ctx) outcome" where
  "wait_scan self wc [] n raised s = Inr (n, raised, s)"
| "wait_scan self wc (h # hs) n raised s =
    (let p = bio_resolve_handle h BIO_SIGNAL_HANDLE (handles s) in
     if p \<noteq> NULL then
       rbind (deref (signals s) p) (\<lambda>sig.
       if sig_owner sig = self
       then wait_scan self wc hs (n + 1) raised (s\<lparr>signals := put p (sig\<lparr>sig_wait_counter := wc\<rparr>) (signals s)\<rparr>)
       else wait_scan self wc hs n raised s)
     else wait_scan self wc hs n (raised \<or> bio_handle_compare h BIO_INVALID_HANDLE \<noteq> 0) s)"

definition wait_prepare :: "addr \<Rightarrow> bio_handle list \<Rightarrow> bool \<Rightarrow> 'w bio_ctx \<Rightarrow> (bool \<times> 'w bio_ctx) outcome" where
  "wait_prepare self hs wait_all s =
    (if self \<noteq> NULL then
       rbind (deref (coros s) self) (\<lambda>coro.
       rbind (check32 (wait_counter coro + 1)) (\<lambda>wc.
       rbind (wait_scan self wc hs 0 False (s\<lparr>coros := put self (coro\<lparr>wait_counter := wc\<rparr>) (coros s)\<rparr>)) (\<lambda>(n, raised, s).
       if n > 0 \<and> (wait_all \<or> \<not> raised)
       then rbind (deref (coros s) self) (\<lambda>coro.
              Inr (True, s\<lparr>coros := put self (coro\<lparr>num_blocking_signals := (if wait_all then n else 1)\<rparr>) (coros s)\<rparr>))
       else Inr (False, s))))
     else Inr (False, s))"

text \<open>
  \<open>mco_yield\<close> is minicoro's context switch: a parameter that takes the context
  at the moment the coroutine gives up control to the context it finds when it
  is resumed.
\<close>

definition bio_wait_for_signals ::
    "(addr \<Rightarrow> 'w bio_ctx \<Rightarrow> 'w bio_ctx outcome) \<Rightarrow> addr \<Rightarrow> bio_handle list \<Rightarrow> bool \<Rightarrow> 'w bio_ctx \<Rightarrow> 'w bio_ctx outcome" where
  "bio_wait_for_signals mco_yield self hs wait_all s =
    rbind (wait_prepare self hs wait_all s) (\<lambda>(suspend, s).
    if suspend then mco_yield self s else Inr s)"

definition bio_wait_for_one_signal ::
    "(addr \<Rightarrow> 'w bio_ctx \<Rightarrow> 'w bio_ctx outcome) \<Rightarrow> addr \<Rightarrow> bio_handle \<Rightarrow> 'w bio_ctx \<Rightarrow> 'w bio_ctx outcome" where
  "bio_wait_for_one_signal mco_yield self h s = bio_wait_for_signals mco_yield self [h] True s"

definition bio_monitor :: "bio_handle \<Rightarrow> bio_handle \<Rightarrow> 'w bio_ctx \<Rightarrow> (bio_handle \<times> 'w bio_ctx) outcome" where
  "bio_monitor coro signal s =
    (let c = bio_resolve_handle coro BIO_CORO_HANDLE (handles s);
         p = bio_resolve_handle signal BIO_SIGNAL_HANDLE (handles s) in
     rbind (if c \<noteq> NULL \<and> p \<noteq> NULL
            then rbind (deref (signals s) p) (\<lambda>sig. Inr (sig_owner sig \<noteq> c))
            else Inr False) (\<lambda>ok.
     if ok then
       (let m = bio_malloc s in
        rbind (bio_make_handle m BIO_MONITOR_HANDLE (handles s)) (\<lambda>(h, ht).
        rbind (deref (coros s) c) (\<lambda>k.
        Inr (h, s\<lparr>handles := ht,
                  monitor_impls := put m \<lparr>mon_handle = h, mon_signal = signal\<rparr> (monitor_impls s),
                  coros := put c (k\<lparr>monitors := monitors k @ [m]\<rparr>) (coros s)\<rparr>))))
     else
       rbind (bio_raise_signal signal s) (\<lambda>(_, s). Inr (BIO_INVALID_HANDLE, s))))"

definition bio_unmonitor :: "bio_handle \<Rightarrow> 'w bio_ctx \<Rightarrow> 'w bio_ctx outcome" where
  "bio_unmonitor ref s =
    rbind (bio_close_handle ref BIO_MONITOR_HANDLE (handles s)) (\<lambda>(m, ht).
    let s = s\<lparr>handles := ht\<rparr> in
    if m \<noteq> NULL
    then Inr (s\<lparr>coros := unlink_monitor m (coros s), monitor_impls := del m (monitor_impls s)\<rparr>)
    else Inr s)"

definition bio_join ::
    "(addr \<Rightarrow> 'w bio_ctx \<Rightarrow> 'w bio_ctx outcome) \<Rightarrow> addr \<Rightarrow> bio_handle \<Rightarrow> 'w bio_ctx \<Rightarrow> 'w bio_ctx outcome" where
  "bio_join mco_yield self coro s =
    rbind (bio_make_signal self s) (\<lambda>(term_signal, s).
    rbind (bio_monitor coro term_signal s) (\<lambda>(_, s).
    bio_wait_for_one_signal mco_yield self term_signal s))"

definition get_coro_state :: "bio_handle \<Rightarrow> 'w bio_ctx \<Rightarrow> bio_coro_state outcome" where
  "get_coro_state ref s =
    (let c = bio_resolve_handle ref BIO_CORO_HANDLE (handles s) in
     if c \<noteq> NULL then rbind (deref (coros s) c) (\<lambda>k. Inr (coro_state k))
     else Inr BIO_CORO_DEAD)"

definition bio_current_coro :: "addr \<Rightarrow> 'w bio_ctx \<Rightarrow> bio_handle outcome" where
  "bio_current_coro self s =
    (if self \<noteq> NULL then rbind (deref (coros s) self) (\<lambda>k. Inr (coro_handle k))
     else Inr BIO_INVALID_HANDLE)"

definition bio_set_coro_data :: "addr \<Rightarrow> addr \<Rightarrow> bio_tag \<Rightarrow> 'w bio_ctx \<Rightarrow> 'w bio_ctx outcome" where
  "bio_set_coro_data self data tag s =
    (if self \<noteq> NULL then
       rbind (deref (coros s) self) (\<lambda>k.
       Inr (s\<lparr>coros := put self (k\<lparr>extra_data := data, extra_data_tag := tag\<rparr>) (coros s)\<rparr>))
     else Inr s)"

definition bio_get_coro_data :: "bio_handle \<Rightarrow> bio_tag \<Rightarrow> 'w bio_ctx \<Rightarrow> addr outcome" where
  "bio_get_coro_data coro tag s =
    (let c = bio_resolve_handle coro BIO_CORO_HANDLE (handles s) in
     if c \<noteq> NULL
     then rbind (deref (coros s) c) (\<lambda>k. Inr (if extra_data_tag k = tag then extra_data k else NULL))
     else Inr NULL)"

definition bio_set_coro_name :: "addr \<Rightarrow> addr \<Rightarrow> 'w bio_ctx \<Rightarrow> 'w bio_ctx outcome" where
  "bio_set_coro_name self nm s =
    (if self \<noteq> NULL then
       rbind (deref (coros s) self) (\<lambda>k. Inr (s\<lparr>coros := put self (k\<lparr>coro_name := nm\<rparr>) (coros s)\<rparr>))
     else Inr s)"

definition bio_get_coro_name :: "bio_handle \<Rightarrow> 'w bio_ctx \<Rightarrow> addr outcome" where
  "bio_get_coro_name coro s =
    (let c = bio_resolve_handle coro BIO_CORO_HANDLE (handles s) in
     if c \<noteq> NULL then rbind (deref (coros s) c) (\<lambda>k. Inr (coro_name k)) else Inr NULL)"

section \<open>Invariant of the object graph\<close>

text \<open>
  The lists of pending signals and monitors of the coroutines. While a
  coroutine is being destroyed its own lists still hold freed objects; \<open>V\<close> then
  gives the part of the list that has not been freed yet.
\<close>

definition pending_lists :: "(addr \<rightharpoonup> addr list) \<Rightarrow> (addr \<rightharpoonup> bio_coro_impl) \<Rightarrow> addr \<rightharpoonup> addr list" where
  "pending_lists V C = (\<lambda>c. map_option pending_signals (C c)) ++ V"

definition monitor_lists :: "(addr \<rightharpoonup> addr list) \<Rightarrow> (addr \<rightharpoonup> bio_coro_impl) \<Rightarrow> addr \<rightharpoonup> addr list" where
  "monitor_lists V C = (\<lambda>c. map_option monitors (C c)) ++ V"

definition emptied :: "(addr \<rightharpoonup> addr list) \<Rightarrow> bool" where
  "emptied V \<longleftrightarrow> (\<forall>a l. V a = Some l \<longrightarrow> l = [])"

lemma emptied_simps [simp]: "emptied Map.empty" "emptied [c \<mapsto> []]"
  by (simp_all add: emptied_def)

lemma emptiedD: "emptied V \<Longrightarrow> V a = Some l \<Longrightarrow> l = []"
  by (simp add: emptied_def)

definition graph_ok :: "(addr \<rightharpoonup> addr list) \<Rightarrow> (addr \<rightharpoonup> addr list) \<Rightarrow> 'w bio_ctx \<Rightarrow> bool" where
  "graph_ok Vs Vm s \<longleftrightarrow>
     handle_inv (handles s)
   \<and> named BIO_CORO_HANDLE (lookup_handle (handles s)) (map_of (coros s)) coro_handle
   \<and> named BIO_SIGNAL_HANDLE (lookup_handle (handles s)) (map_of (signals s)) sig_handle
   \<and> named BIO_MONITOR_HANDLE (lookup_handle (handles s)) (map_of (monitor_impls s)) mon_handle
   \<and> linked (pending_lists Vs (map_of (coros s))) (\<lambda>p. map_option sig_owner (map_of (signals s) p))
   \<and> (\<exists>W. dom W = dom (map_of (monitor_impls s)) \<and> linked (monitor_lists Vm (map_of (coros s))) W)
   \<and> (\<forall>m x. map_of (monitor_impls s) m = Some x \<longrightarrow> issued (handles s) (mon_signal x))"

text \<open>
  The ready queue: \<open>cur\<close> holds the coroutines the loop has still to run in this
  round, \<open>run\<close> the one that is running. Both the queue and the counters depend
  on a part of each coroutine only.
\<close>

definition states :: "(addr \<rightharpoonup> bio_coro_impl) \<Rightarrow> addr \<rightharpoonup> bio_coro_state \<times> int" where
  "states C = (\<lambda>c. map_option (\<lambda>k. (coro_state k, num_blocking_signals k)) (C c))"

definition daemons :: "(addr \<rightharpoonup> bio_coro_impl) \<Rightarrow> addr \<rightharpoonup> bool" where
  "daemons C = (\<lambda>c. map_option daemon (C c))"

definition queue_ok :: "addr list \<Rightarrow> addr option \<Rightarrow> addr bio_array \<Rightarrow> (addr \<rightharpoonup> bio_coro_state \<times> int) \<Rightarrow> bool" where
  "queue_ok cur run q st \<longleftrightarrow>
     array_inv q \<and> distinct (cur @ array_list q)
   \<and> (\<forall>c. c \<in> set (cur @ array_list q) \<longleftrightarrow> (\<exists>n. st c = Some (BIO_CORO_READY, n)))
   \<and> (\<forall>c. run = Some c \<longleftrightarrow> (\<exists>n. st c = Some (BIO_CORO_RUNNING, n)))
   \<and> (\<forall>c x n. st c = Some (x, n) \<longrightarrow> x \<noteq> BIO_CORO_DEAD \<and> (x = BIO_CORO_WAITING \<longrightarrow> 0 < n))"

definition count_ok :: "int \<Rightarrow> int \<Rightarrow> (addr \<rightharpoonup> bool) \<Rightarrow> bool" where
  "count_ok nc nd dm \<longleftrightarrow> nc = int (card (dom dm)) \<and> nd = int (card {c. dm c = Some True})"

text \<open>
  A signal remembers the last wait it was part of, so it never runs ahead of its
  owner's wait counter.
\<close>

definition counters :: "(addr \<rightharpoonup> bio_coro_impl) \<Rightarrow> addr \<rightharpoonup> int" where
  "counters C = (\<lambda>c. map_option wait_counter (C c))"

definition waits_ok :: "(addr \<rightharpoonup> int) \<Rightarrow> (addr \<rightharpoonup> bio_signal_impl) \<Rightarrow> bool" where
  "waits_ok wc S \<longleftrightarrow> (\<forall>p g w. S p = Some g \<longrightarrow> wc (sig_owner g) = Some w \<longrightarrow> sig_wait_counter g \<le> w)"

definition sched_inv_gen :: "(addr \<rightharpoonup> addr list) \<Rightarrow> (addr \<rightharpoonup> addr list) \<Rightarrow> addr list \<Rightarrow> addr option \<Rightarrow> 'w bio_ctx \<Rightarrow> bool" where
  "sched_inv_gen Vs Vm cur run s \<longleftrightarrow>
     allocator_ok (allocator s) \<and> graph_ok Vs Vm s
   \<and> queue_ok cur run (next_ready_coros s) (states (map_of (coros s)))
   \<and> count_ok (num_coros s) (num_daemons s) (daemons (map_of (coros s)))
   \<and> waits_ok (counters (map_of (coros s))) (map_of (signals s))"

abbreviation sched_inv :: "addr list \<Rightarrow> addr option \<Rightarrow> 'w bio_ctx \<Rightarrow> bool" where
  "sched_inv \<equiv> sched_inv_gen Map.empty Map.empty"

text \<open>
  What the operations of this theory leave alone: everything but the object
  graph and the ready queue. Handles of other kinds of objects keep their
  meaning.
\<close>

definition sched_tags :: "bio_tag set" where
  "sched_tags = {BIO_CORO_HANDLE, BIO_SIGNAL_HANDLE, BIO_MONITOR_HANDLE}"

definition sched_frame :: "'w bio_ctx \<Rightarrow> 'w bio_ctx \<Rightarrow> bool" where
  "sched_frame s s' \<longleftrightarrow>
     table_frame sched_tags (handles s) (handles s')
   \<and> allocator s' = allocator s \<and> num_cls_buckets s' = num_cls_buckets s
   \<and> is_terminating s' = is_terminating s \<and> timer_entries s' = timer_entries s
   \<and> timer_capacity s' = timer_capacity s \<and> num_timers s' = num_timers s
   \<and> current_time_ms s' = current_time_ms s \<and> current_ready_coros s' = current_ready_coros s
   \<and> num_coros s' = num_coros s \<and> num_daemons s' = num_daemons s
   \<and> timer_impls s' = timer_impls s \<and> mailboxes s' = mailboxes s \<and> rest s' = rest s \<and> world s' = world s"

lemma sched_frame_refl [simp]: "sched_frame s s"
  by (simp add: sched_frame_def)

lemma sched_frame_trans: "sched_frame a b \<Longrightarrow> sched_frame b c \<Longrightarrow> sched_frame a c"
  by (auto simp: sched_frame_def intro: table_frame_trans)

lemma sched_frame_issued: "sched_frame s s' \<Longrightarrow> issued (handles s) h \<Longrightarrow> issued (handles s') h"
  by (auto simp: sched_frame_def table_frame_def)

subsection \<open>Reading the invariant\<close>

lemma lists_upd:
  "V c = None \<Longrightarrow> pending_lists V (C(c \<mapsto> k)) = (pending_lists V C)(c \<mapsto> pending_signals k)"
  "V c = None \<Longrightarrow> monitor_lists V (C(c \<mapsto> k)) = (monitor_lists V C)(c \<mapsto> monitors k)"
  by (auto simp: pending_lists_def monitor_lists_def fun_eq_iff map_add_def split: option.splits)

lemma lists_same:
  "C c = Some k \<Longrightarrow> pending_signals k' = pending_signals k \<Longrightarrow> pending_lists V (C(c \<mapsto> k')) = pending_lists V C"
  "C c = Some k \<Longrightarrow> monitors k' = monitors k \<Longrightarrow> monitor_lists V (C(c \<mapsto> k')) = monitor_lists V C"
  by (auto simp: pending_lists_def monitor_lists_def fun_eq_iff map_add_def split: option.splits)

lemma views_upd:
  "states (C(c \<mapsto> k)) = (states C)(c \<mapsto> (coro_state k, num_blocking_signals k))"
  "daemons (C(c \<mapsto> k)) = (daemons C)(c \<mapsto> daemon k)"
  "counters (C(c \<mapsto> k)) = (counters C)(c \<mapsto> wait_counter k)"
  by (auto simp: states_def daemons_def counters_def)

lemma views_same:
  "C c = Some k \<Longrightarrow> coro_state k' = coro_state k \<Longrightarrow> num_blocking_signals k' = num_blocking_signals k \<Longrightarrow> states (C(c \<mapsto> k')) = states C"
  "C c = Some k \<Longrightarrow> daemon k' = daemon k \<Longrightarrow> daemons (C(c \<mapsto> k')) = daemons C"
  "C c = Some k \<Longrightarrow> wait_counter k' = wait_counter k \<Longrightarrow> counters (C(c \<mapsto> k')) = counters C"
  by (auto simp: states_def daemons_def counters_def)

lemma map_of_unlink:
  "map_of (unlink_signal p cs) = (\<lambda>a. map_option (\<lambda>k. k\<lparr>pending_signals := remove1 p (pending_signals k)\<rparr>) (map_of cs a))"
  "map_of (unlink_monitor m cs) = (\<lambda>a. map_option (\<lambda>k. k\<lparr>monitors := remove1 m (monitors k)\<rparr>) (map_of cs a))"
  by (simp_all add: unlink_signal_def unlink_monitor_def map_of_map fun_eq_iff)

lemma views_unlink [simp]:
  "states (map_of (unlink_signal p cs)) = states (map_of cs)"
  "daemons (map_of (unlink_signal p cs)) = daemons (map_of cs)"
  "counters (map_of (unlink_signal p cs)) = counters (map_of cs)"
  "monitor_lists V (map_of (unlink_signal p cs)) = monitor_lists V (map_of cs)"
  "counters (map_of (unlink_monitor p cs)) = counters (map_of cs)"
  "states (map_of (unlink_monitor p cs)) = states (map_of cs)"
  "daemons (map_of (unlink_monitor p cs)) = daemons (map_of cs)"
  "pending_lists V (map_of (unlink_monitor p cs)) = pending_lists V (map_of cs)"
  by (simp_all add: map_of_unlink states_def daemons_def counters_def monitor_lists_def pending_lists_def option.map_comp comp_def)

lemma lists_unlink:
  "(\<And>a l. V a = Some l \<Longrightarrow> p \<notin> set l) \<Longrightarrow>
   pending_lists V (map_of (unlink_signal p cs)) = (\<lambda>a. map_option (remove1 p) (pending_lists V (map_of cs) a))"
  "(\<And>a l. V a = Some l \<Longrightarrow> p \<notin> set l) \<Longrightarrow>
   monitor_lists V (map_of (unlink_monitor p cs)) = (\<lambda>a. map_option (remove1 p) (monitor_lists V (map_of cs) a))"
  by (auto simp: map_of_unlink monitor_lists_def pending_lists_def option.map_comp comp_def fun_eq_iff
      map_add_def remove1_idem split: option.splits)

lemma named_unlink [simp]:
  "named t L (map_of (unlink_signal p cs)) coro_handle = named t L (map_of cs) coro_handle"
  "named t L (map_of (unlink_monitor p cs)) coro_handle = named t L (map_of cs) coro_handle"
  by (simp_all add: map_of_unlink named_map)

lemma graph_okD:
  assumes "graph_ok Vs Vm s"
  shows "handle_inv (handles s)"
    "named BIO_CORO_HANDLE (lookup_handle (handles s)) (map_of (coros s)) coro_handle"
    "named BIO_SIGNAL_HANDLE (lookup_handle (handles s)) (map_of (signals s)) sig_handle"
    "named BIO_MONITOR_HANDLE (lookup_handle (handles s)) (map_of (monitor_impls s)) mon_handle"
    "linked (pending_lists Vs (map_of (coros s))) (\<lambda>p. map_option sig_owner (map_of (signals s) p))"
    "\<exists>W. dom W = dom (map_of (monitor_impls s)) \<and> linked (monitor_lists Vm (map_of (coros s))) W"
    "map_of (monitor_impls s) m = Some x \<Longrightarrow> issued (handles s) (mon_signal x)"
  using assms by (auto simp: graph_ok_def)

lemma sched_invD:
  assumes "sched_inv_gen Vs Vm cur run s"
  shows "allocator_ok (allocator s)" "graph_ok Vs Vm s"
    "queue_ok cur run (next_ready_coros s) (states (map_of (coros s)))"
    "count_ok (num_coros s) (num_daemons s) (daemons (map_of (coros s)))"
    "waits_ok (counters (map_of (coros s))) (map_of (signals s))"
  using assms by (auto simp: sched_inv_gen_def)

lemma sched_inv_handles: "sched_inv_gen Vs Vm cur run s \<Longrightarrow> handle_inv (handles s)"
  by (simp add: sched_inv_gen_def graph_ok_def)

text \<open>The other components' objects and handles do not matter to the scheduler.\<close>

lemma sched_inv_rest [simp]:
  "sched_inv_gen Vs Vm cur run (s\<lparr>rest := r\<rparr>) = sched_inv_gen Vs Vm cur run s"
  "sched_inv_gen Vs Vm cur run (s\<lparr>timer_impls := ti\<rparr>) = sched_inv_gen Vs Vm cur run s"
  "sched_inv_gen Vs Vm cur run (s\<lparr>mailboxes := mb\<rparr>) = sched_inv_gen Vs Vm cur run s"
  "sched_inv_gen Vs Vm cur run (s\<lparr>world := w\<rparr>) = sched_inv_gen Vs Vm cur run s"
  "sched_inv_gen Vs Vm cur run (s\<lparr>is_terminating := b\<rparr>) = sched_inv_gen Vs Vm cur run s"
  by (simp_all add: sched_inv_gen_def graph_ok_def)

lemma sched_inv_table:
  assumes "sched_inv_gen Vs Vm cur run s" "handle_inv ht" "table_frame T (handles s) ht" "T \<inter> sched_tags = {}"
  shows "sched_inv_gen Vs Vm cur run (s\<lparr>handles := ht\<rparr>)"
proof -
  have L: "lookup_handle ht h = Some (p, t) \<longleftrightarrow> lookup_handle (handles s) h = Some (p, t)" if "t \<in> sched_tags" for h p t
  proof -
    have "t \<notin> T" using assms(4) that by blast
    then show ?thesis using assms(3) by (simp add: table_frame_def)
  qed
  have N: "named t (lookup_handle ht) B nm = named t (lookup_handle (handles s)) B nm" if "t \<in> sched_tags" for t B nm
    by (rule named_cong) (rule L [OF that])
  show ?thesis
    using assms(1-3) by (auto simp: sched_inv_gen_def graph_ok_def table_frame_def N sched_tags_def)
qed

text \<open>Resolving a handle gives \<open>NULL\<close> or the object it names.\<close>

lemma resolve_named:
  assumes "handle_inv ht" "issued ht h" "named t (lookup_handle ht) B nm"
  shows "bio_resolve_handle h t ht \<noteq> NULL \<longleftrightarrow> (\<exists>p. lookup_handle ht h = Some (p, t))"
    "lookup_handle ht h = Some (p, t) \<Longrightarrow> bio_resolve_handle h t ht = p \<and> p \<noteq> NULL \<and> (\<exists>x. B p = Some x \<and> nm x = h)"
proof -
  have "p \<noteq> NULL \<and> (\<exists>x. B p = Some x \<and> nm x = h)" if "lookup_handle ht h = Some (p, t)" for p
    using named_object [OF assms(3) that] named_neq_NULL [OF assms(3)] by blast
  then show "bio_resolve_handle h t ht \<noteq> NULL \<longleftrightarrow> (\<exists>p. lookup_handle ht h = Some (p, t))"
    "lookup_handle ht h = Some (p, t) \<Longrightarrow> bio_resolve_handle h t ht = p \<and> p \<noteq> NULL \<and> (\<exists>x. B p = Some x \<and> nm x = h)"
    using assms by (auto simp: resolve_lookup split: option.splits)
qed

lemma resolve_signal:
  assumes "graph_ok Vs Vm s" "issued (handles s) h" "bio_resolve_handle h BIO_SIGNAL_HANDLE (handles s) \<noteq> NULL"
  obtains g where "map_of (signals s) (bio_resolve_handle h BIO_SIGNAL_HANDLE (handles s)) = Some g" "sig_handle g = h"
  using resolve_named [OF graph_okD(1) [OF assms(1)] assms(2) graph_okD(3) [OF assms(1)]] assms(3) that by blast

text \<open>A change to one coroutine that keeps its handle and its lists.\<close>

lemma graph_ok_coro:
  assumes "graph_ok Vs Vm s" "map_of (coros s) c = Some k"
    "coro_handle k' = coro_handle k" "pending_signals k' = pending_signals k" "monitors k' = monitors k"
  shows "graph_ok Vs Vm (s\<lparr>coros := put c k' (coros s)\<rparr>)"
  using assms named_upd [OF graph_okD(2) [OF assms(1)] assms(2,3)]
  by (simp add: graph_ok_def lists_same)

lemma sched_inv_coro:
  assumes "sched_inv_gen Vs Vm cur run s" "map_of (coros s) c = Some k"
    "coro_handle k' = coro_handle k" "pending_signals k' = pending_signals k" "monitors k' = monitors k"
    "coro_state k' = coro_state k" "num_blocking_signals k' = num_blocking_signals k" "daemon k' = daemon k"
    "wait_counter k' = wait_counter k"
  shows "sched_inv_gen Vs Vm cur run (s\<lparr>coros := put c k' (coros s)\<rparr>)"
  using assms graph_ok_coro [OF sched_invD(2) [OF assms(1)] assms(2-5)]
  by (simp add: sched_inv_gen_def views_same [of "map_of (coros s)"])

section \<open>The operations keep the invariant\<close>

subsection \<open>Creating a signal\<close>

lemma graph_ok_new_signal:
  assumes ok: "graph_ok Vs Vm s" and k: "map_of (coros s) c = Some k" "Vs c = None"
    and p: "map_of (signals s) p = None" "p \<noteq> NULL"
    and m: "made (handles s) h p BIO_SIGNAL_HANDLE ht" and g: "sig_owner g = c" "sig_handle g = h"
    and k': "k' = k\<lparr>pending_signals := pending_signals k @ [p]\<rparr>"
  shows "graph_ok Vs Vm (s\<lparr>handles := ht, signals := put p g (signals s), coros := put c k' (coros s)\<rparr>)"
proof -
  note G = graph_okD [OF ok]
  have "named BIO_CORO_HANDLE (lookup_handle ht) ((map_of (coros s))(c \<mapsto> k')) coro_handle"
    using named_upd [OF named_made [OF G(2) m], of c k k'] k k' by simp
  moreover have "named BIO_SIGNAL_HANDLE (lookup_handle ht) ((map_of (signals s))(p \<mapsto> g)) sig_handle"
    using named_made_new [OF G(3) m p g(2)] .
  moreover have "named BIO_MONITOR_HANDLE (lookup_handle ht) (map_of (monitor_impls s)) mon_handle"
    using named_made [OF G(4) m] by simp
  moreover have "linked ((pending_lists Vs (map_of (coros s)))(c \<mapsto> pending_signals k @ [p]))
      ((\<lambda>p. map_option sig_owner (map_of (signals s) p))(p \<mapsto> c))"
    using k p by (intro linked_append G(5)) (auto simp: pending_lists_def map_add_def)
  then have "linked (pending_lists Vs ((map_of (coros s))(c \<mapsto> k')))
      (\<lambda>q. map_option sig_owner (((map_of (signals s))(p \<mapsto> g)) q))"
    by (simp add: lists_upd k k' g map_option_upd del: fun_upd_apply)
  ultimately show ?thesis
    using m k k' G(6,7) by (simp add: graph_ok_def lists_same made_def)
qed

lemma make_signal_safe [safe_rules]:
  assumes inv: "sched_inv_gen Vs Vm cur run s" and self: "self \<noteq> NULL \<Longrightarrow> map_of (coros s) self \<noteq> None"
    and V: "Vs self = None"
  shows "safe (bio_make_signal self s) (\<lambda>(h, s'). sched_inv_gen Vs Vm cur run s' \<and> sched_frame s s'
    \<and> issued (handles s') h \<and> (self \<noteq> NULL \<longrightarrow> \<not> bio_check_signal h s')
    \<and> states (map_of (coros s')) = states (map_of (coros s)))"
proof (cases "self = NULL")
  case True
  then show ?thesis using inv by (simp add: bio_make_signal_def)
next
  case False
  with self obtain k where k: "map_of (coros s) self = Some k" by auto
  note G = sched_invD [OF inv] and fresh = bio_malloc_fresh [OF sched_invD(1) [OF inv]]
  note same = views_same [of "map_of (coros s)", OF k]
  have waits_ok_new: "waits_ok (counters (map_of (coros s)))
      ((map_of (signals s))(bio_malloc s \<mapsto> \<lparr>sig_owner = self, sig_handle = h, sig_wait_counter = wait_counter k - 1\<rparr>))" for h
    using G(5) k by (auto simp: waits_ok_def counters_def)
  have post: "sched_inv_gen Vs Vm cur run s' \<and> sched_frame s s' \<and> issued (handles s') h
      \<and> \<not> bio_check_signal h s' \<and> states (map_of (coros s')) = states (map_of (coros s))"
    if m: "made (handles s) h (bio_malloc s) BIO_SIGNAL_HANDLE ht"
      and s': "s' = s\<lparr>handles := ht, signals := put (bio_malloc s) \<lparr>sig_owner = self, sig_handle = h, sig_wait_counter = w\<rparr> (signals s),
                coros := put self (k\<lparr>pending_signals := pending_signals k @ [bio_malloc s]\<rparr>) (coros s)\<rparr>"
      and w: "w = wait_counter k - 1" for h ht w s'
    using graph_ok_new_signal [OF G(2) k V fresh(3,1) m] waits_ok_new m fresh(1) G made_frame [OF m, of sched_tags] same
    by (simp add: s' w sched_inv_gen_def sched_frame_def sched_tags_def bio_check_signal_def resolve_lookup made_def)
  show ?thesis
    using False k make_safe [OF sched_inv_handles [OF inv], of "bio_malloc s" BIO_SIGNAL_HANDLE]
    by (auto simp: bio_make_signal_def Let_def dest!: post [OF _ refl refl] elim!: safe_mono)
qed

subsection \<open>Raising a signal\<close>

lemma graph_ok_remove_signal:
  assumes ok: "graph_ok Vs Vm s" and V: "emptied Vs"
    and g: "map_of (signals s) p = Some g"
    and m: "closed (handles s) h p BIO_SIGNAL_HANDLE ht"
    and k: "map_of (coros s) (sig_owner g) = Some k"
    and k': "coro_handle k' = coro_handle k" "pending_signals k' = pending_signals k" "monitors k' = monitors k"
  shows "graph_ok Vs Vm (s\<lparr>handles := ht, next_ready_coros := q,
           coros := unlink_signal p (put (sig_owner g) k' (coros s)), signals := del p (signals s)\<rparr>)"
proof -
  note G = graph_okD [OF ok]
  let ?P = "pending_lists Vs (map_of (coros s))" and ?W = "\<lambda>p. map_option sig_owner (map_of (signals s) p)"
  have W: "?W p = Some (sig_owner g)" using g by simp
  from linkedD(1) [OF G(5) W] obtain l where l: "?P (sig_owner g) = Some l" by auto
  have P': "pending_lists Vs (map_of (unlink_signal p (put (sig_owner g) k' (coros s)))) = ?P(sig_owner g \<mapsto> remove1 p l)"
    using lists_unlink(1) [of Vs p "put (sig_owner g) k' (coros s)"] V [unfolded emptied_def]
      linked_remove_all [OF G(5) W l] lists_same(1) [of "map_of (coros s)", OF k k'(2)] by fastforce
  have "named BIO_CORO_HANDLE (lookup_handle ht) ((map_of (coros s))(sig_owner g \<mapsto> k')) coro_handle"
    using named_upd [OF named_closed [OF G(2) m] k k'(1)] by simp
  moreover have "named BIO_SIGNAL_HANDLE (lookup_handle ht) ((map_of (signals s))(p := None)) sig_handle"
    using named_closed_remove [OF G(3) m] .
  moreover have "named BIO_MONITOR_HANDLE (lookup_handle ht) (map_of (monitor_impls s)) mon_handle"
    using named_closed [OF G(4) m] by simp
  moreover have "linked (?P(sig_owner g \<mapsto> remove1 p l)) (?W(p := None))"
    by (rule linked_remove [OF G(5) W l])
  ultimately show ?thesis
    using m G(6,7) by (simp add: graph_ok_def P' map_option_upd closed_def lists_same(2) [of "map_of (coros s)", OF k k'(3)] del: fun_upd_apply)
qed

lemma queue_ok_ready: "queue_ok cur run q st \<Longrightarrow> c \<in> set (cur @ array_list q) \<longleftrightarrow> (\<exists>n. st c = Some (BIO_CORO_READY, n))"
  by (simp add: queue_ok_def)

lemma queue_ok_running: "queue_ok cur run q st \<Longrightarrow> run = Some c \<longleftrightarrow> (\<exists>n. st c = Some (BIO_CORO_RUNNING, n))"
  by (simp add: queue_ok_def)

lemma queue_ok_wake:
  assumes "queue_ok cur run q st" "st c = Some (BIO_CORO_WAITING, n)"
  shows "queue_ok cur run (bio_array_push q c) (st(c \<mapsto> (BIO_CORO_READY, m)))"
  using queue_ok_ready [OF assms(1), of c] queue_ok_running [OF assms(1), of c] assms
  by (auto simp: queue_ok_def)

lemma queue_ok_count:
  assumes "queue_ok cur run q st" "st c = Some (x, n)" "x = BIO_CORO_WAITING \<Longrightarrow> 0 < m"
  shows "queue_ok cur run q (st(c \<mapsto> (x, m)))"
  using assms by (auto simp: queue_ok_def)

text \<open>
  Whether a raise counts for the owner, whether it wakes the owner, and what the
  owner becomes.
\<close>

definition raise_counts :: "bio_signal_impl \<Rightarrow> bio_coro_impl \<Rightarrow> bool" where
  "raise_counts g k \<longleftrightarrow> coro_state k = BIO_CORO_WAITING \<and> sig_wait_counter g = wait_counter k"

definition raise_wakes :: "bio_signal_impl \<Rightarrow> bio_coro_impl \<Rightarrow> bool" where
  "raise_wakes g k \<longleftrightarrow> raise_counts g k \<and> num_blocking_signals k = 1"

definition raised_owner :: "bio_signal_impl \<Rightarrow> bio_coro_impl \<Rightarrow> bio_coro_impl" where
  "raised_owner g k =
    (if raise_wakes g k then k\<lparr>num_blocking_signals := 0, coro_state := BIO_CORO_READY\<rparr>
     else if raise_counts g k then k\<lparr>num_blocking_signals := num_blocking_signals k - 1\<rparr>
     else k)"

definition raised_ctx :: "addr \<Rightarrow> bio_signal_impl \<Rightarrow> bio_coro_impl \<Rightarrow> handle_table \<Rightarrow> 'w bio_ctx \<Rightarrow> 'w bio_ctx" where
  "raised_ctx p g k ht s =
    s\<lparr>handles := ht,
      next_ready_coros := (if raise_wakes g k then bio_array_push (next_ready_coros s) (sig_owner g) else next_ready_coros s),
      coros := unlink_signal p (put (sig_owner g) (raised_owner g k) (coros s)),
      signals := del p (signals s)\<rparr>"

lemma sig_owner_live:
  assumes "graph_ok Vs Vm s" "emptied Vs" "map_of (signals s) p = Some g"
  obtains k where "map_of (coros s) (sig_owner g) = Some k" "p \<in> set (pending_signals k)" "Vs (sig_owner g) = None"
proof -
  obtain l where l: "pending_lists Vs (map_of (coros s)) (sig_owner g) = Some l" "p \<in> set l"
    using linkedD(1) [OF graph_okD(5) [OF assms(1)], of p "sig_owner g"] assms(3) by auto
  have "Vs (sig_owner g) = None"
    using assms(2) l by (cases "Vs (sig_owner g)") (auto simp: pending_lists_def map_add_def dest: emptiedD)
  with l that show ?thesis by (auto simp: pending_lists_def map_add_def)
qed

lemma raise_signal_live:
  assumes "graph_ok Vs Vm s" "lookup_handle (handles s) h = Some (p, BIO_SIGNAL_HANDLE)"
    "map_of (signals s) p = Some g" "map_of (coros s) (sig_owner g) = Some k"
  shows "bio_raise_signal h s =
    rbind (bio_close_handle h BIO_SIGNAL_HANDLE (handles s)) (\<lambda>(_, ht). Inr (raise_wakes g k, raised_ctx p g k ht s))"
proof -
  have p: "p \<noteq> NULL" using named_neq_NULL [OF graph_okD(3) [OF assms(1)] assms(3)] .
  have q: "q = p" if "bio_close_handle h BIO_SIGNAL_HANDLE (handles s) = Inr (q, ht)" for q ht
    using close_safe [OF graph_okD(1) [OF assms(1)] assms(2)] that by auto
  show ?thesis
  proof (cases "bio_close_handle h BIO_SIGNAL_HANDLE (handles s)")
    case (Inl e)
    then show ?thesis by (simp add: bio_raise_signal_def)
  next
    case (Inr x)
    then obtain ht where x: "x = (p, ht)" using q by (cases x) auto
    show ?thesis
      by (simp add: Inr x bio_raise_signal_def p assms(3,4) Let_def)
        (simp add: raised_ctx_def raised_owner_def raise_wakes_def raise_counts_def assms(4))
  qed
qed

lemma raise_signal_dead:
  assumes "handle_inv (handles s)" "issued (handles s) h" "\<nexists>p. lookup_handle (handles s) h = Some (p, BIO_SIGNAL_HANDLE)"
  shows "bio_raise_signal h s = Inr (False, s)"
  using close_none [OF assms] by (simp add: bio_raise_signal_def)

lemma raised_ctx_inv:
  assumes inv: "sched_inv_gen Vs Vm cur run s" and V: "emptied Vs"
    and g: "map_of (signals s) p = Some g" and k: "map_of (coros s) (sig_owner g) = Some k"
    and m: "closed (handles s) h p BIO_SIGNAL_HANDLE ht"
  shows "sched_inv_gen Vs Vm cur run (raised_ctx p g k ht s)"
proof -
  note I = sched_invD [OF inv]
  have st: "states (map_of (coros s)) (sig_owner g) = Some (coro_state k, num_blocking_signals k)"
    using k by (simp add: states_def)
  have nb: "raise_counts g k \<Longrightarrow> 0 < num_blocking_signals k"
    using I(3) st by (auto simp: queue_ok_def raise_counts_def)
  have idem: "(states (map_of (coros s)))(sig_owner g \<mapsto> (coro_state k, num_blocking_signals k)) = states (map_of (coros s))"
    using st by (simp add: fun_upd_idem)
  have "graph_ok Vs Vm (raised_ctx p g k ht s)"
    unfolding raised_ctx_def
    by (rule graph_ok_remove_signal [OF I(2) V g m k]) (auto simp: raised_owner_def)
  moreover have "queue_ok cur run (next_ready_coros (raised_ctx p g k ht s)) (states (map_of (coros (raised_ctx p g k ht s))))"
    using I(3) nb queue_ok_wake [OF I(3), of "sig_owner g"] queue_ok_count [OF I(3) st] st idem
    by (auto simp: raised_ctx_def raised_owner_def raise_wakes_def raise_counts_def views_upd)
  moreover have "daemons (map_of (coros (raised_ctx p g k ht s))) = daemons (map_of (coros s))"
    using views_same(2) [of "map_of (coros s)", OF k, of "raised_owner g k"]
    by (simp add: raised_ctx_def) (simp add: raised_owner_def)
  moreover have "counters (map_of (coros (raised_ctx p g k ht s))) = counters (map_of (coros s))"
    using views_same(3) [of "map_of (coros s)", OF k, of "raised_owner g k"]
    by (simp add: raised_ctx_def) (simp add: raised_owner_def)
  moreover have "waits_ok (counters (map_of (coros s))) (map_of (signals (raised_ctx p g k ht s)))"
    using I(5) by (auto simp: raised_ctx_def waits_ok_def)
  ultimately show ?thesis
    using I by (simp add: sched_inv_gen_def) (simp add: raised_ctx_def)
qed

lemma raise_signal_safe [safe_rules]:
  assumes inv: "sched_inv_gen Vs Vm cur run s" and V: "emptied Vs"
    and h: "issued (handles s) h"
  shows "safe (bio_raise_signal h s) (\<lambda>(woken, s'). sched_inv_gen Vs Vm cur run s' \<and> sched_frame s s'
    \<and> bio_check_signal h s' \<and> monitor_impls s' = monitor_impls s
    \<and> dom (map_of (coros s')) = dom (map_of (coros s)))"
proof (cases "\<exists>p. lookup_handle (handles s) h = Some (p, BIO_SIGNAL_HANDLE)")
  case False
  then show ?thesis
    using inv raise_signal_dead [OF sched_inv_handles [OF inv] h]
      sched_inv_handles [OF inv] h by (auto simp: bio_check_signal_def resolve_lookup split: option.splits)
next
  case True
  then obtain p where p: "lookup_handle (handles s) h = Some (p, BIO_SIGNAL_HANDLE)" by blast
  note G = sched_invD(2) [OF inv]
  from named_object [OF graph_okD(3) [OF G] p] obtain g where g: "map_of (signals s) p = Some g" by auto
  obtain k where k: "map_of (coros s) (sig_owner g) = Some k" using sig_owner_live [OF G V g] by blast
  have post: "sched_inv_gen Vs Vm cur run (raised_ctx p g k ht s) \<and> sched_frame s (raised_ctx p g k ht s)
      \<and> bio_check_signal h (raised_ctx p g k ht s) \<and> monitor_impls (raised_ctx p g k ht s) = monitor_impls s
      \<and> dom (map_of (coros (raised_ctx p g k ht s))) = dom (map_of (coros s))"
    if m: "closed (handles s) h p BIO_SIGNAL_HANDLE ht" for ht
    using raised_ctx_inv [OF inv V g k m] closed_frame [OF m, of sched_tags] m h k
    by (auto simp: raised_ctx_def sched_frame_def bio_check_signal_def resolve_lookup closed_def sched_tags_def
        map_of_unlink dom_def)
  show ?thesis
    unfolding raise_signal_live [OF G p g k]
    using close_safe [OF graph_okD(1) [OF G] p] by (auto elim!: safe_mono dest: post)
qed

end
