(* ===== verification/Monitor.thy ===== *)
theory Monitor
  imports Signal
begin

text \<open>
  Monitors of \<open>src/src/scheduler.c\<close>: a monitor links a coroutine to a signal
  that is raised when the coroutine ends. \<open>bio_monitor\<close> and \<open>bio_unmonitor\<close> keep
  the invariant of the object graph.
\<close>

lemma graph_ok_new_monitor:
  assumes ok: "graph_ok Vs Vm s" and k: "map_of (coros s) c = Some k" "Vm c = None"
    and p: "map_of (monitor_impls s) p = None" "p \<noteq> NULL"
    and m: "made (handles s) h p BIO_MONITOR_HANDLE ht" and x: "mon_handle x = h" "issued (handles s) (mon_signal x)"
  shows "graph_ok Vs Vm (s\<lparr>handles := ht, monitor_impls := put p x (monitor_impls s),
           coros := put c (k\<lparr>monitors := monitors k @ [p]\<rparr>) (coros s)\<rparr>)"
proof -
  note G = graph_okD [OF ok]
  let ?k = "k\<lparr>monitors := monitors k @ [p]\<rparr>"
  obtain W where W: "dom W = dom (map_of (monitor_impls s))" "linked (monitor_lists Vm (map_of (coros s))) W"
    using G(6) by blast
  have "named BIO_CORO_HANDLE (lookup_handle ht) ((map_of (coros s))(c \<mapsto> ?k)) coro_handle"
    using named_upd [OF named_made [OF G(2) m], of c k ?k] k by simp
  moreover have "named BIO_SIGNAL_HANDLE (lookup_handle ht) (map_of (signals s)) sig_handle"
    using named_made [OF G(3) m] by simp
  moreover have "named BIO_MONITOR_HANDLE (lookup_handle ht) ((map_of (monitor_impls s))(p \<mapsto> x)) mon_handle"
    using named_made_new [OF G(4) m p x(1)] .
  moreover have "linked ((monitor_lists Vm (map_of (coros s)))(c \<mapsto> monitors k @ [p])) (W(p \<mapsto> c))"
    using k p W(1) by (intro linked_append W(2)) (auto simp: monitor_lists_def map_add_def)
  then have "linked (monitor_lists Vm ((map_of (coros s))(c \<mapsto> ?k))) (W(p \<mapsto> c))"
    by (simp add: lists_upd k)
  then have "\<exists>W'. dom W' = insert p (dom (map_of (monitor_impls s))) \<and> linked (monitor_lists Vm ((map_of (coros s))(c \<mapsto> ?k))) W'"
    using W(1) by (intro exI [of _ "W(p \<mapsto> c)"]) simp
  moreover have "issued ht (mon_signal y)" if "((map_of (monitor_impls s))(p \<mapsto> x)) q = Some y" for q y
    using that m x(2) G(7) by (auto simp: made_def split: if_splits)
  ultimately show ?thesis
    using m G(5) lists_same(1) [of "map_of (coros s)", OF k(1), of ?k] by (simp add: graph_ok_def made_def)
qed

lemma graph_ok_remove_monitor:
  assumes ok: "graph_ok Vs Vm s" and V: "emptied Vm"
    and m: "closed (handles s) h p BIO_MONITOR_HANDLE ht"
  shows "graph_ok Vs Vm (s\<lparr>handles := ht, coros := unlink_monitor p (coros s), monitor_impls := del p (monitor_impls s)\<rparr>)"
proof -
  note G = graph_okD [OF ok]
  let ?P = "monitor_lists Vm (map_of (coros s))"
  obtain W where W: "dom W = dom (map_of (monitor_impls s))" "linked ?P W"
    using G(6) by blast
  obtain x where "map_of (monitor_impls s) p = Some x"
    using named_object [OF G(4), of h p] m by (auto simp: closed_def)
  then obtain c where c: "W p = Some c" using W(1) by auto
  from linkedD(1) [OF W(2) c] obtain l where l: "?P c = Some l" by auto
  have P': "monitor_lists Vm (map_of (unlink_monitor p (coros s))) = ?P(c \<mapsto> remove1 p l)"
    using lists_unlink(2) [of Vm p "coros s"] V [unfolded emptied_def] linked_remove_all [OF W(2) c l] by fastforce
  have "\<exists>W'. dom W' = dom (map_of (monitor_impls s)) - {p} \<and> linked (?P(c \<mapsto> remove1 p l)) W'"
    using linked_remove [OF W(2) c l] W(1) by (intro exI [of _ "W(p := None)"]) simp
  then show ?thesis
    using m G named_closed [OF G(2) m] named_closed [OF G(3) m] named_closed_remove [OF G(4) m]
    by (simp add: graph_ok_def P' closed_def)
qed

lemma unmonitor_safe [safe_rules]:
  assumes inv: "sched_inv_gen Vs Vm cur run s" and V: "emptied Vm" and h: "issued (handles s) h"
  shows "safe (bio_unmonitor h s) (\<lambda>s'. sched_inv_gen Vs Vm cur run s' \<and> sched_frame s s'
    \<and> states (map_of (coros s')) = states (map_of (coros s)) \<and> signals s' = signals s
    \<and> bio_resolve_handle h BIO_MONITOR_HANDLE (handles s') = NULL)"
proof (cases "\<exists>p. lookup_handle (handles s) h = Some (p, BIO_MONITOR_HANDLE)")
  case False
  then show ?thesis
    using inv close_none [OF sched_inv_handles [OF inv] h] sched_inv_handles [OF inv] h
    by (auto simp: bio_unmonitor_def resolve_lookup split: option.splits)
next
  case True
  then obtain p where p: "lookup_handle (handles s) h = Some (p, BIO_MONITOR_HANDLE)" by blast
  note I = sched_invD [OF inv]
  have np: "p \<noteq> NULL" using named_object [OF graph_okD(4) [OF I(2)] p] named_neq_NULL [OF graph_okD(4) [OF I(2)]] by blast
  have post: "sched_inv_gen Vs Vm cur run s' \<and> sched_frame s s'
      \<and> states (map_of (coros s')) = states (map_of (coros s)) \<and> signals s' = signals s
      \<and> bio_resolve_handle h BIO_MONITOR_HANDLE (handles s') = NULL"
    if m: "closed (handles s) h p BIO_MONITOR_HANDLE ht"
      and s': "s' = s\<lparr>handles := ht, coros := unlink_monitor p (coros s), monitor_impls := del p (monitor_impls s)\<rparr>" for ht s'
    using graph_ok_remove_monitor [OF I(2) V m] I closed_frame [OF m, of sched_tags] m h
    by (simp add: s' sched_inv_gen_def sched_frame_def sched_tags_def resolve_lookup closed_def)
  show ?thesis
    using close_safe [OF graph_okD(1) [OF I(2)] p] np
    by (auto simp: bio_unmonitor_def Let_def elim!: safe_mono dest!: post [OF _ refl])
qed

lemma monitor_safe [safe_rules]:
  assumes inv: "sched_inv_gen Vs Vm cur run s" and V: "emptied Vs" "Vm = Map.empty"
    and h: "issued (handles s) coro" "issued (handles s) signal"
  shows "safe (bio_monitor coro signal s) (\<lambda>(h, s'). sched_inv_gen Vs Vm cur run s' \<and> sched_frame s s' \<and> issued (handles s') h)"
proof -
  note I = sched_invD [OF inv]
  let ?c = "bio_resolve_handle coro BIO_CORO_HANDLE (handles s)" and ?p = "bio_resolve_handle signal BIO_SIGNAL_HANDLE (handles s)"
  show ?thesis
  proof (cases "?c \<noteq> NULL \<and> ?p \<noteq> NULL")
    case False
    then show ?thesis
      using raise_signal_safe [OF inv V(1) h(2)]
      by (auto simp: bio_monitor_def Let_def elim!: safe_mono)
  next
    case True
    obtain g where g: "map_of (signals s) ?p = Some g"
      using resolve_signal [OF I(2) h(2)] True by blast
    obtain k where k: "map_of (coros s) ?c = Some k"
      using resolve_named [OF graph_okD(1) [OF I(2)] h(1) graph_okD(2) [OF I(2)]] True by blast
    show ?thesis
    proof (cases "sig_owner g = ?c")
      case same: True
      then show ?thesis
        using True g raise_signal_safe [OF inv V(1) h(2)]
        by (auto simp: bio_monitor_def Let_def elim!: safe_mono)
    next
      case other: False
      let ?m = "bio_malloc s"
      note fresh = bio_malloc_fresh [OF I(1)]
      have post: "sched_inv_gen Vs Vm cur run s' \<and> sched_frame s s' \<and> issued (handles s') h"
        if m: "made (handles s) h ?m BIO_MONITOR_HANDLE ht"
          and s': "s' = s\<lparr>handles := ht, monitor_impls := put ?m \<lparr>mon_handle = h, mon_signal = signal\<rparr> (monitor_impls s),
             coros := put ?c (k\<lparr>monitors := monitors k @ [?m]\<rparr>) (coros s)\<rparr>" for h ht s'
        using graph_ok_new_monitor [OF I(2) k _ fresh(4,1) m] V(2) h(2) I made_frame [OF m, of sched_tags] m
          views_same [of "map_of (coros s)", OF k]
        by (simp add: s' sched_inv_gen_def sched_frame_def sched_tags_def made_def)
      show ?thesis
        using True g other k make_safe [OF sched_inv_handles [OF inv], of ?m BIO_MONITOR_HANDLE]
        by (auto simp: bio_monitor_def Let_def elim!: safe_mono dest!: post [OF _ refl])
    qed
  qed
qed

end
