(* ===== verification/Waiting.thy ===== *)
theory Waiting
  imports Signal
begin

text \<open>
  Waiting for signals (\<open>bio_wait_for_signals\<close> of \<open>src/src/scheduler.c\<close>): which calls
  suspend the coroutine, and which raises wake it.
\<close>

section \<open>The loop over the signals\<close>

text \<open>The handles a wait of \<open>self\<close> blocks on, and those that count as already raised.\<close>

definition blocks_on :: "addr \<Rightarrow> 'w bio_ctx \<Rightarrow> bio_handle \<Rightarrow> bool" where
  "blocks_on self s h \<longleftrightarrow>
    (case map_of (signals s) (bio_resolve_handle h BIO_SIGNAL_HANDLE (handles s)) of
       None \<Rightarrow> False | Some g \<Rightarrow> sig_owner g = self)"

definition already_raised :: "'w bio_ctx \<Rightarrow> bio_handle \<Rightarrow> bool" where
  "already_raised s h \<longleftrightarrow> bio_check_signal h s \<and> h \<noteq> BIO_INVALID_HANDLE"

lemma graph_ok_signal:
  assumes "graph_ok Vs Vm s" "map_of (signals s) p = Some g" "sig_handle g' = sig_handle g" "sig_owner g' = sig_owner g"
  shows "graph_ok Vs Vm (s\<lparr>signals := put p g' (signals s)\<rparr>)"
proof -
  have "(\<lambda>q. map_option sig_owner (((map_of (signals s))(p \<mapsto> g')) q)) = (\<lambda>q. map_option sig_owner (map_of (signals s) q))"
    using assms by auto
  with assms named_upd [OF graph_okD(3) [OF assms(1)] assms(2,3)] show ?thesis
    by (simp add: graph_ok_def)
qed

text \<open>The signals after the loop: those waited on carry the number of this wait.\<close>

definition mark_signals :: "addr \<Rightarrow> int \<Rightarrow> bio_handle list \<Rightarrow> 'w bio_ctx \<Rightarrow> addr \<rightharpoonup> bio_signal_impl" where
  "mark_signals self wc hs s =
    (\<lambda>p. map_option (\<lambda>g. if sig_owner g = self \<and> sig_handle g \<in> set hs then g\<lparr>sig_wait_counter := wc\<rparr> else g)
           (map_of (signals s) p))"

lemma wait_scan_safe:
  assumes "graph_ok Vs Vm s" "\<forall>h \<in> set hs. issued (handles s) h"
  shows "\<exists>ss. wait_scan self wc hs n raised s =
       Inr (n + int (length (filter (blocks_on self s) hs)), raised \<or> (\<exists>h \<in> set hs. already_raised s h), s\<lparr>signals := ss\<rparr>)
     \<and> map_of ss = mark_signals self wc hs s \<and> graph_ok Vs Vm (s\<lparr>signals := ss\<rparr>)"
  using assms
proof (induction hs arbitrary: n raised s)
  case Nil
  then show ?case by (intro exI [of _ "signals s"]) (simp add: mark_signals_def option.map_ident)
next
  case (Cons h hs)
  let ?p = "bio_resolve_handle h BIO_SIGNAL_HANDLE (handles s)"
  note G = graph_okD [OF Cons.prems(1)]
  show ?case
  proof (cases "?p = NULL")
    case True
    have nb: "\<not> blocks_on self s h" using True named_NULL [OF G(3)] by (simp add: blocks_on_def)
    have no: "sig_handle g \<noteq> h" if "map_of (signals s) p = Some g" for p g
      using named_handle [OF G(3) that] True resolve_named(2) [OF G(1) _ G(3)] lookup_issued [OF G(1)] by metis
    obtain ss where IH: "wait_scan self wc hs n (raised \<or> already_raised s h) s = Inr
        (n + int (length (filter (blocks_on self s) hs)), (raised \<or> already_raised s h) \<or> (\<exists>h \<in> set hs. already_raised s h), s\<lparr>signals := ss\<rparr>)"
      "map_of ss = mark_signals self wc hs s" "graph_ok Vs Vm (s\<lparr>signals := ss\<rparr>)"
      using Cons.IH [of s n "raised \<or> already_raised s h"] Cons.prems by auto
    have "mark_signals self wc (h # hs) s = mark_signals self wc hs s"
      by (auto simp: mark_signals_def fun_eq_iff map_option_case no split: option.splits)
    with IH True nb show ?thesis by (auto simp: already_raised_def bio_check_signal_def Let_def)
  next
    case False
    then obtain g where g: "map_of (signals s) ?p = Some g" "sig_handle g = h"
      using resolve_signal [OF Cons.prems(1)] Cons.prems(2) by force
    have nr: "\<not> already_raised s h" using False by (simp add: already_raised_def bio_check_signal_def)
    let ?s = "if sig_owner g = self then s\<lparr>signals := put ?p (g\<lparr>sig_wait_counter := wc\<rparr>) (signals s)\<rparr> else s"
    have b: "blocks_on self s h \<longleftrightarrow> sig_owner g = self" using g by (simp add: blocks_on_def)
    have ok: "graph_ok Vs Vm ?s" using Cons.prems(1) graph_ok_signal [OF Cons.prems(1) g(1)] by simp
    have same: "blocks_on self ?s = blocks_on self s" "already_raised ?s = already_raised s" "handles ?s = handles s"
      using g by (auto simp: blocks_on_def already_raised_def bio_check_signal_def fun_eq_iff split: option.splits)
    have uniq: "p = ?p" if "map_of (signals s) p = Some g'" "sig_handle g' = h" for p g'
      using named_handle [OF G(3) that(1)] named_handle [OF G(3) g(1)] that(2) g(2) by simp
    have mk: "mark_signals self wc hs ?s = mark_signals self wc (h # hs) s"
    proof
      fix p
      show "mark_signals self wc hs ?s p = mark_signals self wc (h # hs) s p"
      proof (cases "p = ?p")
        case True
        then show ?thesis using g by (simp add: mark_signals_def)
      next
        case False
        then have "sig_handle g' \<noteq> h" if "map_of (signals s) p = Some g'" for g' using uniq that by blast
        then show ?thesis using False by (cases "map_of (signals s) p") (auto simp: mark_signals_def)
      qed
    qed
    obtain ss where IH: "wait_scan self wc hs (n + (if sig_owner g = self then 1 else 0)) raised ?s = Inr
        (n + (if sig_owner g = self then 1 else 0) + int (length (filter (blocks_on self s) hs)),
         raised \<or> (\<exists>h \<in> set hs. already_raised s h), ?s\<lparr>signals := ss\<rparr>)"
      "map_of ss = mark_signals self wc (h # hs) s" "graph_ok Vs Vm (?s\<lparr>signals := ss\<rparr>)"
      using Cons.IH [OF ok, of "n + (if sig_owner g = self then 1 else 0)" raised] Cons.prems(2)
      unfolding same mk by auto
    from IH False g b nr show ?thesis
      by (intro exI [of _ ss]) (auto simp: Let_def split: if_splits)
  qed
qed

text \<open>Whether a wait suspends the coroutine, and how many signals it then waits for.\<close>

definition wait_suspends :: "addr \<Rightarrow> bio_handle list \<Rightarrow> bool \<Rightarrow> 'w bio_ctx \<Rightarrow> bool" where
  "wait_suspends self hs wait_all s \<longleftrightarrow>
    (\<exists>h \<in> set hs. blocks_on self s h) \<and> (wait_all \<or> \<not> (\<exists>h \<in> set hs. already_raised s h))"

definition wait_blockers :: "addr \<Rightarrow> bio_handle list \<Rightarrow> bool \<Rightarrow> 'w bio_ctx \<Rightarrow> int" where
  "wait_blockers self hs wait_all s = (if wait_all then int (length (filter (blocks_on self s) hs)) else 1)"

lemma wait_prepare_result:
  assumes G: "graph_ok Vs Vm s" and hs: "\<forall>h \<in> set hs. issued (handles s) h"
    and k: "map_of (coros s) self = Some k" and w: "wait_counter k + 1 \<le> INT32_MAX \<and> - INT32_MAX - 1 \<le> wait_counter k + 1"
    and k': "k' = k\<lparr>wait_counter := wait_counter k + 1, num_blocking_signals :=
        (if wait_suspends self hs wait_all s then wait_blockers self hs wait_all s else num_blocking_signals k)\<rparr>"
  shows "\<exists>ss cs. wait_prepare self hs wait_all s = Inr (wait_suspends self hs wait_all s, s\<lparr>signals := ss, coros := cs\<rparr>)
    \<and> map_of ss = mark_signals self (wait_counter k + 1) hs s \<and> map_of cs = (map_of (coros s))(self \<mapsto> k')
    \<and> graph_ok Vs Vm (s\<lparr>signals := ss, coros := cs\<rparr>)"
proof -
  let ?k = "k\<lparr>wait_counter := wait_counter k + 1\<rparr>" and ?s = "s\<lparr>coros := put self (k\<lparr>wait_counter := wait_counter k + 1\<rparr>) (coros s)\<rparr>"
  let ?n = "int (length (filter (blocks_on self s) hs))" and ?r = "\<exists>h \<in> set hs. already_raised s h"
  have self: "self \<noteq> NULL" using named_neq_NULL [OF graph_okD(2) [OF G] k] .
  have same: "blocks_on self ?s = blocks_on self s" "already_raised ?s = already_raised s"
      "mark_signals self w hs ?s = mark_signals self w hs s" for w
    by (simp_all add: blocks_on_def already_raised_def bio_check_signal_def fun_eq_iff mark_signals_def)
  have G': "graph_ok Vs Vm ?s" using graph_ok_coro [OF G k, of ?k] by simp
  obtain ss where ss: "wait_scan self (wait_counter k + 1) hs 0 False ?s = Inr (?n, ?r, ?s\<lparr>signals := ss\<rparr>)"
      "map_of ss = mark_signals self (wait_counter k + 1) hs s" "graph_ok Vs Vm (?s\<lparr>signals := ss\<rparr>)"
    using wait_scan_safe [OF G', of hs self "wait_counter k + 1" 0 False] hs unfolding same by auto
  have c: "check32 (wait_counter k + 1) = Inr (wait_counter k + 1)" using w by (simp add: check32_def)
  have n: "(0 < ?n \<and> (wait_all \<or> \<not> ?r)) = wait_suspends self hs wait_all s"
    by (simp add: wait_suspends_def filter_empty_conv)
  let ?cs = "if wait_suspends self hs wait_all s then put self k' (coros ?s) else coros ?s"
  have "wait_prepare self hs wait_all s = Inr (wait_suspends self hs wait_all s, s\<lparr>signals := ss, coros := ?cs\<rparr>)"
    unfolding wait_prepare_def deref_Some [OF k] rbind_simps c ss(1) prod.case n
    by (simp add: self k' wait_blockers_def)
  moreover have "map_of ?cs = (map_of (coros s))(self \<mapsto> k')"
    by (simp add: k')
  moreover have "graph_ok Vs Vm ((?s\<lparr>signals := ss\<rparr>)\<lparr>coros := put self k' (coros (?s\<lparr>signals := ss\<rparr>))\<rparr>)"
    by (rule graph_ok_coro [OF ss(3), of self ?k]) (simp_all add: k')
  then have "graph_ok Vs Vm (s\<lparr>signals := ss, coros := ?cs\<rparr>)"
    using graph_ok_coro [OF ss(3), of self ?k ?k] by simp
  ultimately show ?thesis using ss(2) by blast
qed

lemma mark_signals_Some:
  "mark_signals self wc hs s p = Some g' \<longleftrightarrow> (\<exists>g. map_of (signals s) p = Some g
     \<and> g' = (if sig_owner g = self \<and> sig_handle g \<in> set hs then g\<lparr>sig_wait_counter := wc\<rparr> else g))"
  by (cases "map_of (signals s) p") (simp_all add: mark_signals_def eq_commute [of g'])

lemma waits_ok_mark:
  assumes W: "waits_ok wc (map_of (signals s))" "wc self = Some w"
  shows "waits_ok (wc(self \<mapsto> w + 1)) (mark_signals self (w + 1) hs s)"
  unfolding waits_ok_def
proof (intro allI impI)
  fix p g' v
  assume "mark_signals self (w + 1) hs s p = Some g'" and v: "(wc(self \<mapsto> w + 1)) (sig_owner g') = Some v"
  then obtain g where g: "map_of (signals s) p = Some g"
      "g' = (if sig_owner g = self \<and> sig_handle g \<in> set hs then g\<lparr>sig_wait_counter := w + 1\<rparr> else g)"
    by (auto simp: mark_signals_Some)
  have "wc (sig_owner g) = Some u \<Longrightarrow> sig_wait_counter g \<le> u" for u
    using W(1) g(1) by (auto simp: waits_ok_def)
  with g(2) v W(2) show "sig_wait_counter g' \<le> v"
    by (force split: if_splits)
qed

lemma wait_blockers_pos: "wait_suspends self hs wait_all s \<Longrightarrow> 0 < wait_blockers self hs wait_all s"
  by (auto simp: wait_suspends_def wait_blockers_def filter_empty_conv)

lemma wait_prepare_safe [safe_rules]:
  assumes inv: "sched_inv_gen Vs Vm cur (Some self) s" and hs: "\<forall>h \<in> set hs. issued (handles s) h"
  shows "safe (wait_prepare self hs wait_all s) (\<lambda>(suspend, s'). sched_inv_gen Vs Vm cur (Some self) s' \<and> sched_frame s s'
    \<and> handles s' = handles s \<and> monitor_impls s' = monitor_impls s \<and> suspend = wait_suspends self hs wait_all s)"
proof -
  note I = sched_invD [OF inv]
  obtain n k where st: "states (map_of (coros s)) self = Some (BIO_CORO_RUNNING, n)"
      and k: "map_of (coros s) self = Some k" "coro_state k = BIO_CORO_RUNNING"
    using queue_ok_running [OF I(3), of self] by (auto simp: states_def)
  show ?thesis
  proof (cases "wait_counter k + 1 \<le> INT32_MAX \<and> - INT32_MAX - 1 \<le> wait_counter k + 1")
    case False
    then show ?thesis using k named_neq_NULL [OF graph_okD(2) [OF I(2)] k(1)] by (auto simp: wait_prepare_def check32_def)
  next
    case True
    define k' where "k' = k\<lparr>wait_counter := wait_counter k + 1, num_blocking_signals :=
        (if wait_suspends self hs wait_all s then wait_blockers self hs wait_all s else num_blocking_signals k)\<rparr>"
    obtain ss cs where r: "wait_prepare self hs wait_all s = Inr (wait_suspends self hs wait_all s, s\<lparr>signals := ss, coros := cs\<rparr>)"
      and m: "map_of ss = mark_signals self (wait_counter k + 1) hs s" "map_of cs = (map_of (coros s))(self \<mapsto> k')"
      and G: "graph_ok Vs Vm (s\<lparr>signals := ss, coros := cs\<rparr>)"
      using wait_prepare_result [OF I(2) hs k(1) True k'_def] by blast
    have "queue_ok cur (Some self) (next_ready_coros s) ((states (map_of (coros s)))(self \<mapsto> (BIO_CORO_RUNNING, num_blocking_signals k')))"
      by (rule queue_ok_count [OF I(3) st]) simp
    moreover have "waits_ok ((counters (map_of (coros s)))(self \<mapsto> wait_counter k + 1)) (map_of ss)"
      unfolding m(1) by (rule waits_ok_mark [OF I(5)]) (simp add: counters_def k)
    ultimately have "sched_inv_gen Vs Vm cur (Some self) (s\<lparr>signals := ss, coros := cs\<rparr>)"
      using I(1,4) G views_same(2) [of "map_of (coros s)", OF k(1), of k'] k(2)
      by (simp add: sched_inv_gen_def m(2) views_upd) (simp add: k'_def)
    then show ?thesis by (simp add: r sched_frame_def)
  qed
qed

section \<open>What a suspended coroutine waits for\<close>

text \<open>
  The signals a raise of which counts for \<open>c\<close>, and \<open>c\<close> suspended until \<open>n\<close> of them were raised.
\<close>

definition awaited :: "addr \<Rightarrow> 'w bio_ctx \<Rightarrow> addr set" where
  "awaited c s = {p. \<exists>g. map_of (signals s) p = Some g \<and> sig_owner g = c
     \<and> counters (map_of (coros s)) c = Some (sig_wait_counter g)}"

definition suspended :: "addr \<Rightarrow> int \<Rightarrow> 'w bio_ctx \<Rightarrow> bool" where
  "suspended c n s \<longleftrightarrow> states (map_of (coros s)) c = Some (BIO_CORO_WAITING, n)"

definition runnable :: "addr \<Rightarrow> 'w bio_ctx \<Rightarrow> bool" where
  "runnable c s \<longleftrightarrow> c \<in> set (array_list (next_ready_coros s))
     \<and> (\<exists>n. states (map_of (coros s)) c = Some (BIO_CORO_READY, n))"

lemma finite_awaited [simp]: "finite (awaited c s)"
  by (rule finite_subset [of _ "dom (map_of (signals s))"]) (auto simp: awaited_def finite_dom_map_of)

lemma blocks_on_iff:
  assumes "graph_ok Vs Vm s" "issued (handles s) h"
  shows "blocks_on c s h \<and> bio_resolve_handle h BIO_SIGNAL_HANDLE (handles s) = p \<longleftrightarrow>
    (\<exists>g. map_of (signals s) p = Some g \<and> sig_handle g = h \<and> sig_owner g = c)"
proof
  note N = graph_okD(3) [OF assms(1)]
  assume L: "blocks_on c s h \<and> bio_resolve_handle h BIO_SIGNAL_HANDLE (handles s) = p"
  then obtain g where g: "map_of (signals s) p = Some g" "sig_owner g = c"
    by (auto simp: blocks_on_def split: option.splits)
  with resolve_signal [OF assms] named_neq_NULL [OF N g(1)] L
  show "\<exists>g. map_of (signals s) p = Some g \<and> sig_handle g = h \<and> sig_owner g = c" by auto
next
  note N = graph_okD(3) [OF assms(1)]
  assume "\<exists>g. map_of (signals s) p = Some g \<and> sig_handle g = h \<and> sig_owner g = c"
  then obtain g where g: "map_of (signals s) p = Some g" "sig_handle g = h" "sig_owner g = c" by blast
  with resolve_named(2) [OF graph_okD(1) [OF assms(1)] assms(2) N] named_handle [OF N g(1)]
  show "blocks_on c s h \<and> bio_resolve_handle h BIO_SIGNAL_HANDLE (handles s) = p"
    by (simp add: blocks_on_def)
qed

lemma wait_prepare_Inr:
  assumes inv: "sched_inv_gen Vs Vm cur (Some self) s" and hs: "\<forall>h \<in> set hs. issued (handles s) h"
    and r: "wait_prepare self hs wait_all s = Inr (True, s')"
  obtains k where "map_of (coros s) self = Some k" "wait_suspends self hs wait_all s"
    "map_of (signals s') = mark_signals self (wait_counter k + 1) hs s"
    "map_of (coros s') = (map_of (coros s))(self \<mapsto> k\<lparr>wait_counter := wait_counter k + 1,
       num_blocking_signals := wait_blockers self hs wait_all s\<rparr>)"
proof -
  note I = sched_invD [OF inv]
  obtain k where k: "map_of (coros s) self = Some k"
    using queue_ok_running [OF I(3), of self] by (auto simp: states_def)
  have "wait_counter k + 1 \<le> INT32_MAX \<and> - INT32_MAX - 1 \<le> wait_counter k + 1"
    using r k named_neq_NULL [OF graph_okD(2) [OF I(2)] k]
    by (auto simp: wait_prepare_def rbind_eq_Inr)
  from wait_prepare_result [OF I(2) hs k this refl, of wait_all] r k that show ?thesis by auto
qed

lemma wait_prepare_awaited:
  assumes inv: "sched_inv_gen Vs Vm cur (Some self) s" and hs: "\<forall>h \<in> set hs. issued (handles s) h"
    and r: "wait_prepare self hs wait_all s = Inr (True, s')"
  shows "awaited self s' = (\<lambda>h. bio_resolve_handle h BIO_SIGNAL_HANDLE (handles s)) ` {h \<in> set hs. blocks_on self s h}"
proof -
  note I = sched_invD [OF inv]
  obtain k where k: "map_of (coros s) self = Some k"
    "map_of (signals s') = mark_signals self (wait_counter k + 1) hs s"
    "map_of (coros s') = (map_of (coros s))(self \<mapsto> k\<lparr>wait_counter := wait_counter k + 1,
       num_blocking_signals := wait_blockers self hs wait_all s\<rparr>)"
    using wait_prepare_Inr [OF assms] by blast
  have old: "sig_wait_counter g < wait_counter k + 1" if "map_of (signals s) p = Some g" "sig_owner g = self" for p g
    using I(5) that k(1) by (auto simp: waits_ok_def counters_def)
  have "p \<in> awaited self s' \<longleftrightarrow> (\<exists>g. map_of (signals s) p = Some g \<and> sig_owner g = self \<and> sig_handle g \<in> set hs)" for p
    unfolding awaited_def k(2,3) mark_signals_Some views_upd by (auto split: if_splits dest: old)
  moreover have "(\<exists>h \<in> set hs. blocks_on self s h \<and> bio_resolve_handle h BIO_SIGNAL_HANDLE (handles s) = p) \<longleftrightarrow>
      (\<exists>h \<in> set hs. \<exists>g. map_of (signals s) p = Some g \<and> sig_handle g = h \<and> sig_owner g = self)" for p
    by (rule bex_cong [OF refl], rule blocks_on_iff [OF I(2)]) (use hs in blast)
  ultimately have "p \<in> awaited self s' \<longleftrightarrow> (\<exists>h \<in> set hs. blocks_on self s h \<and> bio_resolve_handle h BIO_SIGNAL_HANDLE (handles s) = p)" for p
    by simp blast
  then show ?thesis by (auto simp: set_eq_iff image_iff)
qed

lemma resolve_inj:
  assumes "graph_ok Vs Vm s" "\<forall>h \<in> H. issued (handles s) h"
  shows "inj_on (\<lambda>h. bio_resolve_handle h BIO_SIGNAL_HANDLE (handles s)) {h \<in> H. blocks_on c s h}"
proof (rule inj_onI)
  fix h h' assume *: "h \<in> {h \<in> H. blocks_on c s h}" "h' \<in> {h \<in> H. blocks_on c s h}"
    "bio_resolve_handle h BIO_SIGNAL_HANDLE (handles s) = bio_resolve_handle h' BIO_SIGNAL_HANDLE (handles s)"
  let ?p = "bio_resolve_handle h BIO_SIGNAL_HANDLE (handles s)"
  have "\<exists>g. map_of (signals s) ?p = Some g \<and> sig_handle g = h \<and> sig_owner g = c"
    "\<exists>g. map_of (signals s) ?p = Some g \<and> sig_handle g = h' \<and> sig_owner g = c"
    using * assms(2) by (simp_all flip: blocks_on_iff [OF assms(1)])
  then show "h = h'" by auto
qed

text \<open>A wait for all of some distinct signals needs as many raises as it has awaited signals.\<close>

lemma wait_all_card:
  assumes inv: "sched_inv_gen Vs Vm cur (Some self) s" and hs: "\<forall>h \<in> set hs. issued (handles s) h"
    and r: "wait_prepare self hs wait_all s = Inr (True, s')" and d: "distinct hs"
  shows "int (card (awaited self s')) = int (length (filter (blocks_on self s) hs))"
  unfolding wait_prepare_awaited [OF inv hs r] card_image [OF resolve_inj [OF sched_invD(2) [OF inv] hs]]
  using d distinct_card [of "filter (blocks_on self s) hs"] by simp

section \<open>Which raises wake a coroutine\<close>

lemma raised_ctx_views:
  assumes k: "map_of (coros s) (sig_owner g) = Some k"
  shows "counters (map_of (coros (raised_ctx p g k ht s))) = counters (map_of (coros s))"
    "states (map_of (coros (raised_ctx p g k ht s))) =
     (states (map_of (coros s)))(sig_owner g \<mapsto> (coro_state (raised_owner g k), num_blocking_signals (raised_owner g k)))"
  using views_same(3) [of "map_of (coros s)", OF k, of "raised_owner g k"]
  by (simp_all add: raised_ctx_def views_upd) (simp add: raised_owner_def)

lemma raised_ctx_awaited:
  assumes "map_of (coros s) (sig_owner g) = Some k"
  shows "awaited c (raised_ctx p g k ht s) = awaited c s - {p}"
proof -
  have "map_of (signals (raised_ctx p g k ht s)) = (map_of (signals s))(p := None)" by (simp add: raised_ctx_def)
  then show ?thesis by (auto simp: awaited_def raised_ctx_views(1) [OF assms])
qed

lemma raised_ctx_suspended:
  assumes g: "map_of (signals s) p = Some g" and k: "map_of (coros s) (sig_owner g) = Some k" and c: "suspended c n s"
  shows "p \<notin> awaited c s \<Longrightarrow> suspended c n (raised_ctx p g k ht s)"
    "p \<in> awaited c s \<Longrightarrow> n \<noteq> 1 \<Longrightarrow> suspended c (n - 1) (raised_ctx p g k ht s)"
    "p \<in> awaited c s \<Longrightarrow> n = 1 \<Longrightarrow> array_inv (next_ready_coros s) \<Longrightarrow> runnable c (raised_ctx p g k ht s)"
proof -
  have st: "c = sig_owner g \<Longrightarrow> coro_state k = BIO_CORO_WAITING \<and> num_blocking_signals k = n"
    using c k by (simp add: suspended_def states_def)
  have aw: "p \<in> awaited c s \<longleftrightarrow> c = sig_owner g \<and> sig_wait_counter g = wait_counter k"
    using g k by (auto simp: awaited_def counters_def)
  note R = raised_ctx_views(2) [OF k] raised_owner_def raise_wakes_def raise_counts_def
  show "suspended c n (raised_ctx p g k ht s)" if "p \<notin> awaited c s"
    using that c st by (auto simp: suspended_def aw R)
  show "suspended c (n - 1) (raised_ctx p g k ht s)" if "p \<in> awaited c s" "n \<noteq> 1"
    using that st by (simp add: suspended_def aw R)
  show "runnable c (raised_ctx p g k ht s)" if "p \<in> awaited c s" "n = 1" "array_inv (next_ready_coros s)"
    using that st by (simp add: runnable_def aw R) (simp add: raised_ctx_def R)
qed

text \<open>Raising several signals one after the other.\<close>

fun raise_signals :: "bio_handle list \<Rightarrow> 'w bio_ctx \<Rightarrow> 'w bio_ctx outcome" where
  "raise_signals [] s = Inr s"
| "raise_signals (h # hs) s = rbind (bio_raise_signal h s) (\<lambda>(_, s). raise_signals hs s)"

definition signals_named :: "bio_handle set \<Rightarrow> 'w bio_ctx \<Rightarrow> addr set" where
  "signals_named H s = {p. \<exists>g. map_of (signals s) p = Some g \<and> sig_handle g \<in> H}"

lemma signals_named_one:
  assumes "graph_ok Vs Vm s"
  shows "signals_named {h} s = {p. lookup_handle (handles s) h = Some (p, BIO_SIGNAL_HANDLE)}"
  using named_handle [OF graph_okD(3) [OF assms]] named_object [OF graph_okD(3) [OF assms]]
  by (auto simp: signals_named_def)

lemma raise_signal_suspended:
  assumes inv: "sched_inv_gen Vs Vm cur run s" and V: "emptied Vs" and h: "issued (handles s) h" and c: "suspended c n s"
  shows "safe (bio_raise_signal h s) (\<lambda>(_, s').
      awaited c s' = awaited c s - signals_named {h} s \<and> signals_named H s' = signals_named H s - signals_named {h} s
    \<and> (if awaited c s \<inter> signals_named {h} s = {} then suspended c n s'
       else if n = 1 then runnable c s' else suspended c (n - 1) s'))"
proof (cases "\<exists>p. lookup_handle (handles s) h = Some (p, BIO_SIGNAL_HANDLE)")
  case False
  then show ?thesis
    using c raise_signal_dead [OF sched_inv_handles [OF inv] h] signals_named_one [OF sched_invD(2) [OF inv]] by simp
next
  case True
  then obtain p where p: "lookup_handle (handles s) h = Some (p, BIO_SIGNAL_HANDLE)" by blast
  note G = sched_invD(2) [OF inv]
  from named_object [OF graph_okD(3) [OF G] p] obtain g where g: "map_of (signals s) p = Some g" by auto
  obtain k where k: "map_of (coros s) (sig_owner g) = Some k" using sig_owner_live [OF G V g] by blast
  have nm: "signals_named {h} s = {p}" using p by (simp add: signals_named_one [OF G])
  have H: "signals_named H (raised_ctx p g k ht s) = signals_named H s - {p}" for ht
    by (auto simp: signals_named_def raised_ctx_def)
  have q: "array_inv (next_ready_coros s)" using sched_invD(3) [OF inv] by (simp add: queue_ok_def)
  show ?thesis
    unfolding raise_signal_live [OF G p g k] nm
    using close_safe [OF graph_okD(1) [OF G] p] raised_ctx_suspended [OF g k c] q
    by (auto simp: raised_ctx_awaited [OF k] H elim!: safe_mono)
qed

lemma raise_signals_safe:
  assumes "sched_inv_gen Vs Vm cur run s" "emptied Vs" "\<forall>h \<in> set hs. issued (handles s) h"
  shows "safe (raise_signals hs s) (sched_inv_gen Vs Vm cur run)"
  using assms
proof (induction hs arbitrary: s)
  case (Cons h hs)
  then show ?case
    by (auto intro!: safe_mono [OF raise_signal_safe [of Vs Vm cur run s h]] intro: sched_frame_issued)
qed simp

text \<open>One raise of a sequence: the facts the rest of the sequence starts from.\<close>

lemma raise_signals_step:
  assumes "sched_inv_gen Vs Vm cur run s" "emptied Vs" "\<forall>h \<in> set (h # hs). issued (handles s) h"
    and Q: "safe (bio_raise_signal h s) (\<lambda>(_, s'). Q s')"
    and step: "\<And>s'. sched_inv_gen Vs Vm cur run s' \<Longrightarrow> \<forall>h \<in> set hs. issued (handles s') h \<Longrightarrow> Q s' \<Longrightarrow>
      safe (raise_signals hs s') R"
  shows "safe (raise_signals (h # hs) s) R"
proof -
  have "safe (bio_raise_signal h s) (\<lambda>(w, s'). (sched_inv_gen Vs Vm cur run s' \<and> sched_frame s s') \<and> Q s')"
    using safe_conj [OF raise_signal_safe [OF assms(1,2), of h] Q] assms(3)
    by (auto elim!: safe_mono)
  then show ?thesis
    unfolding raise_signals.simps
  proof (rule safe_bind)
    fix x assume "case x of (w, s') \<Rightarrow> (sched_inv_gen Vs Vm cur run s' \<and> sched_frame s s') \<and> Q s'"
    then show "safe (case x of (w, s') \<Rightarrow> raise_signals hs s') R"
      using assms(3) by (auto split: prod.splits intro!: step intro: sched_frame_issued)
  qed
qed

lemma raise_signal_runnable:
  assumes inv: "sched_inv_gen Vs Vm cur run s" and V: "emptied Vs" and h: "issued (handles s) h" and c: "runnable c s"
  shows "safe (bio_raise_signal h s) (\<lambda>(_, s'). runnable c s')"
proof (cases "\<exists>p. lookup_handle (handles s) h = Some (p, BIO_SIGNAL_HANDLE)")
  case False
  then show ?thesis using c raise_signal_dead [OF sched_inv_handles [OF inv] h] by simp
next
  case True
  then obtain p where p: "lookup_handle (handles s) h = Some (p, BIO_SIGNAL_HANDLE)" by blast
  note G = sched_invD(2) [OF inv]
  from named_object [OF graph_okD(3) [OF G] p] obtain g where g: "map_of (signals s) p = Some g" by auto
  obtain k where k: "map_of (coros s) (sig_owner g) = Some k" using sig_owner_live [OF G V g] by blast
  have q: "array_inv (next_ready_coros s)" using sched_invD(3) [OF inv] by (simp add: queue_ok_def)
  have "c = sig_owner g \<Longrightarrow> raised_owner g k = k"
    using c k by (auto simp: runnable_def states_def raised_owner_def raise_wakes_def raise_counts_def)
  then have "runnable c (raised_ctx p g k ht s)" for ht
    using c q k unfolding runnable_def raised_ctx_views(2) [OF k]
    by (auto simp: raised_ctx_def states_def)
  then show ?thesis
    unfolding raise_signal_live [OF G p g k]
    using close_safe [OF graph_okD(1) [OF G] p] by (auto elim!: safe_mono)
qed

text \<open>Once runnable, a coroutine stays in the ready queue however many more signals are raised.\<close>

lemma raise_signals_runnable:
  assumes "sched_inv_gen Vs Vm cur run s" "emptied Vs" "\<forall>h \<in> set hs. issued (handles s) h" "runnable c s"
  shows "safe (raise_signals hs s) (runnable c)"
  using assms
proof (induction hs arbitrary: s)
  case (Cons h hs)
  show ?case
    by (rule raise_signals_step [OF Cons.prems(1-3) raise_signal_runnable [OF Cons.prems(1,2) _ Cons.prems(4)]])
      (use Cons in auto)
qed simp

text \<open>
  A coroutine that waits for all of its awaited signals becomes runnable exactly
  when the last one is raised.
\<close>

lemma raise_signals_wakes:
  fixes s :: "'w bio_ctx"
  assumes "sched_inv_gen Vs Vm cur run s" "emptied Vs" "\<forall>h \<in> set hs. issued (handles s) h"
    "suspended c (int (card (awaited c s))) s" "awaited c s \<noteq> {}"
  shows "safe (raise_signals hs s) (\<lambda>s'.
    if awaited c s \<subseteq> signals_named (set hs) s then runnable c s'
    else suspended c (int (card (awaited c s - signals_named (set hs) s))) s')"
  using assms
proof (induction hs arbitrary: s)
  case Nil
  then show ?case by (simp add: signals_named_def)
next
  case (Cons h hs)
  note G = sched_invD(2) [OF Cons.prems(1)]
  let ?A = "awaited c s" and ?D = "signals_named {h} s" and ?N = "signals_named (set hs) s"
  have N: "signals_named (set (h # hs)) s = ?N \<union> ?D" by (auto simp: signals_named_def)
  have issued: "issued (handles s) h" using Cons.prems(3) by simp
  show ?case
  proof (rule raise_signals_step [OF Cons.prems(1-3) raise_signal_suspended [OF Cons.prems(1,2) issued Cons.prems(4), of "set hs"]])
    fix s' :: "'w bio_ctx"
    assume inv: "sched_inv_gen Vs Vm cur run s'" and hs: "\<forall>h \<in> set hs. issued (handles s') h"
      and s': "awaited c s' = ?A - ?D \<and> signals_named (set hs) s' = ?N - ?D \<and>
        (if ?A \<inter> ?D = {} then suspended c (int (card ?A)) s'
         else if int (card ?A) = 1 then runnable c s' else suspended c (int (card ?A) - 1) s')"
    show "safe (raise_signals hs s') (\<lambda>s''. if ?A \<subseteq> signals_named (set (h # hs)) s then runnable c s''
        else suspended c (int (card (?A - signals_named (set (h # hs)) s))) s'')"
    proof (cases "?A \<inter> ?D = {}")
      case True
      then have *: "?A \<subseteq> ?N - ?D \<longleftrightarrow> ?A \<subseteq> ?N \<union> ?D" "?A - (?N - ?D) = ?A - (?N \<union> ?D)" by auto
      have **: "awaited c s' = ?A" "signals_named (set hs) s' = ?N - ?D" "suspended c (int (card ?A)) s'"
        using s' True by auto
      then show ?thesis using Cons.IH [OF inv Cons.prems(2) hs, unfolded **(1,2) *] Cons.prems(5) by (simp only: N not_False_eq_True)
    next
      case False
      then obtain p where p: "?D = {p}" "p \<in> ?A" by (auto simp: signals_named_one [OF G])
      show ?thesis
      proof (cases "?A = {p}")
        case True
        with s' p have "runnable c s'" by simp
        from raise_signals_runnable [OF inv Cons.prems(2) hs this] show ?thesis using True p unfolding N by simp
      next
        case more: False
        have *: "?A - {p} \<subseteq> ?N - {p} \<longleftrightarrow> ?A \<subseteq> ?N \<union> ?D" "(?A - {p}) - (?N - {p}) = ?A - (?N \<union> ?D)" "?A - {p} \<noteq> {}"
          using p more by auto
        have ne: "card ?A \<noteq> 1" using more p(2) by (auto simp: card_1_singleton_iff)
        have "int (card (?A - {p})) = int (card ?A) - 1"
          using p(2) card_gt_0_iff [of ?A] by (subst card_Diff_singleton) (auto simp: of_nat_diff)
        with s' p ne have **: "awaited c s' = ?A - {p}" "signals_named (set hs) s' = ?N - {p}"
            "suspended c (int (card (?A - {p}))) s'" by auto
        then show ?thesis using Cons.IH [OF inv Cons.prems(2) hs, unfolded **(1,2) *(1,2)] *(3) by (simp only: N not_False_eq_True)
      qed
    qed
  qed
qed

text \<open>A coroutine that needs more raises than it has awaited signals never wakes.\<close>

lemma raise_signals_stuck:
  assumes "sched_inv_gen Vs Vm cur run s" "emptied Vs" "\<forall>h \<in> set hs. issued (handles s) h"
    "suspended c n s" "int (card (awaited c s)) < n"
  shows "safe (raise_signals hs s) (\<lambda>s'. \<exists>m. suspended c m s')"
  using assms
proof (induction hs arbitrary: s n)
  case (Cons h hs)
  note G = sched_invD(2) [OF Cons.prems(1)]
  have issued: "issued (handles s) h" using Cons.prems(3) by simp
  let ?A = "awaited c s" and ?D = "signals_named {h} s"
  have less: "?A \<inter> ?D \<noteq> {} \<Longrightarrow> card (?A - ?D) < card ?A"
    by (intro psubset_card_mono) auto
  have le: "card (?A - ?D) \<le> card ?A" by (intro card_mono) auto
  show ?case
    by (rule raise_signals_step [OF Cons.prems(1-3) raise_signal_suspended [OF Cons.prems(1,2) issued Cons.prems(4), of "{}"]],
        rule Cons.IH [where n = "if ?A \<inter> ?D = {} then n else n - 1"])
      (use Cons.prems less le in \<open>auto split: if_splits\<close>)
qed auto

end
