(* ===== verification/TimerHeap.thy ===== *)
theory TimerHeap
  imports Context
begin

text \<open>
  The binary min-heap of \<open>src/src/timer.c\<close> that orders pending timers by due
  time. The heap occupies the first \<open>n\<close> entries of the allocated block; the code
  is inlined in \<open>bio_raise_signal_after\<close> (sift up) and \<open>bio_timer_update\<close> (sift down).
\<close>

section \<open>Model\<close>

type_synonym entries = "bio_timer_entry list"

definition bio_heap_parent :: "nat \<Rightarrow> nat" where
  "bio_heap_parent i = (i - 1) div 2"

definition bio_heap_swap :: "entries \<Rightarrow> nat \<Rightarrow> nat \<Rightarrow> entries outcome" where
  "bio_heap_swap es i j =
    rbind (aget es i) (\<lambda>temp. rbind (aget es j) (\<lambda>y.
    rbind (aset es i y) (\<lambda>es. aset es j temp)))"

lemma bio_heap_parent_less [simp]: "0 < i \<Longrightarrow> bio_heap_parent i < i"
  by (simp add: bio_heap_parent_def)

text \<open>The loop of \<open>bio_raise_signal_after\<close>.\<close>

function sift_up :: "entries \<Rightarrow> nat \<Rightarrow> entries outcome" where
  "sift_up es current =
    (if current > 0 then
       rbind (aget es (bio_heap_parent current)) (\<lambda>p.
       rbind (aget es current) (\<lambda>e.
       if due_time_ms p > due_time_ms e
       then rbind (bio_heap_swap es (bio_heap_parent current) current) (\<lambda>es. sift_up es (bio_heap_parent current))
       else Inr es))
     else Inr es)"
  by pat_completeness auto
termination by (relation "measure snd") auto

text \<open>One round of the inner loop of \<open>bio_timer_update\<close>: the smallest of a node and its children.\<close>

definition heap_smallest :: "entries \<Rightarrow> nat \<Rightarrow> nat \<Rightarrow> nat outcome" where
  "heap_smallest es n i =
    (let left = 2 * i + 1; right = 2 * i + 2 in
     rbind (if left < n
            then rbind (aget es left) (\<lambda>l. rbind (aget es i) (\<lambda>e.
                 Inr (if due_time_ms l < due_time_ms e then left else i)))
            else Inr i) (\<lambda>smallest.
     if right < n
     then rbind (aget es right) (\<lambda>r. rbind (aget es smallest) (\<lambda>e.
          Inr (if due_time_ms r < due_time_ms e then right else smallest)))
     else Inr smallest))"

lemma heap_smallest_range:
  "heap_smallest es n i = Inr m \<Longrightarrow> m = i \<or> i < m \<and> m < n \<and> bio_heap_parent m = i"
  by (auto simp: heap_smallest_def Let_def rbind_eq_Inr bio_heap_parent_def split: if_splits)

function sift_down :: "entries \<Rightarrow> nat \<Rightarrow> nat \<Rightarrow> entries outcome" where
  "sift_down es n i =
    rbind (heap_smallest es n i) (\<lambda>smallest.
    if smallest = i then Inr es
    else rbind (bio_heap_swap es i smallest) (\<lambda>es. sift_down es n smallest))"
  by pat_completeness auto
termination
  by (relation "measure (\<lambda>(_, n, i). n - i)") (auto dest!: heap_smallest_range)

declare sift_up.simps [simp del] sift_down.simps [simp del]

text \<open>
  The growth of the block and the insertion in \<open>bio_raise_signal_after\<close>. Fresh
  memory holds a blank entry; it is never read before it is written.
\<close>

definition blank_entry :: bio_timer_entry where
  "blank_entry = \<lparr>due_time_ms = 0, timer_signal = BIO_INVALID_HANDLE\<rparr>"

definition heap_grow :: "entries \<Rightarrow> nat \<Rightarrow> nat \<Rightarrow> (entries \<times> nat) outcome" where
  "heap_grow es cap n =
    (if n = cap then
       rbind (check32 (int cap * 2)) (\<lambda>_.
       Inr (es @ replicate (cap * 2 - length es) blank_entry, cap * 2))
     else Inr (es, cap))"

definition heap_insert :: "bio_timer_entry \<Rightarrow> entries \<Rightarrow> nat \<Rightarrow> (entries \<times> nat) outcome" where
  "heap_insert e es n =
    rbind (aset es n e) (\<lambda>es. rbind (sift_up es n) (\<lambda>es. Inr (es, n + 1)))"

text \<open>Deleting the first entry in \<open>bio_timer_update\<close>.\<close>

definition heap_delete_min :: "entries \<Rightarrow> nat \<Rightarrow> (entries \<times> nat) outcome" where
  "heap_delete_min es n =
    (let num_entries = n - 1 in
     rbind (aget es num_entries) (\<lambda>l. rbind (aset es 0 l) (\<lambda>es.
     rbind (sift_down es num_entries 0) (\<lambda>es. Inr (es, num_entries)))))"

section \<open>Correctness\<close>

abbreviation due :: "entries \<Rightarrow> nat \<Rightarrow> int" where
  "due es i \<equiv> due_time_ms (es ! i)"

definition heap_ok :: "entries \<Rightarrow> nat \<Rightarrow> bool" where
  "heap_ok es n \<longleftrightarrow> n \<le> length es \<and> (\<forall>i. 0 < i \<longrightarrow> i < n \<longrightarrow> due es (bio_heap_parent i) \<le> due es i)"

definition heap_mset :: "entries \<Rightarrow> nat \<Rightarrow> bio_timer_entry multiset" where
  "heap_mset es n = mset (take n es)"

definition swap :: "entries \<Rightarrow> nat \<Rightarrow> nat \<Rightarrow> entries" where
  "swap es i j = es[i := es ! j, j := es ! i]"

lemma bio_heap_swap_in: "i < length es \<Longrightarrow> j < length es \<Longrightarrow> bio_heap_swap es i j = Inr (swap es i j)"
  by (simp add: bio_heap_swap_def swap_def)

lemma length_swap [simp]: "length (swap es i j) = length es"
  by (simp add: swap_def)

lemma nth_swap:
  "i < length es \<Longrightarrow> j < length es \<Longrightarrow>
   swap es i j ! k = (if k = i then es ! j else if k = j then es ! i else es ! k)"
  by (auto simp: swap_def nth_list_update_if)

lemma heap_mset_swap [simp]:
  "i < n \<Longrightarrow> j < n \<Longrightarrow> n \<le> length es \<Longrightarrow> heap_mset (swap es i j) n = heap_mset es n"
  using mset_swap [of j "take n es" i] by (simp add: heap_mset_def swap_def take_update_swap)

text \<open>The heap order holds everywhere but between entry \<open>k\<close> and its parent.\<close>

definition heap_up :: "entries \<Rightarrow> nat \<Rightarrow> nat \<Rightarrow> bool" where
  "heap_up es n k \<longleftrightarrow> n \<le> length es \<and> k < n
   \<and> (\<forall>i. 0 < i \<longrightarrow> i < n \<longrightarrow> i \<noteq> k \<longrightarrow> due es (bio_heap_parent i) \<le> due es i)
   \<and> (0 < k \<longrightarrow> (\<forall>i. 0 < i \<longrightarrow> i < n \<longrightarrow> bio_heap_parent i = k \<longrightarrow> due es (bio_heap_parent k) \<le> due es i))"

text \<open>The heap order holds everywhere but between entry \<open>k\<close> and its children.\<close>

definition heap_down :: "entries \<Rightarrow> nat \<Rightarrow> nat \<Rightarrow> bool" where
  "heap_down es n k \<longleftrightarrow> n \<le> length es
   \<and> (\<forall>i. 0 < i \<longrightarrow> i < n \<longrightarrow> bio_heap_parent i \<noteq> k \<longrightarrow> due es (bio_heap_parent i) \<le> due es i)
   \<and> (0 < k \<longrightarrow> (\<forall>i. 0 < i \<longrightarrow> i < n \<longrightarrow> bio_heap_parent i = k \<longrightarrow> due es (bio_heap_parent k) \<le> due es i))"

lemma heap_up_step:
  assumes h: "heap_up es n k" and k: "0 < k" and less: "due es k < due es (bio_heap_parent k)"
  shows "heap_up (swap es (bio_heap_parent k) k) n (bio_heap_parent k)"
proof -
  let ?p = "bio_heap_parent k" and ?es = "swap es (bio_heap_parent k) k"
  have b: "?p < length es" "k < length es" "?p < k" "n \<le> length es" "?p < n"
    using h k bio_heap_parent_less [OF k] by (simp_all add: heap_up_def del: bio_heap_parent_less)
  have E: "due ?es i = (if i = ?p then due es k else if i = k then due es ?p else due es i)" for i
    using nth_swap [OF b(1,2), of i] by auto
  have up: "due es (bio_heap_parent i) \<le> due es i" if "0 < i" "i < n" "i \<noteq> k" for i
    using h that by (auto simp: heap_up_def)
  have below: "due es ?p \<le> due es i" if "0 < i" "i < n" "bio_heap_parent i = k" for i
    using h that k by (auto simp: heap_up_def)
  have 1: "due ?es (bio_heap_parent i) \<le> due ?es i" if i: "0 < i" "i < n" "i \<noteq> ?p" for i
    using up [OF i(1,2)] below [OF i(1,2)] i less b(3) bio_heap_parent_less [OF i(1)] unfolding E
    by (cases "i = k"; cases "bio_heap_parent i = k"; cases "bio_heap_parent i = ?p") auto
  have 2: "due ?es (bio_heap_parent ?p) \<le> due ?es i" if i: "0 < ?p" "0 < i" "i < n" "bio_heap_parent i = ?p" for i
    using up [OF i(2,3)] up [OF i(1) b(5)] i b(3) bio_heap_parent_less [OF i(1)] unfolding E
    by (cases "i = k") auto
  show ?thesis using 1 2 b by (simp add: heap_up_def)
qed

lemma sift_up_ok:
  "heap_up es n k \<Longrightarrow> \<exists>es'. sift_up es k = Inr es' \<and> heap_ok es' n \<and> length es' = length es \<and> heap_mset es' n = heap_mset es n"
proof (induction es k rule: sift_up.induct)
  case (1 es k)
  have b: "k < length es" "n \<le> length es" "k < n" "bio_heap_parent k < length es" "bio_heap_parent k < n"
    using 1(2) bio_heap_parent_less [of k] by (cases "k = 0"; auto simp: heap_up_def bio_heap_parent_def)+
  show ?case
  proof (cases "0 < k \<and> due es k < due es (bio_heap_parent k)")
    case True
    from 1(1) [of _ _ "swap es (bio_heap_parent k) k"] heap_up_step [OF 1(2)] True b
    obtain es' where "sift_up (swap es (bio_heap_parent k) k) (bio_heap_parent k) = Inr es'" "heap_ok es' n"
      "length es' = length es" "heap_mset es' n = heap_mset es n"
      by (auto simp: bio_heap_swap_in)
    then show ?thesis using True b by (simp add: sift_up.simps [of es k] bio_heap_swap_in)
  next
    case False
    then have "heap_ok es n" using 1(2) by (auto simp: heap_up_def heap_ok_def not_less)
    then show ?thesis using False b by (auto simp: sift_up.simps [of es k])
  qed
qed

text \<open>The smallest of a node and its children is not larger than any of them.\<close>

lemma heap_smallest_ok:
  assumes "n \<le> length es" "i < n"
  obtains m where "heap_smallest es n i = Inr m" "due es m \<le> due es i"
    "\<And>j. 0 < j \<Longrightarrow> j < n \<Longrightarrow> bio_heap_parent j = i \<Longrightarrow> due es m \<le> due es j"
    "m \<noteq> i \<Longrightarrow> due es m < due es i"
proof -
  have ch: "j = 2 * i + 1 \<or> j = 2 * i + 2" if "0 < j" "bio_heap_parent j = i" for j
    using that by (auto simp: bio_heap_parent_def)
  let ?l = "if 2 * i + 1 < n \<and> due es (2 * i + 1) < due es i then 2 * i + 1 else i"
  let ?m = "if 2 * i + 2 < n \<and> due es (2 * i + 2) < due es ?l then 2 * i + 2 else ?l"
  have r: "heap_smallest es n i = Inr ?m" using assms by (auto simp: heap_smallest_def Let_def)
  have le: "due es ?m \<le> due es i" by auto
  have less: "?m \<noteq> i \<Longrightarrow> due es ?m < due es i" by (auto split: if_splits)
  have "due es ?m \<le> due es j" if "0 < j" "j < n" "bio_heap_parent j = i" for j
    using ch [OF that(1,3)] that(2) by auto
  from that [OF r le this less] show thesis by blast
qed

lemma heap_down_step:
  assumes h: "heap_down es n k" and m: "k < m" "m < n" "bio_heap_parent m = k" "due es m < due es k"
    "\<And>j. 0 < j \<Longrightarrow> j < n \<Longrightarrow> bio_heap_parent j = k \<Longrightarrow> due es m \<le> due es j"
  shows "heap_down (swap es k m) n m"
proof -
  let ?es = "swap es k m"
  have b: "k < length es" "m < length es" "n \<le> length es" using h m by (auto simp: heap_down_def)
  have E: "due ?es i = (if i = k then due es m else if i = m then due es k else due es i)" for i
    using nth_swap [OF b(1,2), of i] by auto
  have down: "due es (bio_heap_parent i) \<le> due es i" if "0 < i" "i < n" "bio_heap_parent i \<noteq> k" for i
    using h that by (auto simp: heap_down_def)
  have above: "due es (bio_heap_parent k) \<le> due es i" if "0 < k" "0 < i" "i < n" "bio_heap_parent i = k" for i
    using h that by (auto simp: heap_down_def)
  have 1: "due ?es (bio_heap_parent i) \<le> due ?es i" if i: "0 < i" "i < n" "bio_heap_parent i \<noteq> m" for i
    using down [OF i(1,2)] m(5) [OF i(1,2)] above [of m] i m bio_heap_parent_less [OF i(1)] unfolding E
    by (cases "i = k"; cases "i = m"; cases "bio_heap_parent i = k") auto
  have 2: "due ?es (bio_heap_parent m) \<le> due ?es i" if i: "0 < i" "i < n" "bio_heap_parent i = m" for i
    using down [OF i(1,2)] i m bio_heap_parent_less [OF i(1)] unfolding E by auto
  show ?thesis using 1 2 b by (simp add: heap_down_def)
qed

lemma sift_down_ok:
  "heap_down es n k \<Longrightarrow> k < n \<or> n = 0 \<Longrightarrow>
   \<exists>es'. sift_down es n k = Inr es' \<and> heap_ok es' n \<and> length es' = length es \<and> heap_mset es' n = heap_mset es n"
proof (induction es n k rule: sift_down.induct)
  case (1 es n k)
  have b: "n \<le> length es" using 1(2) by (simp add: heap_down_def)
  show ?case
  proof (cases "n = 0")
    case True
    then show ?thesis by (simp add: sift_down.simps [of es] heap_smallest_def heap_ok_def)
  next
    case False
    with 1(3) have k: "k < n" by simp
    obtain m where m: "heap_smallest es n k = Inr m" "due es m \<le> due es k"
      "\<And>j. 0 < j \<Longrightarrow> j < n \<Longrightarrow> bio_heap_parent j = k \<Longrightarrow> due es m \<le> due es j"
      "m \<noteq> k \<Longrightarrow> due es m < due es k"
      using heap_smallest_ok [OF b k] by blast
    show ?thesis
    proof (cases "m = k")
      case True
      have "due es (bio_heap_parent i) \<le> due es i" if "0 < i" "i < n" for i
        using 1(2) m(3) [OF that] True that by (cases "bio_heap_parent i = k") (auto simp: heap_down_def)
      then have "heap_ok es n" using b by (simp add: heap_ok_def)
      then show ?thesis using m(1) True by (simp add: sift_down.simps [of es])
    next
      case False
      with heap_smallest_range [OF m(1)] have r: "k < m" "m < n" "bio_heap_parent m = k" by auto
      have sw: "bio_heap_swap es k m = Inr (swap es k m)" using r b k by (intro bio_heap_swap_in) auto
      have "heap_down (swap es k m) n m" using heap_down_step [OF 1(2) r m(4) [OF False] m(3)] by blast
      moreover have "m < n \<or> n = 0" using r(2) by simp
      ultimately have "\<exists>es'. sift_down (swap es k m) n m = Inr es' \<and> heap_ok es' n \<and> length es' = length (swap es k m)
          \<and> heap_mset es' n = heap_mset (swap es k m) n"
        by (rule 1(1) [OF m(1) False sw])
      then show ?thesis unfolding sift_down.simps [of es] m(1) using False sw r b k by auto
    qed
  qed
qed

lemma heap_min:
  assumes "heap_ok es n" "i < n"
  shows "due es 0 \<le> due es i"
  using assms(2)
proof (induction i rule: less_induct)
  case (less i)
  show ?case
  proof (cases "i = 0")
    case False
    then have "due es 0 \<le> due es (bio_heap_parent i)"
      using less.prems bio_heap_parent_less [of i] by (intro less.IH) linarith+
    moreover have "due es (bio_heap_parent i) \<le> due es i"
      using assms(1) False less.prems by (simp add: heap_ok_def)
    ultimately show ?thesis by linarith
  qed simp
qed

text \<open>The heap with its block: entries, capacity and number of timers.\<close>

type_synonym timer_queue = "entries \<times> nat \<times> nat"

definition tq_invar :: "timer_queue \<Rightarrow> bool" where
  "tq_invar q = (case q of (es, cap, n) \<Rightarrow> heap_ok es n \<and> length es = cap \<and> 0 < cap)"

definition tq_entries :: "timer_queue \<Rightarrow> bio_timer_entry multiset" where
  "tq_entries q = (case q of (es, cap, n) \<Rightarrow> heap_mset es n)"

definition tq_insert :: "bio_timer_entry \<Rightarrow> timer_queue \<Rightarrow> timer_queue outcome" where
  "tq_insert e q = (case q of (es, cap, n) \<Rightarrow>
     rbind (heap_grow es cap n) (\<lambda>(es, cap). rbind (heap_insert e es n) (\<lambda>(es, n). Inr (es, cap, n))))"

definition tq_first :: "timer_queue \<Rightarrow> bio_timer_entry" where
  "tq_first q = (case q of (es, cap, n) \<Rightarrow> es ! 0)"

definition tq_delete :: "timer_queue \<Rightarrow> timer_queue outcome" where
  "tq_delete q = (case q of (es, cap, n) \<Rightarrow> rbind (heap_delete_min es n) (\<lambda>(es, n). Inr (es, cap, n)))"

lemma heap_insert_ok:
  assumes "heap_ok es n" "n < length es"
  shows "\<exists>es'. heap_insert e es n = Inr (es', n + 1) \<and> heap_ok es' (n + 1) \<and> length es' = length es
    \<and> heap_mset es' (n + 1) = add_mset e (heap_mset es n)"
proof -
  have no: "bio_heap_parent i \<noteq> n" if "0 < i" "i < n + 1" for i
    using that bio_heap_parent_less [of i] by linarith
  have "heap_up (es[n := e]) (n + 1) n"
    using assms no by (auto simp: heap_up_def heap_ok_def nth_list_update_if less_Suc_eq)
  from sift_up_ok [OF this] assms show ?thesis
    by (auto simp: heap_insert_def heap_mset_def take_Suc_update)
qed

lemma heap_grow_ok:
  assumes "heap_ok es n" "length es = cap" "0 < cap"
  shows "safe (heap_grow es cap n) (\<lambda>(es', cap'). heap_ok es' n \<and> length es' = cap' \<and> n < cap'
    \<and> heap_mset es' n = heap_mset es n)"
proof -
  have "bio_heap_parent i < length es" if "0 < i" "i < length es" for i
    using that bio_heap_parent_less [of i] by linarith
  then show ?thesis
    using assms by (auto simp: heap_grow_def heap_ok_def heap_mset_def nth_append)
qed

lemma heap_delete_ok:
  assumes "heap_ok es n" "0 < n"
  shows "\<exists>es'. heap_delete_min es n = Inr (es', n - 1) \<and> heap_ok es' (n - 1) \<and> length es' = length es
    \<and> heap_mset es' (n - 1) = heap_mset es n - {#es ! 0#}"
proof -
  let ?es = "es[0 := es ! (n - 1)]"
  have b: "n \<le> length es" "n - 1 < length es" "0 < length es" using assms by (auto simp: heap_ok_def)
  have "heap_down ?es (n - 1) 0"
    using assms b by (auto simp: heap_down_def heap_ok_def nth_list_update_if)
  moreover have "0 < n - 1 \<or> n - 1 = 0" by auto
  ultimately obtain es' where es': "sift_down ?es (n - 1) 0 = Inr es'" "heap_ok es' (n - 1)"
    "length es' = length es" "heap_mset es' (n - 1) = heap_mset ?es (n - 1)"
    using sift_down_ok [of ?es "n - 1" 0] by auto
  have "heap_mset ?es (n - 1) = heap_mset es n - {#es ! 0#}"
  proof -
    obtain m where n: "n = Suc m" using assms(2) by (cases n) auto
    obtain x xs where es: "es = x # xs" using b by (cases es) auto
    have "take m xs = take (m - 1) xs @ [xs ! (m - 1)]" if "m \<noteq> 0"
      using that b take_Suc_conv_app_nth [of "m - 1" xs] by (auto simp: n es)
    then show ?thesis
      by (cases m) (auto simp: heap_mset_def n es)
  qed
  with es' b show ?thesis by (simp add: heap_delete_min_def)
qed

section \<open>The contract: a queue ordered by time\<close>

text \<open>
  What the timer code relies on. The client drains the entries that are due; it
  gets exactly those, in the order of their time.
\<close>

locale timed_queue =
  fixes invar :: "'q \<Rightarrow> bool" and entries_of :: "'q \<Rightarrow> 'e multiset" and time :: "'e \<Rightarrow> int"
    and insert :: "'e \<Rightarrow> 'q \<Rightarrow> 'q outcome" and first :: "'q \<Rightarrow> 'e" and delete :: "'q \<Rightarrow> 'q outcome"
  assumes insert_law: "invar q \<Longrightarrow> safe (insert e q) (\<lambda>q'. invar q' \<and> entries_of q' = add_mset e (entries_of q))"
    and first_law: "invar q \<Longrightarrow> entries_of q \<noteq> {#} \<Longrightarrow> first q \<in># entries_of q \<and> (\<forall>e \<in># entries_of q. time (first q) \<le> time e)"
    and delete_law: "invar q \<Longrightarrow> entries_of q \<noteq> {#} \<Longrightarrow>
      \<exists>q'. delete q = Inr q' \<and> invar q' \<and> entries_of q' = entries_of q - {#first q#}"
begin

inductive drains :: "int \<Rightarrow> 'q \<Rightarrow> 'e list \<Rightarrow> 'q \<Rightarrow> bool" where
  drains_stop: "entries_of q = {#} \<or> t < time (first q) \<Longrightarrow> drains t q [] q"
| drains_next: "entries_of q \<noteq> {#} \<Longrightarrow> time (first q) \<le> t \<Longrightarrow> delete q = Inr q1 \<Longrightarrow> drains t q1 es q' \<Longrightarrow>
    drains t q (first q # es) q'"

lemma drains_due:
  assumes "drains t q es q'" "invar q"
  shows "invar q'" "mset es = filter_mset (\<lambda>e. time e \<le> t) (entries_of q)"
    "entries_of q' = filter_mset (\<lambda>e. t < time e) (entries_of q)"
proof -
  have "invar q' \<and> mset es = filter_mset (\<lambda>e. time e \<le> t) (entries_of q)
      \<and> entries_of q' = filter_mset (\<lambda>e. t < time e) (entries_of q)"
    using assms
  proof induction
    case (drains_stop q t)
    then have "\<forall>e \<in># entries_of q. t < time e" using first_law [of q] by force
    then have "filter_mset (\<lambda>e. time e \<le> t) (entries_of q) = {#}" "filter_mset (\<lambda>e. t < time e) (entries_of q) = entries_of q"
      by (simp_all add: filter_mset_eq_conv not_le)
    with drains_stop show ?case by simp
  next
    case (drains_next q t q1 es q')
    from delete_law [OF drains_next.prems drains_next.hyps(1)] drains_next.hyps(3)
    have q1: "invar q1" "entries_of q1 = entries_of q - {#first q#}" by auto
    have "entries_of q = add_mset (first q) (entries_of q1)"
      using first_law [OF drains_next.prems drains_next.hyps(1)] q1(2) by simp
    with drains_next.IH [OF q1(1)] drains_next.hyps(2) show ?case by simp
  qed
  then show "invar q'" "mset es = filter_mset (\<lambda>e. time e \<le> t) (entries_of q)"
    "entries_of q' = filter_mset (\<lambda>e. t < time e) (entries_of q)" by auto
qed

lemma drains_sorted:
  assumes "drains t q es q'" "invar q"
  shows "sorted (map time es)"
  using assms
proof induction
  case (drains_next q t q1 es q')
  note first = first_law [OF drains_next.prems drains_next.hyps(1)]
  from delete_law [OF drains_next.prems drains_next.hyps(1)] drains_next.hyps(3)
  have q1: "invar q1" "entries_of q1 = entries_of q - {#first q#}" by auto
  have "set_mset (mset es) \<subseteq> set_mset (entries_of q1)"
    unfolding drains_due(2) [OF drains_next.hyps(4) q1(1)] by auto
  then have "\<forall>e \<in> set es. time (first q) \<le> time e" using first q1(2) by (auto dest!: in_diffD)
  with drains_next.IH [OF q1(1)] show ?case by simp
qed simp

lemma drains_total: "invar q \<Longrightarrow> \<exists>es q'. drains t q es q'"
proof (induction "size (entries_of q)" arbitrary: q rule: less_induct)
  case less
  show ?case
  proof (cases "entries_of q = {#} \<or> t < time (first q)")
    case True
    then show ?thesis by (blast intro: drains_stop)
  next
    case False
    with delete_law [OF less.prems] first_law [OF less.prems] obtain q1
      where "delete q = Inr q1" "invar q1" "size (entries_of q1) < size (entries_of q)"
      by (metis size_Diff1_less)
    with less.hyps [of q1] False show ?thesis by (metis drains_next linorder_not_le)
  qed
qed

end

interpretation tq: timed_queue tq_invar tq_entries due_time_ms tq_insert tq_first tq_delete
proof
  fix q e
  assume "tq_invar q"
  then obtain es cap n where q: "q = (es, cap, n)" "heap_ok es n" "length es = cap" "0 < cap"
    by (auto simp: tq_invar_def)
  show "safe (tq_insert e q) (\<lambda>q'. tq_invar q' \<and> tq_entries q' = add_mset e (tq_entries q))"
    unfolding q(1) tq_insert_def prod.case
  proof (rule safe_bind [OF heap_grow_ok [OF q(2-4)]], clarify)
    fix es' cap'
    assume g: "heap_ok es' n" "n < length es'" "heap_mset es' n = heap_mset es n"
    show "safe (rbind (heap_insert e es' n) (\<lambda>(es, n). Inr (es, length es', n)))
        (\<lambda>q'. tq_invar q' \<and> tq_entries q' = add_mset e (tq_entries (es, cap, n)))"
      using heap_insert_ok [OF g(1,2), of e] g by (auto simp: tq_invar_def tq_entries_def)
  qed
next
  fix q
  assume "tq_invar q" "tq_entries q \<noteq> {#}"
  then obtain es cap n where q: "q = (es, cap, n)" "heap_ok es n" "length es = cap" "0 < n" "0 < cap"
    by (auto simp: tq_invar_def tq_entries_def heap_mset_def)
  have n: "n \<le> length es" using q(2) by (simp add: heap_ok_def)
  show "tq_first q \<in># tq_entries q \<and> (\<forall>e \<in># tq_entries q. due_time_ms (tq_first q) \<le> due_time_ms e)"
    using heap_min [OF q(2)] q(1,4) n
    by (auto simp: tq_first_def tq_entries_def heap_mset_def in_set_conv_nth intro!: exI [of _ 0])
  show "\<exists>q'. tq_delete q = Inr q' \<and> tq_invar q' \<and> tq_entries q' = tq_entries q - {#tq_first q#}"
    using heap_delete_ok [OF q(2,4)] q by (auto simp: tq_delete_def tq_first_def tq_invar_def tq_entries_def)
qed

end
