(* ===== verification/TimerQueue.thy ===== *)
theory TimerQueue
  imports Waiting TimerHeap
begin

text \<open>
  Delayed signals of \<open>src/src/timer.c\<close>: \<open>bio_raise_signal_after\<close> puts a signal into
  the heap of theory \<open>TimerHeap\<close>, \<open>bio_timer_update\<close> raises the ones that are due.
\<close>

section \<open>Model\<close>

text \<open>
  \<open>clock\<close> is \<open>bio_platform_current_time_ms\<close>, the operating system's monotonic
  clock: a parameter that reads the time from the state of the world.
\<close>

definition bio_timer_init :: "('w \<Rightarrow> int \<times> 'w) \<Rightarrow> 'w bio_ctx \<Rightarrow> 'w bio_ctx" where
  "bio_timer_init clock s =
    (let (now, w) = clock (world s)
     in s\<lparr>timer_entries := replicate 4 blank_entry, num_timers := 0, timer_capacity := 4,
          current_time_ms := now, world := w\<rparr>)"

definition bio_raise_signal_after :: "bio_handle \<Rightarrow> int \<Rightarrow> 'w bio_ctx \<Rightarrow> 'w bio_ctx outcome" where
  "bio_raise_signal_after signal time_ms s =
    (if time_ms > 0 then
       rbind (heap_grow (timer_entries s) (timer_capacity s) (num_timers s)) (\<lambda>(es, cap).
       rbind (check64 (current_time_ms s + time_ms)) (\<lambda>due.
       rbind (heap_insert \<lparr>due_time_ms = due, timer_signal = signal\<rparr> es (num_timers s)) (\<lambda>(es, n).
       Inr (s\<lparr>timer_entries := es, timer_capacity := cap, num_timers := n\<rparr>))))
     else rbind (bio_raise_signal signal s) (\<lambda>(_, s). Inr s))"

lemma raise_signal_timers:
  "bio_raise_signal h s = Inr (w, s') \<Longrightarrow>
   timer_entries s' = timer_entries s \<and> timer_capacity s' = timer_capacity s \<and> num_timers s' = num_timers s"
  by (cases "bio_close_handle h BIO_SIGNAL_HANDLE (handles s)";
      simp add: bio_raise_signal_def Let_def deref_def split: if_splits prod.splits option.splits; auto)

lemma heap_delete_num: "heap_delete_min es n = Inr (es', n') \<Longrightarrow> n' = n - 1"
  by (auto simp: heap_delete_min_def Let_def rbind_eq_Inr)

text \<open>The loop of \<open>bio_timer_update\<close>.\<close>

function timer_expire :: "int \<Rightarrow> 'w bio_ctx \<Rightarrow> 'w bio_ctx outcome" where
  "timer_expire current_time s =
    (if num_timers s > 0 then
       rbind (aget (timer_entries s) 0) (\<lambda>entry.
       if due_time_ms entry \<le> current_time then
         rbind (bio_raise_signal (timer_signal entry) s) (\<lambda>x.
         rbind (heap_delete_min (timer_entries (snd x)) (num_timers (snd x))) (\<lambda>y.
         timer_expire current_time ((snd x)\<lparr>timer_entries := fst y, num_timers := snd y\<rparr>)))
       else Inr s)
     else Inr s)"
  by pat_completeness auto
termination
  by (relation "measure (\<lambda>(_, s). num_timers s)") (auto dest!: raise_signal_timers heap_delete_num)

declare timer_expire.simps [simp del]

definition bio_timer_update :: "('w \<Rightarrow> int \<times> 'w) \<Rightarrow> 'w bio_ctx \<Rightarrow> 'w bio_ctx outcome" where
  "bio_timer_update clock s =
    (let (now, w) = clock (world s)
     in timer_expire now (s\<lparr>world := w, current_time_ms := now\<rparr>))"

definition bio_time_until_next_timer :: "('w \<Rightarrow> int \<times> 'w) \<Rightarrow> 'w bio_ctx \<Rightarrow> (int \<times> 'w bio_ctx) outcome" where
  "bio_time_until_next_timer clock s =
    (if num_timers s > 0 then
       (let (now, w) = clock (world s); s = s\<lparr>world := w\<rparr> in
        rbind (aget (timer_entries s) 0) (\<lambda>entry.
        if due_time_ms entry < now then Inr (0, s)
        else rbind (check64 (due_time_ms entry - now)) (\<lambda>d. Inr (d, s))))
     else Inr (-1, s))"

section \<open>Invariant\<close>

definition timers_of :: "'w bio_ctx \<Rightarrow> timer_queue" where
  "timers_of s = (timer_entries s, timer_capacity s, num_timers s)"

definition timer_inv :: "'w bio_ctx \<Rightarrow> bool" where
  "timer_inv s \<longleftrightarrow> tq_invar (timers_of s) \<and> (\<forall>e \<in># tq_entries (timers_of s). issued (handles s) (timer_signal e))"

lemma timer_init_inv: "timer_inv (bio_timer_init clock s)"
  by (simp add: bio_timer_init_def timer_inv_def timers_of_def tq_invar_def tq_entries_def heap_ok_def heap_mset_def
      split: prod.split)

lemma sched_frame_timers: "sched_frame s s' \<Longrightarrow> timers_of s' = timers_of s"
  by (simp add: sched_frame_def timers_of_def)

lemma timer_inv_frame: "timer_inv s \<Longrightarrow> sched_frame s s' \<Longrightarrow> timer_inv s'"
  by (auto simp: timer_inv_def sched_frame_timers intro: sched_frame_issued)

text \<open>The scheduler's invariant does not look at the timers, the time and the world.\<close>

lemma sched_inv_timers [simp]:
  "sched_inv_gen Vs Vm cur run (s\<lparr>timer_entries := es\<rparr>) = sched_inv_gen Vs Vm cur run s"
  "sched_inv_gen Vs Vm cur run (s\<lparr>timer_capacity := cap\<rparr>) = sched_inv_gen Vs Vm cur run s"
  "sched_inv_gen Vs Vm cur run (s\<lparr>num_timers := n\<rparr>) = sched_inv_gen Vs Vm cur run s"
  "sched_inv_gen Vs Vm cur run (s\<lparr>current_time_ms := t\<rparr>) = sched_inv_gen Vs Vm cur run s"
  "sched_inv_gen Vs Vm cur run (s\<lparr>world := w\<rparr>) = sched_inv_gen Vs Vm cur run s"
  by (simp_all add: sched_inv_gen_def graph_ok_def)

text \<open>What the timer code leaves alone besides what signals leave alone.\<close>

definition timer_frame :: "'w bio_ctx \<Rightarrow> 'w bio_ctx \<Rightarrow> bool" where
  "timer_frame s s' \<longleftrightarrow>
     sched_frame (s\<lparr>timer_entries := timer_entries s', timer_capacity := timer_capacity s', num_timers := num_timers s',
                     current_time_ms := current_time_ms s', world := world s'\<rparr>) s'"

lemma timer_frame_refl [simp]: "timer_frame s s"
  by (simp add: timer_frame_def)

lemma timer_frame_trans: "timer_frame a b \<Longrightarrow> timer_frame b c \<Longrightarrow> timer_frame a c"
  by (auto simp: timer_frame_def sched_frame_def intro: table_frame_trans)

lemma sched_timer_frame: "sched_frame s s' \<Longrightarrow> timer_frame s s'"
  by (simp add: timer_frame_def sched_frame_def)

lemma timer_frame_issued: "timer_frame s s' \<Longrightarrow> issued (handles s) h \<Longrightarrow> issued (handles s') h"
  by (auto simp: timer_frame_def dest: sched_frame_issued)

section \<open>The operations keep the invariant\<close>

lemma raise_after_safe [safe_rules]:
  assumes inv: "sched_inv_gen Vs Vm cur run s" and V: "emptied Vs" and t: "timer_inv s" and h: "issued (handles s) h"
  shows "safe (bio_raise_signal_after h ms s) (\<lambda>s'. sched_inv_gen Vs Vm cur run s' \<and> timer_inv s' \<and> timer_frame s s'
    \<and> (0 < ms \<longrightarrow> tq_entries (timers_of s') = add_mset \<lparr>due_time_ms = current_time_ms s + ms, timer_signal = h\<rparr> (tq_entries (timers_of s))))"
proof (cases "0 < ms")
  case False
  then show ?thesis
    using raise_signal_safe [OF inv V h] timer_inv_frame [OF t] sched_timer_frame
    by (auto simp: bio_raise_signal_after_def elim!: safe_mono)
next
  case True
  let ?e = "\<lparr>due_time_ms = current_time_ms s + ms, timer_signal = h\<rparr>"
  have "safe (tq_insert ?e (timers_of s)) (\<lambda>q. tq_invar q \<and> tq_entries q = add_mset ?e (tq_entries (timers_of s)))"
    using tq.insert_law t by (simp add: timer_inv_def)
  then show ?thesis
    using True inv t h
    by (auto simp: bio_raise_signal_after_def tq_insert_def timers_of_def timer_inv_def timer_frame_def sched_frame_def
        elim!: safe_mono)
qed

text \<open>Raising a signal and changing the timers commute.\<close>

lemma raise_signal_commute:
  "bio_raise_signal h (s\<lparr>timer_entries := es, num_timers := n\<rparr>) =
   rbind (bio_raise_signal h s) (\<lambda>(w, s'). Inr (w, s'\<lparr>timer_entries := es, num_timers := n\<rparr>))"
  by (cases "bio_close_handle h BIO_SIGNAL_HANDLE (handles s)";
      simp add: bio_raise_signal_def Let_def deref_def split: prod.splits option.splits; auto)

lemma raise_signals_commute:
  "raise_signals hs (s\<lparr>timer_entries := es, num_timers := n\<rparr>) =
   rbind (raise_signals hs s) (\<lambda>s'. Inr (s'\<lparr>timer_entries := es, num_timers := n\<rparr>))"
proof (induction hs arbitrary: s)
  case (Cons h hs)
  then show ?case
    by (cases "bio_raise_signal h s") (auto simp: raise_signal_commute)
qed simp

text \<open>
  The loop of \<open>bio_timer_update\<close> raises the signals of the entries that are due, in
  the order in which the queue is drained.
\<close>

lemma timer_expire_drains:
  assumes "tq.drains now q es q'" "timers_of s = q" "tq_invar q"
  shows "timer_expire now s =
    rbind (raise_signals (map timer_signal es) s) (\<lambda>s'. Inr (s'\<lparr>timer_entries := fst q', num_timers := snd (snd q')\<rparr>))"
  using assms
proof (induction arbitrary: s)
  case (drains_stop q t)
  have "num_timers s = 0 \<or> t < due_time_ms (timer_entries s ! 0)"
    using drains_stop by (auto simp: timers_of_def tq_entries_def heap_mset_def tq_first_def tq_invar_def)
  moreover have "0 < length (timer_entries s)"
    using drains_stop by (auto simp: timers_of_def tq_invar_def)
  moreover have "s = s\<lparr>timer_entries := fst q, num_timers := snd (snd q)\<rparr>"
    using drains_stop.prems(1) by (auto simp: timers_of_def)
  ultimately show ?case by (auto simp: timer_expire.simps [of t s])
next
  case (drains_next q t q1 es q')
  obtain ts cap n where q: "q = (ts, cap, n)" by (cases q)
  have s: "timer_entries s = ts" "timer_capacity s = cap" "num_timers s = n"
    using drains_next.prems(1) q by (auto simp: timers_of_def)
  have n: "0 < n" "0 < length ts" "due_time_ms (ts ! 0) \<le> t"
    using drains_next.hyps(1,2) drains_next.prems(2) q
    by (auto simp: tq_entries_def heap_mset_def tq_first_def tq_invar_def)
  obtain ts1 n1 where d: "heap_delete_min ts n = Inr (ts1, n1)" "q1 = (ts1, cap, n1)"
    using drains_next.hyps(3) q by (auto simp: tq_delete_def rbind_eq_Inr)
  have q1: "tq_invar q1"
    using tq.delete_law [OF drains_next.prems(2) drains_next.hyps(1)] drains_next.hyps(3) by auto
  show ?case
  proof (cases "bio_raise_signal (timer_signal (ts ! 0)) s")
    case (Inl e)
    then show ?thesis using n by (simp add: timer_expire.simps [of t s] s q tq_first_def)
  next
    case (Inr x)
    obtain w s1 where x: "x = (w, s1)" by (cases x)
    note r = raise_signal_timers [OF Inr [unfolded x]]
    have "timer_expire t s = timer_expire t (s1\<lparr>timer_entries := ts1, num_timers := n1\<rparr>)"
      using n Inr x r d by (simp add: timer_expire.simps [of t s] s)
    also have "\<dots> = rbind (raise_signals (map timer_signal es) (s1\<lparr>timer_entries := ts1, num_timers := n1\<rparr>))
        (\<lambda>s'. Inr (s'\<lparr>timer_entries := fst q', num_timers := snd (snd q')\<rparr>))"
      using r d q1 s by (intro drains_next.IH) (auto simp: timers_of_def)
    also have "\<dots> = rbind (raise_signals (map timer_signal es) s1)
        (\<lambda>s'. Inr (s'\<lparr>timer_entries := fst q', num_timers := snd (snd q')\<rparr>))"
      unfolding raise_signals_commute by (cases "raise_signals (map timer_signal es) s1") auto
    finally show ?thesis using Inr x by (simp add: q tq_first_def)
  qed
qed

lemma raise_keeps_raised:
  assumes inv: "sched_inv_gen Vs Vm cur run s" and V: "emptied Vs" and h: "issued (handles s) h"
  shows "safe (bio_raise_signal h s) (\<lambda>(_, s'). \<forall>k. issued (handles s) k \<longrightarrow> bio_check_signal k s \<longrightarrow> bio_check_signal k s')"
proof (cases "\<exists>p. lookup_handle (handles s) h = Some (p, BIO_SIGNAL_HANDLE)")
  case False
  then show ?thesis using raise_signal_dead [OF sched_inv_handles [OF inv] h] by simp
next
  case True
  then obtain p where p: "lookup_handle (handles s) h = Some (p, BIO_SIGNAL_HANDLE)" by blast
  note G = sched_invD(2) [OF inv]
  from named_object [OF graph_okD(3) [OF G] p] obtain g where g: "map_of (signals s) p = Some g" by auto
  obtain k where k: "map_of (coros s) (sig_owner g) = Some k" using sig_owner_live [OF G V g] by blast
  have "bio_check_signal j (raised_ctx p g k ht s)"
    if "closed (handles s) h p BIO_SIGNAL_HANDLE ht" "issued (handles s) j" "bio_check_signal j s" for j ht
    using that graph_okD(1) [OF G] by (auto simp: raised_ctx_def bio_check_signal_def resolve_lookup closed_def)
  then show ?thesis
    unfolding raise_signal_live [OF G p g k]
    using close_safe [OF graph_okD(1) [OF G] p] by (auto elim!: safe_mono)
qed

lemma drains_capacity: "tq.drains t q es q' \<Longrightarrow> fst (snd q') = fst (snd q)"
  by (induction rule: tq.drains.induct) (auto simp: tq_delete_def rbind_eq_Inr split: prod.splits)

lemma raise_signals_frame:
  assumes "sched_inv_gen Vs Vm cur run s" "emptied Vs" "\<forall>h \<in> set hs. issued (handles s) h"
  shows "safe (raise_signals hs s) (\<lambda>s'. sched_inv_gen Vs Vm cur run s' \<and> sched_frame s s'
    \<and> (\<forall>h. issued (handles s) h \<longrightarrow> h \<in> set hs \<or> bio_check_signal h s \<longrightarrow> bio_check_signal h s'))"
  using assms
proof (induction hs arbitrary: s)
  case (Cons h hs)
  have h: "issued (handles s) h" using Cons.prems(3) by simp
  let ?Q = "\<lambda>s'. sched_frame s s' \<and> bio_check_signal h s' \<and> (\<forall>k. issued (handles s) k \<longrightarrow> bio_check_signal k s \<longrightarrow> bio_check_signal k s')"
  have "safe (bio_raise_signal h s) (\<lambda>(_, s'). ?Q s')"
    by (rule safe_mono [OF safe_conj [OF raise_signal_safe [OF Cons.prems(1,2) h] raise_keeps_raised [OF Cons.prems(1,2) h]]]) auto
  then show ?case
  proof (rule raise_signals_step [OF Cons.prems])
    fix s' assume I: "sched_inv_gen Vs Vm cur run s'" "\<forall>h \<in> set hs. issued (handles s') h" and Q: "?Q s'"
    show "safe (raise_signals hs s') (\<lambda>s'. sched_inv_gen Vs Vm cur run s' \<and> sched_frame s s'
      \<and> (\<forall>k. issued (handles s) k \<longrightarrow> k \<in> set (h # hs) \<or> bio_check_signal k s \<longrightarrow> bio_check_signal k s'))"
      by (rule safe_mono [OF Cons.IH [OF I(1) Cons.prems(2) I(2)]])
        (use Q in \<open>auto intro: sched_frame_trans sched_frame_issued\<close>)
  qed
qed simp

lemma timer_update_safe [safe_rules]:
  assumes inv: "sched_inv_gen Vs Vm cur run s" and V: "emptied Vs" and t: "timer_inv s"
  shows "safe (bio_timer_update clock s) (\<lambda>s'. sched_inv_gen Vs Vm cur run s' \<and> timer_inv s' \<and> timer_frame s s'
    \<and> tq_entries (timers_of s') = filter_mset (\<lambda>e. fst (clock (world s)) < due_time_ms e) (tq_entries (timers_of s))
    \<and> (\<forall>e \<in># tq_entries (timers_of s). due_time_ms e \<le> fst (clock (world s)) \<longrightarrow> bio_check_signal (timer_signal e) s'))"
proof -
  obtain now w where c: "clock (world s) = (now, w)" by (cases "clock (world s)")
  let ?s = "s\<lparr>world := w, current_time_ms := now\<rparr>"
  have q: "timers_of ?s = timers_of s" "tq_invar (timers_of s)" using t by (simp_all add: timers_of_def timer_inv_def)
  obtain es q' where d: "tq.drains now (timers_of s) es q'" using tq.drains_total [OF q(2)] by blast
  note D = tq.drains_due [OF d q(2)]
  have cap: "fst (snd q') = timer_capacity s"
    using drains_capacity [OF d] by (simp add: timers_of_def)
  have es: "e \<in> set es \<longleftrightarrow> e \<in># tq_entries (timers_of s) \<and> due_time_ms e \<le> now" for e
    using arg_cong [OF D(2), of "\<lambda>M. e \<in># M"] by simp
  have post: "sched_inv_gen Vs Vm cur run s'' \<and> timer_inv s'' \<and> timer_frame s s'' \<and> timers_of s'' = q'
      \<and> (\<forall>e \<in> set es. bio_check_signal (timer_signal e) s'')"
    if s': "sched_inv_gen Vs Vm cur run s'" "sched_frame ?s s'"
      "\<forall>h. issued (handles s) h \<longrightarrow> h \<in> timer_signal ` set es \<or> bio_check_signal h ?s \<longrightarrow> bio_check_signal h s'"
      and s'': "s'' = s'\<lparr>timer_entries := fst q', num_timers := snd (snd q')\<rparr>" for s' s''
  proof -
    have tq: "timers_of s'' = q'"
      using cap s'(2) by (cases q') (auto simp: s'' timers_of_def sched_frame_def)
    have "issued (handles s') (timer_signal e)" if "e \<in># tq_entries (timers_of s)" for e
      using t that sched_frame_issued [OF s'(2)] by (auto simp: timer_inv_def)
    then have "timer_inv s''" using D(1) by (auto simp: timer_inv_def tq D(3)) (simp add: s'')
    moreover have "timer_frame s s''"
      using s'(2) by (simp add: timer_frame_def sched_frame_def s'')
    moreover have "bio_check_signal (timer_signal e) s''" if "e \<in> set es" for e
      using s'(3) t that by (auto simp: es timer_inv_def bio_check_signal_def s'')
    ultimately show ?thesis using s'(1) tq by (simp add: s'')
  qed
  have "safe (raise_signals (map timer_signal es) ?s) (\<lambda>s'. sched_inv_gen Vs Vm cur run s' \<and> sched_frame ?s s'
      \<and> (\<forall>h. issued (handles ?s) h \<longrightarrow> h \<in> set (map timer_signal es) \<or> bio_check_signal h ?s \<longrightarrow> bio_check_signal h s'))"
    using inv t es by (intro raise_signals_frame V) (auto simp: timer_inv_def)
  then show ?thesis
    unfolding bio_timer_update_def c Let_def prod.case timer_expire_drains [OF d q] safe_rbind
    by (rule safe_mono) (use post D(3) es in auto)
qed

lemma time_until_safe [safe_rules]:
  assumes "timer_inv s"
  shows "safe (bio_time_until_next_timer clock s) (\<lambda>(d, s'). (\<exists>w. s' = s\<lparr>world := w\<rparr>)
    \<and> (if tq_entries (timers_of s) = {#} then d = -1
       else 0 \<le> d \<and> (\<forall>e \<in># tq_entries (timers_of s). d \<le> max 0 (due_time_ms e - fst (clock (world s))))))"
proof (cases "num_timers s = 0")
  case True
  then show ?thesis
    by (auto simp: bio_time_until_next_timer_def timers_of_def tq_entries_def heap_mset_def intro!: exI [of _ "world s"])
next
  case False
  have q: "tq_invar (timers_of s)" using assms by (simp add: timer_inv_def)
  have ne: "tq_entries (timers_of s) \<noteq> {#}" "0 < length (timer_entries s)"
    using q False by (auto simp: tq_invar_def timers_of_def tq_entries_def heap_mset_def)
  have "\<forall>e \<in># tq_entries (timers_of s). due_time_ms (timer_entries s ! 0) \<le> due_time_ms e"
    using tq.first_law [OF q ne(1)] by (simp add: tq_first_def timers_of_def)
  moreover obtain now w where "clock (world s) = (now, w)" by (cases "clock (world s)")
  ultimately show ?thesis
    using ne False by (cases "due_time_ms (timer_entries s ! 0) < now") (auto simp: bio_time_until_next_timer_def le_max_iff_disj)
qed

end
