(* ===== verification/Scheduler.thy ===== *)
theory Scheduler
  imports Monitor TimerQueue
begin

text \<open>
  The event loop of \<open>src/src/scheduler.c\<close>: spawning a coroutine, running the
  ready ones, destroying a coroutine that has ended, and \<open>bio_loop\<close> itself.
\<close>

section \<open>Spawning\<close>

text \<open>
  \<open>mco_create\<close> stands for minicoro's creation of the stack; it only changes the
  state of the world.
\<close>

definition bio_spawn_ex ::
    "('w \<Rightarrow> int \<times> 'w) \<Rightarrow> (addr \<Rightarrow> 'w \<Rightarrow> 'w) \<Rightarrow> addr \<Rightarrow> addr \<Rightarrow> bool \<Rightarrow> 'w bio_ctx \<Rightarrow> (bio_handle \<times> 'w bio_ctx) outcome" where
  "bio_spawn_ex clock mco_create fn data is_daemon s =
    (let c = bio_malloc s;
         coro = \<lparr>entrypoint = fn, daemon = is_daemon, userdata = data, extra_data = NULL, extra_data_tag = NULL_TAG,
                 coro_name = NULL, cls_buckets = None, coro_handle = BIO_INVALID_HANDLE, coro_state = BIO_CORO_READY,
                 pending_signals = [], monitors = [], num_blocking_signals = 0, wait_counter = 0\<rparr>;
         s = s\<lparr>world := mco_create c (world s)\<rparr> in
     rbind (bio_make_handle c BIO_CORO_HANDLE (handles s)) (\<lambda>(h, ht).
     let s = s\<lparr>handles := ht, coros := put c (coro\<lparr>coro_handle := h\<rparr>) (coros s),
               next_ready_coros := bio_array_push (next_ready_coros s) c\<rparr> in
     rbind (check32 (num_coros s + 1)) (\<lambda>nc.
     let s = s\<lparr>num_coros := nc\<rparr> in
     rbind (if nc = 1 then bio_timer_update clock s else Inr s) (\<lambda>s.
     if is_daemon
     then rbind (check32 (num_daemons s + 1)) (\<lambda>nd. Inr (h, s\<lparr>num_daemons := nd\<rparr>))
     else Inr (h, s)))))"

section \<open>The end of a coroutine\<close>

text \<open>
  \<open>cleanup spec\<close> is the \<open>cleanup\<close> function pointer of a coroutine-local storage
  description: application code, \<open>None\<close> for \<open>NULL\<close>.
\<close>

fun cleanup_entries ::
    "(addr \<Rightarrow> (addr \<Rightarrow> 'w bio_ctx \<Rightarrow> 'w bio_ctx outcome) option) \<Rightarrow> bio_cls_entry list \<Rightarrow> 'w bio_ctx \<Rightarrow> 'w bio_ctx outcome" where
  "cleanup_entries cleanup [] s = Inr s"
| "cleanup_entries cleanup (e # es) s =
    rbind (case cleanup (cls_spec e) of None \<Rightarrow> Inr s | Some f \<Rightarrow> f (cls_data e) s) (cleanup_entries cleanup es)"

fun destroy_signals :: "addr list \<Rightarrow> 'w bio_ctx \<Rightarrow> 'w bio_ctx outcome" where
  "destroy_signals [] s = Inr s"
| "destroy_signals (p # ps) s =
    rbind (deref (signals s) p) (\<lambda>sig.
    rbind (bio_close_handle (sig_handle sig) BIO_SIGNAL_HANDLE (handles s)) (\<lambda>(_, ht).
    destroy_signals ps (s\<lparr>handles := ht, signals := del p (signals s)\<rparr>)))"

fun trigger_monitors :: "addr list \<Rightarrow> 'w bio_ctx \<Rightarrow> 'w bio_ctx outcome" where
  "trigger_monitors [] s = Inr s"
| "trigger_monitors (m # ms) s =
    rbind (deref (monitor_impls s) m) (\<lambda>mon.
    rbind (bio_raise_signal (mon_signal mon) s) (\<lambda>(_, s).
    rbind (bio_close_handle (mon_handle mon) BIO_MONITOR_HANDLE (handles s)) (\<lambda>(_, ht).
    trigger_monitors ms (s\<lparr>handles := ht, monitor_impls := del m (monitor_impls s)\<rparr>))))"

definition free_coro :: "(addr \<Rightarrow> 'w \<Rightarrow> 'w) \<Rightarrow> addr \<Rightarrow> 'w bio_ctx \<Rightarrow> 'w bio_ctx outcome" where
  "free_coro mco_destroy c s =
    rbind (deref (coros s) c) (\<lambda>coro.
    let s = s\<lparr>world := mco_destroy c (world s)\<rparr> in
    rbind (bio_close_handle (coro_handle coro) BIO_CORO_HANDLE (handles s)) (\<lambda>(_, ht).
    rbind (check32 (num_coros s - 1)) (\<lambda>nc.
    rbind (if daemon coro then check32 (num_daemons s - 1) else Inr (num_daemons s)) (\<lambda>nd.
    Inr (s\<lparr>handles := ht, num_coros := nc, num_daemons := nd, coros := del c (coros s)\<rparr>)))))"

text \<open>Everything \<open>bio_loop\<close> does for a coroutine whose function has returned.\<close>

definition destroy_coro ::
    "(addr \<Rightarrow> (addr \<Rightarrow> 'w bio_ctx \<Rightarrow> 'w bio_ctx outcome) option) \<Rightarrow> (addr \<Rightarrow> 'w \<Rightarrow> 'w) \<Rightarrow> addr \<Rightarrow> 'w bio_ctx \<Rightarrow> 'w bio_ctx outcome" where
  "destroy_coro cleanup mco_destroy c s =
    rbind (deref (coros s) c) (\<lambda>coro.
    rbind (cleanup_entries cleanup (case cls_buckets coro of None \<Rightarrow> [] | Some bs \<Rightarrow> concat bs) s) (\<lambda>s.
    rbind (deref (coros s) c) (\<lambda>coro.
    rbind (destroy_signals (pending_signals coro) s) (\<lambda>s.
    rbind (deref (coros s) c) (\<lambda>coro.
    rbind (trigger_monitors (monitors coro) s) (\<lambda>s.
    free_coro mco_destroy c s))))))"

section \<open>The loop\<close>

text \<open>
  What \<open>bio_loop\<close> calls outside of the scheduler: minicoro, the application's
  callbacks, the clock and the platform layer, and the worker threads.
  \<open>mco_resume c\<close> runs coroutine \<open>c\<close> up to its next \<open>mco_yield\<close> or to its end; the
  \<open>bool\<close> is \<open>mco_status(...) == MCO_DEAD\<close>.
\<close>

record 'w env =
  mco_resume :: "addr \<Rightarrow> 'w bio_ctx \<Rightarrow> (bool \<times> 'w bio_ctx) outcome"
  mco_destroy :: "addr \<Rightarrow> 'w \<Rightarrow> 'w"
  cls_cleanup :: "addr \<Rightarrow> (addr \<Rightarrow> 'w bio_ctx \<Rightarrow> 'w bio_ctx outcome) option"
  clock :: "'w \<Rightarrow> int \<times> 'w"
  platform_update :: "int \<Rightarrow> bool \<Rightarrow> 'w bio_ctx \<Rightarrow> 'w bio_ctx outcome"
  thread_update :: "'w bio_ctx \<Rightarrow> 'w bio_ctx outcome"

definition run_coro :: "'w env \<Rightarrow> addr \<Rightarrow> 'w bio_ctx \<Rightarrow> 'w bio_ctx outcome" where
  "run_coro E c s =
    rbind (deref (coros s) c) (\<lambda>coro.
    let s = s\<lparr>coros := put c (coro\<lparr>coro_state := BIO_CORO_RUNNING, num_blocking_signals := 0\<rparr>) (coros s)\<rparr> in
    rbind (mco_resume E c s) (\<lambda>(dead, s).
    if \<not> dead then
      rbind (deref (coros s) c) (\<lambda>coro.
      let waiting = num_blocking_signals coro > 0;
          s = s\<lparr>coros := put c (coro\<lparr>coro_state := (if waiting then BIO_CORO_WAITING else BIO_CORO_READY)\<rparr>) (coros s)\<rparr>
      in Inr (if \<not> waiting then s\<lparr>next_ready_coros := bio_array_push (next_ready_coros s) c\<rparr> else s))
    else destroy_coro (cls_cleanup E) (mco_destroy E) c s))"

function run_round :: "'w env \<Rightarrow> nat \<Rightarrow> nat \<Rightarrow> 'w bio_ctx \<Rightarrow> 'w bio_ctx outcome" where
  "run_round E coro_index n s =
    (if coro_index < n then
       rbind (array_get (current_ready_coros s) coro_index) (\<lambda>c.
       rbind (run_coro E c s) (run_round E (coro_index + 1) n))
     else Inr s)"
  by pat_completeness auto
termination by (relation "measure (\<lambda>(_, i, n, _). n - i)") auto

declare run_round.simps [simp del]

definition should_terminate :: "'w bio_ctx \<Rightarrow> bool" where
  "should_terminate s = (if is_terminating s then num_coros s = 0 else num_coros s = num_daemons s)"

definition bio_num_running_async_jobs :: "'w bio_ctx \<Rightarrow> int" where
  "bio_num_running_async_jobs s = num_running_async_jobs (rest s)"

text \<open>The part of an iteration after the ready coroutines have run: jobs, timers and I/O.\<close>

definition poll_events :: "'w env \<Rightarrow> 'w bio_ctx \<Rightarrow> 'w bio_ctx outcome" where
  "poll_events E s =
    rbind (thread_update E s) (\<lambda>s.
    rbind (bio_timer_update (clock E) s) (\<lambda>s.
    let should_wait_for_io = bio_array_len (next_ready_coros s) = 0 in
    rbind (if should_wait_for_io then bio_time_until_next_timer (clock E) s else Inr (0, s)) (\<lambda>(timeout, s).
    rbind (platform_update E timeout (bio_num_running_async_jobs s > 0) s) (\<lambda>s.
    if should_wait_for_io
    then rbind (thread_update E s) (bio_timer_update (clock E))
    else Inr s))))"

definition swap_ready :: "'w bio_ctx \<Rightarrow> 'w bio_ctx" where
  "swap_ready s = s\<lparr>next_ready_coros := current_ready_coros s, current_ready_coros := next_ready_coros s\<rparr>"

text \<open>One iteration of \<open>while (true)\<close>; the \<open>bool\<close> tells whether the loop was left.\<close>

definition loop_iteration :: "'w env \<Rightarrow> 'w bio_ctx \<Rightarrow> (bool \<times> 'w bio_ctx) outcome" where
  "loop_iteration E s =
    rbind (run_round E 0 (bio_array_len (current_ready_coros s)) s) (\<lambda>s.
    let s = s\<lparr>current_ready_coros := bio_array_clear (current_ready_coros s)\<rparr> in
    if should_terminate s then Inr (True, s)
    else rbind (poll_events E s) (\<lambda>s. Inr (False, swap_ready s)))"

partial_function (option) bio_loop :: "'w env \<Rightarrow> 'w bio_ctx \<Rightarrow> 'w bio_ctx outcome option" where
  "bio_loop E s =
    (case loop_iteration E s of
       Inl e \<Rightarrow> Some (Inl e)
     | Inr x \<Rightarrow> (if fst x then Some (Inr (snd x)) else bio_loop E (snd x)))"

definition bio_scheduler_cleanup :: "'w bio_ctx \<Rightarrow> 'w bio_ctx" where
  "bio_scheduler_cleanup s = s\<lparr>next_ready_coros := None, current_ready_coros := None\<rparr>"

section \<open>Spawning keeps the invariant\<close>

definition loop_inv :: "addr list \<Rightarrow> addr option \<Rightarrow> 'w bio_ctx \<Rightarrow> bool" where
  "loop_inv cur run s \<longleftrightarrow> sched_inv cur run s \<and> timer_inv s"

lemma loop_inv_fields [simp]:
  "loop_inv cur run (s\<lparr>world := w\<rparr>) = loop_inv cur run s"
  "loop_inv cur run (s\<lparr>timer_impls := ti\<rparr>) = loop_inv cur run s"
  "loop_inv cur run (s\<lparr>mailboxes := mb\<rparr>) = loop_inv cur run s"
  "loop_inv cur run (s\<lparr>rest := r\<rparr>) = loop_inv cur run s"
  "loop_inv cur run (s\<lparr>is_terminating := b\<rparr>) = loop_inv cur run s"
  by (simp_all add: loop_inv_def timer_inv_def timers_of_def)

lemma lists_empty:
  "pending_lists Map.empty C = (\<lambda>c. map_option pending_signals (C c))"
  "monitor_lists Map.empty C = (\<lambda>c. map_option monitors (C c))"
  by (simp_all add: pending_lists_def monitor_lists_def)

lemma graph_ok_new_coro:
  assumes ok: "graph_ok Map.empty Map.empty s" and c: "map_of (coros s) c = None" "c \<noteq> NULL"
    and m: "made (handles s) h c BIO_CORO_HANDLE ht"
    and k: "coro_handle k = h" "pending_signals k = []" "monitors k = []"
  shows "graph_ok Map.empty Map.empty (s\<lparr>handles := ht, coros := put c k (coros s), next_ready_coros := q\<rparr>)"
proof -
  note G = graph_okD [OF ok]
  obtain W where W: "dom W = dom (map_of (monitor_impls s))" "linked (monitor_lists Map.empty (map_of (coros s))) W"
    using G(6) by blast
  have "linked ((monitor_lists Map.empty (map_of (coros s)))(c \<mapsto> [])) W"
    using c by (intro linked_new W) (simp add: lists_empty)
  moreover have "linked ((pending_lists Map.empty (map_of (coros s)))(c \<mapsto> [])) (\<lambda>p. map_option sig_owner (map_of (signals s) p))"
    using c by (intro linked_new G(5)) (simp add: lists_empty)
  moreover have "named BIO_CORO_HANDLE (lookup_handle ht) ((map_of (coros s))(c \<mapsto> k)) coro_handle"
    using named_made_new [OF G(2) m c k(1)] .
  ultimately show ?thesis
    using m W(1) G named_made [OF G(3) m] named_made [OF G(4) m]
    by (auto simp: graph_ok_def lists_upd k made_def simp del: fun_upd_apply)
qed

lemma queue_ok_new:
  assumes "queue_ok cur run q st" "st c = None"
  shows "queue_ok cur run (bio_array_push q c) (st(c \<mapsto> (BIO_CORO_READY, n)))"
  using queue_ok_ready [OF assms(1), of c] queue_ok_running [OF assms(1), of c] assms
  by (auto simp: queue_ok_def)

lemma count_ok_new:
  assumes "count_ok nc nd dm" "dm c = None" "finite (dom dm)"
  shows "count_ok (nc + 1) (if d then nd + 1 else nd) (dm(c \<mapsto> d))"
proof -
  have "{a. (dm(c \<mapsto> d)) a = Some True} = (if d then insert c {a. dm a = Some True} else {a. dm a = Some True})"
    using assms(2) by auto
  moreover have "finite {a. dm a = Some True}" by (rule finite_subset [OF _ assms(3)]) auto
  moreover have "c \<notin> dom dm" using assms(2) by auto
  ultimately show ?thesis using assms by (simp add: count_ok_def)
qed

lemma finite_daemons [simp]: "finite (dom (daemons (map_of cs)))"
  by (rule finite_subset [OF _ finite_dom_map_of [of cs]]) (auto simp: daemons_def)

text \<open>The number of daemons is updated after the timers; they do not look at it.\<close>

lemma raise_signal_daemons:
  "bio_raise_signal h (s\<lparr>num_daemons := n\<rparr>) = rbind (bio_raise_signal h s) (\<lambda>(w, s'). Inr (w, s'\<lparr>num_daemons := n\<rparr>))"
  "bio_raise_signal h s = Inr (w, s') \<Longrightarrow> num_daemons s' = num_daemons s"
  by (cases "bio_close_handle h BIO_SIGNAL_HANDLE (handles s)";
      simp add: bio_raise_signal_def Let_def deref_def split: prod.splits option.splits if_splits; auto)+

lemma timer_expire_daemons:
  "timer_expire now (s\<lparr>num_daemons := n\<rparr>) = rbind (timer_expire now s) (\<lambda>s'. Inr (s'\<lparr>num_daemons := n\<rparr>))
   \<and> (\<forall>s'. timer_expire now s = Inr s' \<longrightarrow> num_daemons s' = num_daemons s)"
proof (induction now s rule: timer_expire.induct)
  case (1 now s)
  show ?case
  proof (cases "0 < num_timers s \<and> timer_entries s \<noteq> [] \<and> due_time_ms (timer_entries s ! 0) \<le> now")
    case False
    then show ?thesis by (auto simp: timer_expire.simps [of now] aget_def)
  next
    case True
    let ?e = "timer_entries s ! 0"
    show ?thesis
    proof (cases "bio_raise_signal (timer_signal ?e) s")
      case (Inl e)
      then show ?thesis using True by (simp add: timer_expire.simps [of now] raise_signal_daemons(1))
    next
      case (Inr x)
      obtain w s1 where x: "x = (w, s1)" by (cases x)
      note d = raise_signal_daemons(2) [OF Inr [unfolded x]]
      show ?thesis
      proof (cases "heap_delete_min (timer_entries s1) (num_timers s1)")
        case (Inl e)
        then show ?thesis using True Inr x by (simp add: timer_expire.simps [of now] raise_signal_daemons(1))
      next
        case r: (Inr y)
        have c: "s1\<lparr>num_daemons := n, timer_entries := fst y, num_timers := snd y\<rparr> =
            s1\<lparr>timer_entries := fst y, num_timers := snd y, num_daemons := n\<rparr>" by simp
        show ?thesis
          using 1(1) [of ?e "(w, s1)" y] True Inr x r d
          by (simp add: timer_expire.simps [of now s] timer_expire.simps [of now "s\<lparr>num_daemons := n\<rparr>"] raise_signal_daemons(1) c)
      qed
    qed
  qed
qed

lemma timer_update_daemons:
  "bio_timer_update clk (s\<lparr>num_daemons := n\<rparr>) = rbind (bio_timer_update clk s) (\<lambda>s'. Inr (s'\<lparr>num_daemons := n\<rparr>))"
  "bio_timer_update clk s = Inr s' \<Longrightarrow> num_daemons s' = num_daemons s"
proof -
  obtain now w where c: "clk (world s) = (now, w)" by (cases "clk (world s)")
  have "s\<lparr>num_daemons := n, world := w, current_time_ms := now\<rparr> = s\<lparr>world := w, current_time_ms := now, num_daemons := n\<rparr>"
    by simp
  note r = this
  from c timer_expire_daemons [where now = now and s = "s\<lparr>world := w, current_time_ms := now\<rparr>" and n = n]
  show "bio_timer_update clk (s\<lparr>num_daemons := n\<rparr>) = rbind (bio_timer_update clk s) (\<lambda>s'. Inr (s'\<lparr>num_daemons := n\<rparr>))"
    "bio_timer_update clk s = Inr s' \<Longrightarrow> num_daemons s' = num_daemons s"
    by (simp_all add: bio_timer_update_def r)
qed

lemma timer_update_safe_daemons:
  assumes "sched_inv_gen Vs Vm cur run (s\<lparr>num_daemons := n\<rparr>)" "emptied Vs" "timer_inv s"
  shows "safe (bio_timer_update clk s) (\<lambda>s'. sched_inv_gen Vs Vm cur run (s'\<lparr>num_daemons := n\<rparr>) \<and> timer_inv s' \<and> timer_frame s s')"
proof -
  have "timer_inv (s\<lparr>num_daemons := n\<rparr>)" using assms(3) by (simp add: timer_inv_def timers_of_def)
  from timer_update_safe [OF assms(1,2) this, of clk] timer_update_daemons(2) [of clk s]
  show ?thesis
    unfolding timer_update_daemons(1) by (cases "bio_timer_update clk s")
      (auto simp: timer_inv_def timers_of_def timer_frame_def sched_frame_def)
qed

text \<open>What belongs to the components that are built on top of the scheduler.\<close>

definition others_kept :: "'w bio_ctx \<Rightarrow> 'w bio_ctx \<Rightarrow> bool" where
  "others_kept s s' \<longleftrightarrow> table_frame sched_tags (handles s) (handles s')
    \<and> timer_impls s' = timer_impls s \<and> mailboxes s' = mailboxes s \<and> rest s' = rest s"

lemma others_kept_refl [simp]: "others_kept s s"
  by (simp add: others_kept_def)

lemma others_kept_trans: "others_kept a b \<Longrightarrow> others_kept b c \<Longrightarrow> others_kept a c"
  by (auto simp: others_kept_def intro: table_frame_trans)

lemma others_kept_timer_frame: "timer_frame s s' \<Longrightarrow> others_kept s s'"
  by (simp add: others_kept_def timer_frame_def sched_frame_def)

lemma others_kept_sched_frame: "sched_frame s s' \<Longrightarrow> others_kept s s'"
  by (simp add: others_kept_def sched_frame_def)

lemma others_kept_issued: "others_kept s s' \<Longrightarrow> issued (handles s) h \<Longrightarrow> issued (handles s') h"
  by (simp add: others_kept_def table_frame_def)

lemma others_kept_lookup:
  "others_kept s s' \<Longrightarrow> t \<notin> sched_tags \<Longrightarrow> lookup_handle (handles s') h = Some (p, t) \<longleftrightarrow> lookup_handle (handles s) h = Some (p, t)"
  by (simp add: others_kept_def table_frame_def)

text \<open>The end of \<open>bio_spawn_ex\<close>, once the coroutine is in the queue and counted.\<close>

lemma spawn_finish:
  assumes "sched_inv cur run (s\<lparr>num_daemons := if d then num_daemons s + 1 else num_daemons s\<rparr>)" "timer_inv s"
  shows "safe (rbind (if b then bio_timer_update clk s else Inr s) (\<lambda>s.
      if d then rbind (check32 (num_daemons s + 1)) (\<lambda>nd. Inr (h, s\<lparr>num_daemons := nd\<rparr>)) else Inr (h, s)))
    (\<lambda>(h', s'). h' = h \<and> loop_inv cur run s' \<and> current_ready_coros s' = current_ready_coros s \<and> others_kept s s')"
proof -
  let ?nd = "if d then num_daemons s + 1 else num_daemons s"
  have 1: "safe (if b then bio_timer_update clk s else Inr s)
      (\<lambda>s'. sched_inv cur run (s'\<lparr>num_daemons := ?nd\<rparr>) \<and> timer_inv s' \<and> timer_frame s s')"
    using timer_update_safe_daemons [OF assms(1) _ assms(2), of clk] assms by simp
  have 2: "loop_inv cur run (s'\<lparr>num_daemons := ?nd\<rparr>) \<and> current_ready_coros s' = current_ready_coros s
      \<and> others_kept s (s'\<lparr>num_daemons := ?nd\<rparr>) \<and> num_daemons s' = num_daemons s"
    if "sched_inv cur run (s'\<lparr>num_daemons := ?nd\<rparr>)" "timer_inv s'" "timer_frame s s'" for s'
    using that by (simp add: loop_inv_def timer_inv_def timers_of_def timer_frame_def sched_frame_def others_kept_def)
  have same: "s'\<lparr>num_daemons := num_daemons s\<rparr> = s'" if "num_daemons s' = num_daemons s" for s' :: "'a bio_ctx"
    using that by simp
  show ?thesis
  proof (rule safe_bind [OF 1], goal_cases)
    case (1 x)
    with 2 [of x] have x: "loop_inv cur run (x\<lparr>num_daemons := ?nd\<rparr>)" "current_ready_coros x = current_ready_coros s"
      "others_kept s (x\<lparr>num_daemons := ?nd\<rparr>)" "num_daemons x = num_daemons s" by auto
    show ?case
    proof (cases d)
      case True
      then show ?thesis using x by simp
    next
      case False
      then show ?thesis using x same [OF x(4)] by simp
    qed
  qed
qed

lemma spawn_safe [safe_rules]:
  assumes inv: "loop_inv cur run s"
  shows "safe (bio_spawn_ex clk create fn data is_daemon s) (\<lambda>(h, s'). loop_inv cur run s'
    \<and> current_ready_coros s' = current_ready_coros s \<and> others_kept s s' \<and> issued (handles s') h)"
proof -
  let ?c = "bio_malloc s" and ?s = "s\<lparr>world := create (bio_malloc s) (world s)\<rparr>"
  let ?k = "\<lambda>h. \<lparr>entrypoint = fn, daemon = is_daemon, userdata = data, extra_data = NULL, extra_data_tag = NULL_TAG,
    coro_name = NULL, cls_buckets = None, coro_handle = h, coro_state = BIO_CORO_READY,
    pending_signals = [], monitors = [], num_blocking_signals = 0, wait_counter = 0\<rparr>"
  let ?s1 = "\<lambda>h ht. ?s\<lparr>handles := ht, coros := put ?c (?k h) (coros s), next_ready_coros := bio_array_push (next_ready_coros s) ?c,
    num_coros := num_coros s + 1\<rparr>"
  let ?nd = "if is_daemon then num_daemons s + 1 else num_daemons s"
  have I: "sched_inv cur run s" and T: "timer_inv s" using inv by (simp_all add: loop_inv_def)
  note D = sched_invD [OF I] and fresh = bio_malloc_fresh [OF sched_invD(1) [OF I]]
  have inv1: "sched_inv cur run ((?s1 h ht)\<lparr>num_daemons := ?nd\<rparr>)" and T1: "timer_inv (?s1 h ht)"
    if m: "made (handles s) h ?c BIO_CORO_HANDLE ht" for h ht
  proof -
    have "graph_ok Map.empty Map.empty (s\<lparr>handles := ht, coros := put ?c (?k h) (coros s), next_ready_coros := bio_array_push (next_ready_coros s) ?c\<rparr>)"
      by (rule graph_ok_new_coro [OF D(2) fresh(2,1) m]) simp_all
    moreover have "queue_ok cur run (bio_array_push (next_ready_coros s) ?c) ((states (map_of (coros s)))(?c \<mapsto> (BIO_CORO_READY, 0)))"
      by (rule queue_ok_new [OF D(3)]) (simp add: states_def fresh)
    moreover have "count_ok (num_coros s + 1) ?nd ((daemons (map_of (coros s)))(?c \<mapsto> is_daemon))"
      by (rule count_ok_new [OF D(4) _ finite_daemons]) (simp add: daemons_def fresh)
    moreover have "waits_ok ((counters (map_of (coros s)))(?c \<mapsto> 0)) (map_of (signals s))"
    proof -
      have "sig_owner g \<noteq> ?c" if "map_of (signals s) p = Some g" for p g
        using sig_owner_live [OF D(2) _ that] fresh(2) by fastforce
      then show ?thesis using D(5) by (auto simp: waits_ok_def)
    qed
    ultimately show "sched_inv cur run ((?s1 h ht)\<lparr>num_daemons := ?nd\<rparr>)"
      using D(1) by (simp add: sched_inv_gen_def views_upd graph_ok_def)
    show "timer_inv (?s1 h ht)" using T m by (auto simp: timer_inv_def timers_of_def made_def)
  qed
  have "safe (bio_make_handle ?c BIO_CORO_HANDLE (handles ?s)) (\<lambda>(h, ht). made (handles s) h ?c BIO_CORO_HANDLE ht)"
    using make_safe [OF sched_inv_handles [OF I]] by simp
  then show ?thesis
    unfolding bio_spawn_ex_def Let_def
  proof (rule safe_bind, goal_cases)
    case (1 x)
    then obtain h ht where x: "x = (h, ht)" and m: "made (handles s) h ?c BIO_CORO_HANDLE ht" by (cases x) auto
    have nd: "num_daemons (?s1 h ht) = num_daemons s" by simp
    note F = spawn_finish [where s = "?s1 h ht" and d = is_daemon and b = "num_coros s + 1 = 1" and clk = clk and h = h,
      unfolded nd, OF inv1 [OF m] T1 [OF m]]
    have "others_kept s (?s1 h ht)" using made_frame [OF m, of sched_tags] by (simp add: others_kept_def sched_tags_def)
    moreover have "issued ht h" using m by (simp add: made_def)
    ultimately have Q: "(case y of (h', s') \<Rightarrow> h' = h \<and> loop_inv cur run s' \<and> current_ready_coros s' = current_ready_coros (?s1 h ht) \<and> others_kept (?s1 h ht) s') \<Longrightarrow>
        (case y of (h', s') \<Rightarrow> loop_inv cur run s' \<and> current_ready_coros s' = current_ready_coros s \<and> others_kept s s' \<and> issued (handles s') h')" for y
      using others_kept_trans others_kept_issued [of "?s1 h ht" _ h] by (cases y) fastforce
    have "safe (rbind (if num_coros s + 1 = 1 then bio_timer_update clk (?s1 h ht) else Inr (?s1 h ht)) (\<lambda>s.
        if is_daemon then rbind (check32 (num_daemons s + 1)) (\<lambda>nd. Inr (h, s\<lparr>num_daemons := nd\<rparr>)) else Inr (h, s)))
      (\<lambda>(h', s'). loop_inv cur run s' \<and> current_ready_coros s' = current_ready_coros s \<and> others_kept s s' \<and> issued (handles s') h')"
      by (rule safe_mono [OF F]) (erule Q)
    then show ?case
      by (cases "check32 (num_coros s + 1)") (auto simp: x check32_def split: if_splits elim!: safe_mono)
  qed
qed

end
