(* ===== verification/EventLoop.thy ===== *)
theory EventLoop
  imports Scheduler
begin

text \<open>
  Safety of the event loop of theory \<open>Scheduler\<close>: destroying a coroutine, running
  the ready ones and every iteration of \<open>bio_loop\<close> keep the invariant and never
  touch freed memory, whatever the coroutines do through the API.
\<close>

section \<open>The end of a coroutine\<close>

lemma graph_ok_override:
  assumes "map_of (coros s) c = Some k"
  shows "graph_ok [c \<mapsto> pending_signals k] Vm s = graph_ok Map.empty Vm s"
    "graph_ok Vs [c \<mapsto> monitors k] s = graph_ok Vs Map.empty s"
proof -
  have "pending_lists [c \<mapsto> pending_signals k] (map_of (coros s)) = pending_lists Map.empty (map_of (coros s))"
    "monitor_lists [c \<mapsto> monitors k] (map_of (coros s)) = monitor_lists Map.empty (map_of (coros s))"
    using assms by (auto simp: pending_lists_def monitor_lists_def fun_eq_iff map_add_def)
  then show "graph_ok [c \<mapsto> pending_signals k] Vm s = graph_ok Map.empty Vm s"
    "graph_ok Vs [c \<mapsto> monitors k] s = graph_ok Vs Map.empty s" by (simp_all add: graph_ok_def)
qed

lemma lists_override:
  "pending_lists [c \<mapsto> l'] C = (pending_lists [c \<mapsto> l] C)(c \<mapsto> l')"
  "monitor_lists [c \<mapsto> l'] C = (monitor_lists [c \<mapsto> l] C)(c \<mapsto> l')"
  by (auto simp: pending_lists_def monitor_lists_def fun_eq_iff map_add_def)

lemma destroy_signals_safe:
  assumes "sched_inv_gen [c \<mapsto> ps] Vm cur run s"
  shows "safe (destroy_signals ps s) (\<lambda>s'. sched_inv_gen [c \<mapsto> []] Vm cur run s' \<and> sched_frame s s'
    \<and> coros s' = coros s \<and> monitor_impls s' = monitor_impls s)"
  using assms
proof (induction ps arbitrary: s)
  case (Cons p ps)
  note I = sched_invD [OF Cons.prems] and G = graph_okD [OF sched_invD(2) [OF Cons.prems]]
  let ?P = "pending_lists [c \<mapsto> p # ps] (map_of (coros s))" and ?W = "\<lambda>p. map_option sig_owner (map_of (signals s) p)"
  have P: "?P c = Some (p # ps)" by (simp add: pending_lists_def)
  then have W: "?W p = Some c" using linkedD(2) [OF G(5) P, of p] by simp
  then obtain g where g: "map_of (signals s) p = Some g" by auto
  note L = named_handle [OF G(3) g]
  have step: "sched_inv_gen [c \<mapsto> ps] Vm cur run s1 \<and> sched_frame s s1 \<and> coros s1 = coros s \<and> monitor_impls s1 = monitor_impls s"
    if m: "closed (handles s) (sig_handle g) p BIO_SIGNAL_HANDLE ht" and s1: "s1 = s\<lparr>handles := ht, signals := del p (signals s)\<rparr>" for ht s1
  proof -
    have "linked (pending_lists [c \<mapsto> ps] (map_of (coros s))) (?W(p := None))"
      using linked_remove [OF G(5) W P] by (simp add: lists_override(1) [of c ps _ "p # ps"] del: fun_upd_apply)
    then have "graph_ok [c \<mapsto> ps] Vm s1"
      using m G named_closed [OF G(2) m] named_closed_remove [OF G(3) m] named_closed [OF G(4) m]
      by (simp add: s1 graph_ok_def closed_def map_option_upd del: fun_upd_apply)
    moreover have "waits_ok (counters (map_of (coros s))) ((map_of (signals s))(p := None))"
      using I(5) by (auto simp: waits_ok_def)
    ultimately show ?thesis
      using I closed_frame [OF m, of sched_tags] by (simp add: s1 sched_inv_gen_def sched_frame_def sched_tags_def)
  qed
  show ?case
    unfolding destroy_signals.simps deref_Some [OF g] rbind_simps
  proof (rule safe_bind [OF close_safe [OF G(1) L]], goal_cases)
    case (1 x)
    then obtain ht where x: "x = (p, ht)" and m: "closed (handles s) (sig_handle g) p BIO_SIGNAL_HANDLE ht" by (cases x) auto
    note S = step [OF m refl]
    show ?case
      unfolding x prod.case
      by (rule safe_mono [OF Cons.IH [OF conjunct1 [OF S]]]) (use S in \<open>auto intro: sched_frame_trans\<close>)
  qed
qed simp

lemma graph_ok_destroy_monitor:
  assumes ok: "graph_ok Vs [c \<mapsto> p # ms] s" and m: "closed (handles s) h p BIO_MONITOR_HANDLE ht"
  shows "graph_ok Vs [c \<mapsto> ms] (s\<lparr>handles := ht, monitor_impls := del p (monitor_impls s)\<rparr>)"
proof -
  note G = graph_okD [OF ok]
  let ?P = "monitor_lists [c \<mapsto> p # ms] (map_of (coros s))"
  obtain W where W: "dom W = dom (map_of (monitor_impls s))" "linked ?P W" using G(6) by blast
  have P: "?P c = Some (p # ms)" by (simp add: monitor_lists_def)
  have "W p = Some c" using linkedD(2) [OF W(2) P, of p] by simp
  from linked_remove [OF W(2) this P] have "linked (monitor_lists [c \<mapsto> ms] (map_of (coros s))) (W(p := None))"
    by (simp add: lists_override(2) [of c ms _ "p # ms"] del: fun_upd_apply)
  then have "\<exists>W'. dom W' = dom (map_of (monitor_impls s)) - {p} \<and> linked (monitor_lists [c \<mapsto> ms] (map_of (coros s))) W'"
    using W(1) by (intro exI [of _ "W(p := None)"]) simp
  then show ?thesis
    using m G named_closed [OF G(2) m] named_closed [OF G(3) m] named_closed_remove [OF G(4) m]
    by (simp add: graph_ok_def closed_def)
qed

lemma trigger_monitors_safe:
  assumes "sched_inv_gen Vs [c \<mapsto> ms] cur run s" "emptied Vs"
  shows "safe (trigger_monitors ms s) (\<lambda>s'. sched_inv_gen Vs [c \<mapsto> []] cur run s' \<and> sched_frame s s'
    \<and> dom (map_of (coros s')) = dom (map_of (coros s)))"
  using assms
proof (induction ms arbitrary: s)
  case (Cons p ms)
  note G = graph_okD [OF sched_invD(2) [OF Cons.prems(1)]]
  obtain W where W: "dom W = dom (map_of (monitor_impls s))" "linked (monitor_lists [c \<mapsto> p # ms] (map_of (coros s))) W"
    using G(6) by blast
  have "W p = Some c" using linkedD(2) [OF W(2), of c "p # ms" p] by (simp add: monitor_lists_def)
  then obtain x where x: "map_of (monitor_impls s) p = Some x" using W(1) by auto
  show ?case
    unfolding trigger_monitors.simps deref_Some [OF x] rbind_simps
  proof (rule safe_bind [OF raise_signal_safe [OF Cons.prems G(7) [OF x]]], goal_cases)
    case (1 y)
    then obtain w s1 where y: "y = (w, s1)" and inv1: "sched_inv_gen Vs [c \<mapsto> p # ms] cur run s1" and fr: "sched_frame s s1"
      "monitor_impls s1 = monitor_impls s" "dom (map_of (coros s1)) = dom (map_of (coros s))"
      by (cases y) (auto simp del: fun_upd_apply)
    note I1 = sched_invD [OF inv1] and G1 = graph_okD [OF sched_invD(2) [OF inv1]]
    have x1: "map_of (monitor_impls s1) p = Some x" using x fr by simp
    show ?case
      unfolding y prod.case
    proof (rule safe_bind [OF close_safe [OF G1(1) named_handle [OF G1(4) x1]]], goal_cases)
      case (1 z)
      then obtain ht where z: "z = (p, ht)" and m: "closed (handles s1) (mon_handle x) p BIO_MONITOR_HANDLE ht" by (cases z) auto
      let ?s2 = "s1\<lparr>handles := ht, monitor_impls := del p (monitor_impls s1)\<rparr>"
      have inv2: "sched_inv_gen Vs [c \<mapsto> ms] cur run ?s2" and fr2: "sched_frame s1 ?s2"
        using graph_ok_destroy_monitor [OF I1(2) m] I1 closed_frame [OF m, of sched_tags]
        by (simp_all add: sched_inv_gen_def sched_frame_def sched_tags_def)
      show ?case
        unfolding z prod.case
        by (rule safe_mono [OF Cons.IH [OF inv2 Cons.prems(2)]]) (use fr fr2 in \<open>auto intro: sched_frame_trans\<close>)
    qed
  qed
qed simp

text \<open>Freeing the coroutine itself.\<close>

lemma graph_ok_del_coro:
  assumes ok: "graph_ok [c \<mapsto> []] [c \<mapsto> []] s" and k: "map_of (coros s) c = Some k"
    and m: "closed (handles s) (coro_handle k) c BIO_CORO_HANDLE ht"
  shows "graph_ok Map.empty Map.empty (s\<lparr>handles := ht, coros := del c (coros s)\<rparr>)"
proof -
  note G = graph_okD [OF ok]
  have P: "pending_lists Map.empty ((map_of (coros s))(c := None)) = (pending_lists [c \<mapsto> []] (map_of (coros s)))(c := None)"
    "monitor_lists Map.empty ((map_of (coros s))(c := None)) = (monitor_lists [c \<mapsto> []] (map_of (coros s)))(c := None)"
    by (auto simp: pending_lists_def monitor_lists_def fun_eq_iff map_add_def)
  obtain W where W: "dom W = dom (map_of (monitor_impls s))" "linked (monitor_lists [c \<mapsto> []] (map_of (coros s))) W"
    using G(6) by blast
  have "linked ((pending_lists [c \<mapsto> []] (map_of (coros s)))(c := None)) (\<lambda>p. map_option sig_owner (map_of (signals s) p))"
    by (rule linked_del [OF G(5)]) (simp add: pending_lists_def)
  moreover have "linked ((monitor_lists [c \<mapsto> []] (map_of (coros s)))(c := None)) W"
    by (rule linked_del [OF W(2)]) (simp add: monitor_lists_def)
  ultimately show ?thesis
    using m W(1) G named_closed_remove [OF G(2) m] named_closed [OF G(3) m] named_closed [OF G(4) m]
    by (auto simp: graph_ok_def P closed_def simp del: fun_upd_apply)
qed

lemma queue_ok_del:
  assumes "queue_ok cur (Some c) q st"
  shows "queue_ok cur None q (st(c := None))"
  using assms queue_ok_ready [OF assms, of c] queue_ok_running [OF assms, of c]
  by (auto simp: queue_ok_def)

lemma count_ok_del:
  assumes "count_ok nc nd dm" "dm c = Some d" "finite (dom dm)"
  shows "count_ok (nc - 1) (if d then nd - 1 else nd) (dm(c := None))"
proof -
  let ?D = "{a. dm a = Some True}"
  have D: "{a. (dm(c := None)) a = Some True} = ?D - {c}" by auto
  have f: "finite ?D" by (rule finite_subset [OF _ assms(3)]) auto
  have c: "c \<in> dom dm" using assms(2) by auto
  have "int (card (dom dm - {c})) = int (card (dom dm)) - 1"
    using card_Suc_Diff1 [OF assms(3) c] by linarith
  moreover have "int (card (?D - {c})) = (if d then int (card ?D) - 1 else int (card ?D))"
    using card_Suc_Diff1 [OF f, of c] assms(2) by (cases d) auto
  ultimately show ?thesis using assms(1) by (simp add: count_ok_def D del: fun_upd_apply)
qed

lemma views_del:
  "states (C(c := None)) = (states C)(c := None)" "daemons (C(c := None)) = (daemons C)(c := None)"
  "counters (C(c := None)) = (counters C)(c := None)"
  by (auto simp: states_def daemons_def counters_def)

lemma free_coro_safe:
  assumes inv: "sched_inv_gen [c \<mapsto> []] [c \<mapsto> []] cur (Some c) s" and t: "timer_inv s"
  shows "safe (free_coro destroy c s) (\<lambda>s'. loop_inv cur None s' \<and> current_ready_coros s' = current_ready_coros s
    \<and> map_of (coros s') = (map_of (coros s))(c := None))"
proof -
  note I = sched_invD [OF inv] and G = graph_okD [OF sched_invD(2) [OF inv]]
  obtain k where k: "map_of (coros s) c = Some k"
    using queue_ok_running [OF I(3), of c] by (auto simp: states_def)
  have d: "daemons (map_of (coros s)) c = Some (daemon k)" using k by (simp add: daemons_def)
  have post: "loop_inv cur None s' \<and> current_ready_coros s' = current_ready_coros s \<and> map_of (coros s') = (map_of (coros s))(c := None)"
    if m: "closed (handles s) (coro_handle k) c BIO_CORO_HANDLE ht"
      and s': "s' = s\<lparr>world := w, handles := ht, num_coros := num_coros s - 1,
        num_daemons := (if daemon k then num_daemons s - 1 else num_daemons s), coros := del c (coros s)\<rparr>" for ht w s'
  proof -
    have "graph_ok Map.empty Map.empty s'"
      using graph_ok_del_coro [OF I(2) k m] by (simp add: s' graph_ok_def)
    moreover have "count_ok (num_coros s') (num_daemons s') ((daemons (map_of (coros s)))(c := None))"
      unfolding s' using count_ok_del [OF I(4) d finite_daemons] by (simp del: fun_upd_apply)
    moreover have "waits_ok ((counters (map_of (coros s)))(c := None)) (map_of (signals s))"
      using I(5) by (auto simp: waits_ok_def)
    ultimately have "sched_inv cur None s'"
      using I(1) queue_ok_del [OF I(3)] by (simp add: sched_inv_gen_def s' views_del)
    moreover have "timer_inv s'" using t m by (auto simp: timer_inv_def timers_of_def s' closed_def)
    ultimately show ?thesis by (simp add: loop_inv_def s')
  qed
  show ?thesis
    unfolding free_coro_def deref_Some [OF k] rbind_simps Let_def
  proof (rule safe_bind [where P = "\<lambda>(q, ht). closed (handles s) (coro_handle k) c BIO_CORO_HANDLE ht"], goal_cases)
    case 1
    show ?case using close_safe [OF G(1) named_handle [OF G(2) k]] by (auto elim!: safe_mono)
  next
    case (2 x)
    then show ?case using post [OF _ refl] by (cases "daemon k") (auto split: prod.splits)
  qed
qed

section \<open>Daemons\<close>

text \<open>The part of \<open>bio_wait_for_exit\<close> that makes the calling coroutine a daemon.\<close>

definition daemonize :: "addr \<Rightarrow> 'w bio_ctx \<Rightarrow> 'w bio_ctx outcome" where
  "daemonize self s =
    rbind (deref (coros s) self) (\<lambda>coro.
    if \<not> daemon coro
    then rbind (check32 (num_daemons s + 1)) (\<lambda>nd.
         Inr (s\<lparr>coros := put self (coro\<lparr>daemon := True\<rparr>) (coros s), num_daemons := nd\<rparr>))
    else Inr s)"

lemma count_ok_daemon:
  assumes "count_ok nc nd dm" "dm c = Some False" "finite (dom dm)"
  shows "count_ok nc (nd + 1) (dm(c \<mapsto> True))"
proof -
  have "{a. (dm(c \<mapsto> True)) a = Some True} = insert c {a. dm a = Some True}" by auto
  moreover have "finite {a. dm a = Some True}" by (rule finite_subset [OF _ assms(3)]) auto
  moreover have "dom (dm(c \<mapsto> True)) = dom dm" using assms(2) by auto
  ultimately show ?thesis using assms(1,2) by (simp add: count_ok_def)
qed

lemma daemonize_safe:
  assumes "loop_inv cur run s" "map_of (coros s) self \<noteq> None"
  shows "safe (daemonize self s) (\<lambda>s'. loop_inv cur run s' \<and> current_ready_coros s' = current_ready_coros s
    \<and> others_kept s s' \<and> handles s' = handles s \<and> signals s' = signals s \<and> states (map_of (coros s')) = states (map_of (coros s)))"
proof -
  obtain k where k: "map_of (coros s) self = Some k" using assms(2) by blast
  have inv: "sched_inv cur run s" and T: "timer_inv s" using assms(1) by (simp_all add: loop_inv_def)
  note I = sched_invD [OF inv]
  let ?k = "k\<lparr>daemon := True\<rparr>"
  have v: "states ((map_of (coros s))(self \<mapsto> ?k)) = states (map_of (coros s))"
    "counters ((map_of (coros s))(self \<mapsto> ?k)) = counters (map_of (coros s))"
    using views_same [of "map_of (coros s)", OF k, of ?k] by simp_all
  have "loop_inv cur run (s\<lparr>coros := put self ?k (coros s), num_daemons := num_daemons s + 1\<rparr>)" if "\<not> daemon k"
  proof -
    have "graph_ok Map.empty Map.empty (s\<lparr>coros := put self ?k (coros s)\<rparr>)" by (rule graph_ok_coro [OF I(2) k]) simp_all
    moreover have "count_ok (num_coros s) (num_daemons s + 1) ((daemons (map_of (coros s)))(self \<mapsto> True))"
      by (rule count_ok_daemon [OF I(4) _ finite_daemons]) (simp add: daemons_def k that)
    ultimately show ?thesis
      using I T by (simp add: loop_inv_def sched_inv_gen_def v views_upd(2) graph_ok_def timer_inv_def timers_of_def)
  qed
  then show ?thesis using assms(1) v(1) k by (auto simp: daemonize_def others_kept_def)
qed

section \<open>What application code can do\<close>

text \<open>
  A call of the API by the coroutine \<open>self\<close> (\<open>NULL\<close>: by a callback outside of any
  coroutine) and its outcome. The handles it passes are ones it was given. The
  components that are built on top of the scheduler (mailboxes, timers, buffers,
  loggers, files, sockets, the thread pool) make handles of their own kinds and
  change their own part of the context, which is covered here as well, as are
  the coroutine-local storage and the coroutines that wait for the exit.
\<close>

inductive api_call ::
    "('w \<Rightarrow> int \<times> 'w) \<Rightarrow> (addr \<Rightarrow> 'w \<Rightarrow> 'w) \<Rightarrow> addr \<Rightarrow> 'w bio_ctx \<Rightarrow> 'w bio_ctx outcome \<Rightarrow> bool" for clk create self where
  call_make_signal: "api_call clk create self s (rbind (bio_make_signal self s) (\<lambda>(_, s). Inr s))"
| call_raise_signal: "issued (handles s) h \<Longrightarrow> api_call clk create self s (rbind (bio_raise_signal h s) (\<lambda>(_, s). Inr s))"
| call_raise_signal_after: "issued (handles s) h \<Longrightarrow> api_call clk create self s (bio_raise_signal_after h ms s)"
| call_wait_for_signals: "\<forall>h \<in> set hs. issued (handles s) h \<Longrightarrow>
    api_call clk create self s (rbind (wait_prepare self hs wait_all s) (\<lambda>(_, s). Inr s))"
| call_monitor: "issued (handles s) coro \<Longrightarrow> issued (handles s) signal \<Longrightarrow>
    api_call clk create self s (rbind (bio_monitor coro signal s) (\<lambda>(_, s). Inr s))"
| call_unmonitor: "issued (handles s) h \<Longrightarrow> api_call clk create self s (bio_unmonitor h s)"
| call_spawn: "api_call clk create self s (rbind (bio_spawn_ex clk create fn data is_daemon s) (\<lambda>(_, s). Inr s))"
| call_set_coro_data: "api_call clk create self s (bio_set_coro_data self data tag s)"
| call_set_coro_name: "api_call clk create self s (bio_set_coro_name self nm s)"
| call_set_cls: "map_of (coros s) self = Some k \<Longrightarrow>
    api_call clk create self s (Inr (s\<lparr>coros := put self (k\<lparr>cls_buckets := bs\<rparr>) (coros s)\<rparr>))"
| call_daemonize: "map_of (coros s) self \<noteq> None \<Longrightarrow> api_call clk create self s (daemonize self s)"
| call_make_handle: "t \<notin> sched_tags \<Longrightarrow>
    api_call clk create self s (rbind (bio_make_handle p t (handles s)) (\<lambda>(_, ht). Inr (s\<lparr>handles := ht\<rparr>)))"
| call_close_handle: "t \<notin> sched_tags \<Longrightarrow> issued (handles s) h \<Longrightarrow>
    api_call clk create self s (rbind (bio_close_handle h t (handles s)) (\<lambda>(_, ht). Inr (s\<lparr>handles := ht\<rparr>)))"
| call_own_code: "api_call clk create self s (Inr (s\<lparr>world := w, rest := r, mailboxes := mb, timer_impls := ti\<rparr>))"

text \<open>A run of application code: any number of calls; it fails only when a call fails.\<close>

inductive api_run ::
    "('w \<Rightarrow> int \<times> 'w) \<Rightarrow> (addr \<Rightarrow> 'w \<Rightarrow> 'w) \<Rightarrow> addr \<Rightarrow> 'w bio_ctx \<Rightarrow> 'w bio_ctx outcome \<Rightarrow> bool" for clk create self where
  run_end: "api_run clk create self s (Inr s)"
| run_fault: "api_call clk create self s (Inl e) \<Longrightarrow> api_run clk create self s (Inl e)"
| run_call: "api_call clk create self s (Inr s') \<Longrightarrow> api_run clk create self s' r \<Longrightarrow> api_run clk create self s r"

definition app_post :: "addr list \<Rightarrow> addr option \<Rightarrow> 'w bio_ctx \<Rightarrow> 'w bio_ctx \<Rightarrow> bool" where
  "app_post cur run s s' \<longleftrightarrow> loop_inv cur run s' \<and> current_ready_coros s' = current_ready_coros s"

lemma app_post_sched: "timer_inv s \<Longrightarrow> sched_inv cur run s' \<Longrightarrow> sched_frame s s' \<Longrightarrow> app_post cur run s s'"
  by (auto simp: app_post_def loop_inv_def intro: timer_inv_frame) (simp add: sched_frame_def)

lemma set_coro_safe:
  assumes "loop_inv cur run s" "self = NULL \<or> run = Some self"
  shows "safe (bio_set_coro_data self data tag s) (app_post cur run s)" "safe (bio_set_coro_name self nm s) (app_post cur run s)"
proof -
  have I: "sched_inv cur run s" "timer_inv s" using assms(1) by (simp_all add: loop_inv_def)
  have "safe (bio_set_coro_data self data tag s) (app_post cur run s) \<and> safe (bio_set_coro_name self nm s) (app_post cur run s)"
  proof (cases "self = NULL")
    case True
    then show ?thesis using assms(1) by (simp add: bio_set_coro_data_def bio_set_coro_name_def app_post_def)
  next
    case False
    then obtain k where k: "map_of (coros s) self = Some k"
      using assms(2) queue_ok_running [OF sched_invD(3) [OF I(1)], of self] by (auto simp: states_def)
    have "app_post cur run s (s\<lparr>coros := put self k' (coros s)\<rparr>)"
      if "k' = k\<lparr>extra_data := data, extra_data_tag := tag\<rparr> \<or> k' = k\<lparr>coro_name := nm\<rparr>" for k'
      by (rule app_post_sched [OF I(2) sched_inv_coro [OF I(1) k]]) (use that in \<open>auto simp: sched_frame_def\<close>)
    with False k show ?thesis by (simp add: bio_set_coro_data_def bio_set_coro_name_def)
  qed
  then show "safe (bio_set_coro_data self data tag s) (app_post cur run s)" "safe (bio_set_coro_name self nm s) (app_post cur run s)"
    by simp_all
qed

lemma api_call_safe:
  assumes "api_call clk create self s r" "loop_inv cur run s" "self = NULL \<or> run = Some self"
  shows "safe r (app_post cur run s)"
proof -
  have I: "sched_inv cur run s" "timer_inv s" using assms(2) by (simp_all add: loop_inv_def)
  have self: "self \<noteq> NULL \<Longrightarrow> map_of (coros s) self \<noteq> None"
    using assms(3) queue_ok_running [OF sched_invD(3) [OF I(1)], of self] by (auto simp: states_def)
  note post = app_post_sched [OF I(2)]
  from assms(1) show ?thesis
  proof cases
    case call_make_signal
    then show ?thesis using make_signal_safe [OF I(1) self refl] by (auto elim!: safe_mono intro: post)
  next
    case (call_raise_signal h)
    then show ?thesis using raise_signal_safe [OF I(1) emptied_simps(1) call_raise_signal(2)] by (auto elim!: safe_mono intro: post)
  next
    case (call_raise_signal_after h ms)
    then show ?thesis using raise_after_safe [OF I(1) emptied_simps(1) I(2) call_raise_signal_after(2), of ms]
      by (auto elim!: safe_mono simp: app_post_def loop_inv_def timer_frame_def sched_frame_def)
  next
    case (call_wait_for_signals hs wait_all)
    then show ?thesis
    proof (cases "self = NULL")
      case True
      then show ?thesis using call_wait_for_signals assms(2) by (simp add: wait_prepare_def app_post_def)
    next
      case False
      then have "run = Some self" using assms(3) by simp
      with wait_prepare_safe [of Map.empty Map.empty cur self s hs wait_all] I(1) call_wait_for_signals
      show ?thesis by (auto elim!: safe_mono intro: post)
    qed
  next
    case (call_monitor coro signal)
    then show ?thesis using monitor_safe [OF I(1) emptied_simps(1) refl call_monitor(2,3)] by (auto elim!: safe_mono intro: post)
  next
    case (call_unmonitor h)
    then show ?thesis using unmonitor_safe [OF I(1) emptied_simps(1) call_unmonitor(2)] by (auto elim!: safe_mono intro: post)
  next
    case (call_spawn fn data is_daemon)
    then show ?thesis using spawn_safe [OF assms(2), of clk create fn data is_daemon] by (auto elim!: safe_mono simp: app_post_def)
  next
    case (call_set_coro_data data tag)
    then show ?thesis using set_coro_safe(1) [OF assms(2,3)] by simp
  next
    case (call_set_coro_name nm)
    then show ?thesis using set_coro_safe(2) [OF assms(2,3)] by simp
  next
    case (call_set_cls k bs)
    have "app_post cur run s (s\<lparr>coros := put self (k\<lparr>cls_buckets := bs\<rparr>) (coros s)\<rparr>)"
      by (rule post [OF sched_inv_coro [OF I(1) call_set_cls(2)]]) (simp_all add: sched_frame_def)
    then show ?thesis using call_set_cls(1) by simp
  next
    case call_daemonize
    then show ?thesis using daemonize_safe [OF assms(2), of self] by (auto elim!: safe_mono simp: app_post_def)
  next
    case (call_make_handle t p)
    have "app_post cur run s (s\<lparr>handles := ht\<rparr>)" if "made (handles s) h p t ht" for h ht
      using that made_frame [OF that, of "{t}"] call_make_handle(2) sched_inv_table [OF I(1), of ht "{t}"] I(2)
      by (auto simp: app_post_def loop_inv_def made_def timer_inv_def timers_of_def)
    then show ?thesis
      unfolding call_make_handle(1) by (intro safe_bind [OF make_safe [OF sched_inv_handles [OF I(1)]]]) auto
  next
    case (call_close_handle t h)
    have "safe (bio_close_handle h t (handles s)) (\<lambda>(_, ht). app_post cur run s (s\<lparr>handles := ht\<rparr>))"
    proof (cases "\<exists>p. lookup_handle (handles s) h = Some (p, t)")
      case True
      then obtain p where p: "lookup_handle (handles s) h = Some (p, t)" by blast
      have "app_post cur run s (s\<lparr>handles := ht\<rparr>)" if "closed (handles s) h p t ht" for ht
        using that closed_frame [OF that, of "{t}"] call_close_handle(2) sched_inv_table [OF I(1), of ht "{t}"] I(2)
        by (auto simp: app_post_def loop_inv_def closed_def timer_inv_def timers_of_def)
      then show ?thesis by (intro safe_mono [OF close_safe [OF sched_inv_handles [OF I(1)] p]]) auto
    next
      case False
      then show ?thesis using close_none [OF sched_inv_handles [OF I(1)] call_close_handle(3)] assms(2) by (simp add: app_post_def)
    qed
    then show ?thesis unfolding call_close_handle(1) by (auto elim!: safe_mono)
  next
    case (call_own_code w r mb ti)
    then show ?thesis using assms(2) by (simp add: app_post_def loop_inv_def timer_inv_def timers_of_def)
  qed
qed

lemma api_run_safe:
  assumes "api_run clk create self s r" "loop_inv cur run s" "self = NULL \<or> run = Some self"
  shows "safe r (app_post cur run s)"
  using assms
proof induction
  case (run_end s)
  then show ?case by (simp add: app_post_def)
next
  case (run_fault s e)
  then show ?case using api_call_safe [OF run_fault.hyps] by simp
next
  case (run_call s s' r)
  have s': "loop_inv cur run s'" "current_ready_coros s' = current_ready_coros s"
    using api_call_safe [OF run_call.hyps(1) run_call.prems] by (simp_all add: app_post_def)
  show ?case by (rule safe_mono [OF run_call.IH [OF s'(1) run_call.prems(2)]]) (simp add: app_post_def s')
qed

text \<open>
  What the loop relies on: the coroutines, the cleanup callbacks, the platform
  layer and the completion of worker jobs act on the context through the API only.
\<close>

definition env_ok :: "(addr \<Rightarrow> 'w \<Rightarrow> 'w) \<Rightarrow> 'w env \<Rightarrow> bool" where
  "env_ok create E \<longleftrightarrow>
     (\<forall>c s. api_run (clock E) create c s (rbind (mco_resume E c s) (\<lambda>(_, s). Inr s)))
   \<and> (\<forall>spec f data s. cls_cleanup E spec = Some f \<longrightarrow> api_run (clock E) create NULL s (f data s))
   \<and> (\<forall>timeout notifiable s. api_run (clock E) create NULL s (platform_update E timeout notifiable s))
   \<and> (\<forall>s. api_run (clock E) create NULL s (thread_update E s))"

lemma env_okD:
  assumes "env_ok create E" "loop_inv cur run s"
  shows "run = Some c \<Longrightarrow> safe (mco_resume E c s) (\<lambda>(_, s'). app_post cur run s s')"
    "cls_cleanup E spec = Some f \<Longrightarrow> safe (f data s) (app_post cur run s)"
    "safe (platform_update E timeout notifiable s) (app_post cur run s)"
    "safe (thread_update E s) (app_post cur run s)"
proof -
  show "safe (mco_resume E c s) (\<lambda>(_, s'). app_post cur run s s')" if "run = Some c"
  proof -
    have "api_run (clock E) create c s (rbind (mco_resume E c s) (\<lambda>(_, s). Inr s))" using assms(1) by (simp add: env_ok_def)
    from api_run_safe [OF this assms(2)] that show ?thesis by (auto elim!: safe_mono)
  qed
  show "safe (f data s) (app_post cur run s)" if "cls_cleanup E spec = Some f"
    using assms that by (intro api_run_safe [of "clock E" create NULL]) (auto simp: env_ok_def)
  show "safe (platform_update E timeout notifiable s) (app_post cur run s)" "safe (thread_update E s) (app_post cur run s)"
    using assms by (auto intro!: api_run_safe [of "clock E" create NULL] simp: env_ok_def)
qed

section \<open>Running coroutines\<close>

lemma cleanup_entries_safe:
  assumes "env_ok create E" "loop_inv cur run s"
  shows "safe (cleanup_entries (cls_cleanup E) es s) (app_post cur run s)"
  using assms(2)
proof (induction es arbitrary: s)
  case Nil
  then show ?case by (simp add: app_post_def)
next
  case (Cons e es)
  have "safe (case cls_cleanup E (cls_spec e) of None \<Rightarrow> Inr s | Some f \<Rightarrow> f (cls_data e) s) (app_post cur run s)"
    using env_okD(2) [OF assms(1) Cons.prems] Cons.prems by (auto simp: app_post_def split: option.split)
  then show ?case
    unfolding cleanup_entries.simps
  proof (rule safe_bind)
    fix s' assume s': "app_post cur run s s'"
    then have "loop_inv cur run s'" by (simp add: app_post_def)
    from Cons.IH [OF this] s' show "safe (cleanup_entries (cls_cleanup E) es s') (app_post cur run s)"
      by (auto elim!: safe_mono simp: app_post_def)
  qed
qed

lemma running_coro:
  assumes "sched_inv_gen Vs Vm cur (Some c) s"
  obtains k where "map_of (coros s) c = Some k" "coro_state k = BIO_CORO_RUNNING"
  using queue_ok_running [OF sched_invD(3) [OF assms], of c] that by (auto simp: states_def)

lemma destroy_coro_safe:
  assumes E: "env_ok create E" and inv: "loop_inv cur (Some c) s"
  shows "safe (destroy_coro (cls_cleanup E) destroy c s) (app_post cur None s)"
proof -
  have "sched_inv cur (Some c) s" using inv by (simp add: loop_inv_def)
  then obtain k where k: "map_of (coros s) c = Some k" using running_coro by blast
  show ?thesis
    unfolding destroy_coro_def deref_Some [OF k] rbind_simps
  proof (rule safe_bind [OF cleanup_entries_safe [OF E inv]], goal_cases)
    case (1 s1)
    then have s1: "sched_inv cur (Some c) s1" "timer_inv s1" "current_ready_coros s1 = current_ready_coros s"
      by (auto simp: app_post_def loop_inv_def)
    obtain k1 where k1: "map_of (coros s1) c = Some k1" using running_coro [OF s1(1)] by blast
    have inv1: "sched_inv_gen [c \<mapsto> pending_signals k1] Map.empty cur (Some c) s1"
      using s1(1) graph_ok_override(1) [OF k1] by (simp add: sched_inv_gen_def del: fun_upd_apply)
    show ?case
      unfolding deref_Some [OF k1] rbind_simps
    proof (rule safe_bind [OF destroy_signals_safe [OF inv1]], goal_cases)
      case (1 s2)
      have k2: "map_of (coros s2) c = Some k1" using 1 k1 by simp
      have inv2: "sched_inv_gen [c \<mapsto> []] [c \<mapsto> monitors k1] cur (Some c) s2"
        using conjunct1 [OF 1] unfolding sched_inv_gen_def graph_ok_override(2) [OF k2] .
      have fr2: "sched_frame s1 s2" and t2: "timer_inv s2" using timer_inv_frame [OF s1(2)] 1 by simp_all
      show ?case
        unfolding deref_Some [OF k2] rbind_simps
      proof (rule safe_bind [OF trigger_monitors_safe [OF inv2 emptied_simps(2)]], goal_cases)
        case (1 s3)
        have "current_ready_coros s3 = current_ready_coros s"
          using 1 fr2 s1(3) by (simp add: sched_frame_def)
        with free_coro_safe [of c cur s3 destroy] 1 timer_inv_frame [OF t2, of s3] show ?case
          by (auto elim!: safe_mono simp: app_post_def simp del: fun_upd_apply)
      qed
    qed
  qed
qed

lemma queue_ok_start:
  assumes "queue_ok (c # cur) None q st"
  shows "queue_ok cur (Some c) q (st(c \<mapsto> (BIO_CORO_RUNNING, 0)))"
  using assms by (auto simp: queue_ok_def)

lemma queue_ok_stop:
  assumes "queue_ok cur (Some c) q st" "st c = Some (BIO_CORO_RUNNING, n)"
  shows "0 < n \<Longrightarrow> queue_ok cur None q (st(c \<mapsto> (BIO_CORO_WAITING, n)))"
    "\<not> 0 < n \<Longrightarrow> queue_ok cur None (bio_array_push q c) (st(c \<mapsto> (BIO_CORO_READY, n)))"
proof -
  have c: "c \<notin> set cur" "c \<notin> set (array_list q)" using queue_ok_ready [OF assms(1), of c] assms(2) by auto
  with assms show "0 < n \<Longrightarrow> queue_ok cur None q (st(c \<mapsto> (BIO_CORO_WAITING, n)))"
    "\<not> 0 < n \<Longrightarrow> queue_ok cur None (bio_array_push q c) (st(c \<mapsto> (BIO_CORO_READY, n)))"
    by (auto simp: queue_ok_def)
qed

text \<open>Changing the state of one coroutine, with the queue to match.\<close>

lemma loop_inv_state:
  assumes inv: "loop_inv cur run s" and k: "map_of (coros s) c = Some k"
    and q: "queue_ok cur' run' q ((states (map_of (coros s)))(c \<mapsto> (x, n)))"
  shows "loop_inv cur' run' (s\<lparr>coros := put c (k\<lparr>coro_state := x, num_blocking_signals := n\<rparr>) (coros s), next_ready_coros := q\<rparr>)"
proof -
  let ?k = "k\<lparr>coro_state := x, num_blocking_signals := n\<rparr>"
  have I: "sched_inv cur run s" "timer_inv s" using inv by (simp_all add: loop_inv_def)
  have "graph_ok Map.empty Map.empty (s\<lparr>coros := put c ?k (coros s)\<rparr>)"
    by (rule graph_ok_coro [OF sched_invD(2) [OF I(1)] k]) simp_all
  moreover have "daemons ((map_of (coros s))(c \<mapsto> ?k)) = daemons (map_of (coros s))"
    "counters ((map_of (coros s))(c \<mapsto> ?k)) = counters (map_of (coros s))"
    using views_same [of "map_of (coros s)", OF k, of ?k] by simp_all
  ultimately show ?thesis
    using I q by (simp add: loop_inv_def sched_inv_gen_def views_upd(1) timer_inv_def timers_of_def graph_ok_def)
qed

lemma run_coro_safe:
  assumes E: "env_ok create E" and inv: "loop_inv (c # cur) None s"
  shows "safe (run_coro E c s) (app_post cur None s)"
proof -
  have I: "sched_inv (c # cur) None s" using inv by (simp add: loop_inv_def)
  note Q = sched_invD(3) [OF I]
  obtain k where k: "map_of (coros s) c = Some k" using queue_ok_ready [OF Q, of c] by (auto simp: states_def)
  let ?s = "s\<lparr>coros := put c (k\<lparr>coro_state := BIO_CORO_RUNNING, num_blocking_signals := 0\<rparr>) (coros s)\<rparr>"
  have inv1: "loop_inv cur (Some c) ?s"
    using loop_inv_state [OF inv k queue_ok_start [OF Q]] by simp
  show ?thesis
    unfolding run_coro_def deref_Some [OF k] rbind_simps Let_def
  proof (rule safe_bind [OF env_okD(1) [OF E inv1 refl]], goal_cases)
    case (1 x)
    then obtain dead s1 where x: "x = (dead, s1)" and s1: "loop_inv cur (Some c) s1" "current_ready_coros s1 = current_ready_coros s"
      by (cases x) (auto simp: app_post_def)
    show ?case
    proof (cases dead)
      case True
      then show ?thesis using destroy_coro_safe [OF E s1(1), of "mco_destroy E"] s1(2)
        by (auto simp: x app_post_def elim!: safe_mono)
    next
      case False
      have I1: "sched_inv cur (Some c) s1" using s1(1) by (simp add: loop_inv_def)
      obtain k1 where k1: "map_of (coros s1) c = Some k1" "coro_state k1 = BIO_CORO_RUNNING" using running_coro [OF I1] by blast
      have st: "states (map_of (coros s1)) c = Some (BIO_CORO_RUNNING, num_blocking_signals k1)" using k1 by (simp add: states_def)
      note stop = queue_ok_stop [OF sched_invD(3) [OF I1] st]
      show ?thesis
        using loop_inv_state [OF s1(1) k1(1) stop(1)] loop_inv_state [OF s1(1) k1(1) stop(2)] False s1(2) k1(1)
        by (cases "0 < num_blocking_signals k1") (simp_all add: x app_post_def)
    qed
  qed
qed

lemma run_round_safe:
  assumes E: "env_ok create E"
  shows "array_inv (current_ready_coros s) \<Longrightarrow> n = bio_array_len (current_ready_coros s) \<Longrightarrow>
    loop_inv (drop i (array_list (current_ready_coros s))) None s \<Longrightarrow> i \<le> n \<Longrightarrow>
    safe (run_round E i n s) (app_post [] None s)"
  using E
proof (induction E i n s rule: run_round.induct)
  case (1 E i n s)
  let ?L = "array_list (current_ready_coros s)"
  have len: "length ?L = n" using 1(2,3) by simp
  show ?case
  proof (cases "i < n")
    case False
    then have "run_round E i n s = Inr s" by (simp add: run_round.simps [of E i])
    then show ?thesis using 1(4,5) False len by (simp add: app_post_def)
  next
    case True
    have inv: "loop_inv (?L ! i # drop (Suc i) ?L) None s"
      using 1(4) True len by (simp add: Cons_nth_drop_Suc)
    have get: "array_get (current_ready_coros s) i = Inr (?L ! i)" using 1(2,3) True by simp
    note R = run_coro_safe [OF 1(6) inv]
    show ?thesis
    proof (cases "run_coro E (?L ! i) s")
      case (Inl e)
      then show ?thesis using R True get by (simp add: run_round.simps [of E i])
    next
      case (Inr s')
      then have s': "loop_inv (drop (Suc i) ?L) None s'" "current_ready_coros s' = current_ready_coros s"
        using R by (simp_all add: app_post_def)
      have "safe (run_round E (i + 1) n s') (app_post [] None s')"
        using 1(1) [OF True get Inr] s' 1(2-6) True by simp
      then have "safe (run_round E (i + 1) n s') (app_post [] None s)" by (rule safe_mono) (simp add: app_post_def s')
      with True get Inr show ?thesis by (simp add: run_round.simps [of E i])
    qed
  qed
qed

section \<open>The loop\<close>

text \<open>The invariant at the top of the loop: the current list holds the coroutines to run.\<close>

definition ready_inv :: "'w bio_ctx \<Rightarrow> bool" where
  "ready_inv s \<longleftrightarrow> array_inv (current_ready_coros s) \<and> loop_inv (array_list (current_ready_coros s)) None s"

text \<open>Between two rounds: the current list is empty and every ready coroutine is queued.\<close>

definition idle_inv :: "'w bio_ctx \<Rightarrow> bool" where
  "idle_inv s \<longleftrightarrow> array_inv (current_ready_coros s) \<and> array_list (current_ready_coros s) = [] \<and> loop_inv [] None s"

lemma idle_post: "idle_inv s \<Longrightarrow> app_post [] None s s' \<Longrightarrow> idle_inv s'"
  by (simp add: idle_inv_def app_post_def)

lemma swap_ready_inv:
  assumes "idle_inv s"
  shows "ready_inv (swap_ready s)"
proof -
  have I: "sched_inv [] None s" "timer_inv s" using assms by (simp_all add: idle_inv_def loop_inv_def)
  have q: "queue_ok [] None (next_ready_coros s) (states (map_of (coros s)))" using sched_invD(3) [OF I(1)] .
  then have "queue_ok (array_list (next_ready_coros s)) None (current_ready_coros s) (states (map_of (coros s)))"
    using assms by (simp add: queue_ok_def idle_inv_def)
  with I q show ?thesis
    by (simp add: ready_inv_def loop_inv_def swap_ready_def sched_inv_gen_def timer_inv_def timers_of_def graph_ok_def queue_ok_def)
qed

lemma timer_update_idle: "idle_inv s \<Longrightarrow> safe (bio_timer_update clk s) idle_inv"
  by (rule safe_mono [OF timer_update_safe [of Map.empty Map.empty "[]" None s]])
    (auto simp: idle_inv_def loop_inv_def timer_frame_def sched_frame_def)

lemma poll_events_safe:
  assumes E: "env_ok create E" and inv: "idle_inv s"
  shows "safe (poll_events E s) idle_inv"
proof -
  have upd: "safe (thread_update E s) idle_inv" if "idle_inv s" for s
    by (rule safe_mono [OF env_okD(4) [OF E, of "[]" None s] idle_post [OF that]]) (use that in \<open>simp add: idle_inv_def\<close>)
  have io: "safe (platform_update E t b s) idle_inv" if "idle_inv s" for s t b
    by (rule safe_mono [OF env_okD(3) [OF E, of "[]" None s] idle_post [OF that]]) (use that in \<open>simp add: idle_inv_def\<close>)
  have time: "safe (bio_time_until_next_timer (clock E) s) (\<lambda>(_, s'). idle_inv s')" if "idle_inv s" for s
    by (rule safe_mono [OF time_until_safe [of s]])
      (use that in \<open>auto simp: idle_inv_def loop_inv_def timer_inv_def timers_of_def split: if_splits\<close>)
  have wait: "safe (if b then bio_time_until_next_timer (clock E) s else Inr (0, s)) (\<lambda>(_, s'). idle_inv s')" if "idle_inv s" for s b
    using time [OF that] that by simp
  show ?thesis
    unfolding poll_events_def Let_def
    by (intro safe_bind [OF upd [OF inv]] safe_bind [OF timer_update_idle] safe_bind [OF wait])
      (auto intro!: safe_mono [OF io] safe_mono [OF upd] timer_update_idle)
qed

lemma loop_iteration_safe:
  assumes E: "env_ok create E" and inv: "ready_inv s"
  shows "safe (loop_iteration E s) (\<lambda>(finished, s'). if finished then idle_inv s' \<and> should_terminate s' else ready_inv s')"
proof -
  have round: "safe (run_round E 0 (bio_array_len (current_ready_coros s)) s) (app_post [] None s)"
    using inv by (intro run_round_safe [OF E]) (simp_all add: ready_inv_def)
  have idle: "idle_inv (s'\<lparr>current_ready_coros := bio_array_clear (current_ready_coros s')\<rparr>)" if "app_post [] None s s'" for s'
    using inv that by (simp add: app_post_def ready_inv_def idle_inv_def loop_inv_def sched_inv_gen_def graph_ok_def timer_inv_def timers_of_def)
  show ?thesis
    unfolding loop_iteration_def Let_def
  proof (rule safe_bind [OF round], goal_cases)
    case (1 s1)
    let ?s = "s1\<lparr>current_ready_coros := bio_array_clear (current_ready_coros s1)\<rparr>"
    have "safe (poll_events E ?s) (\<lambda>s'. ready_inv (swap_ready s'))"
      by (rule safe_mono [OF poll_events_safe [OF E idle [OF 1]] swap_ready_inv])
    with idle [OF 1] show ?case by simp
  qed
qed

lemma bio_loop_safe:
  assumes "bio_loop E s = Some r" "env_ok create E" "ready_inv s"
  shows "safe r (\<lambda>s'. idle_inv s' \<and> should_terminate s')"
  using assms
proof (induction rule: bio_loop.raw_induct [rotated, consumes 1, case_names step])
  case (step loop E s r)
  show ?case
  proof (cases "loop_iteration E s")
    case (Inl e)
    then show ?thesis using step loop_iteration_safe [OF step.prems] by auto
  next
    case (Inr x)
    obtain finished s' where x: "x = (finished, s')" by (cases x)
    show ?thesis
      using step.IH [of E s'] step.hyps step.prems loop_iteration_safe [OF step.prems]
      by (cases finished) (auto simp: Inr x)
  qed
qed

end
