(* ===== verification/Pow2.thy ===== *)
theory Pow2
  imports Prelude
begin

text \<open>
  \<open>bio_next_pow2\<close> of \<open>src/src/internal.h\<close>: the next power of two by smearing the
  highest bit to the right, on 32-bit unsigned integers.
\<close>

unbundle bit_operations_syntax

section \<open>Model\<close>

definition bio_next_pow2 :: "32 word \<Rightarrow> 32 word" where
  "bio_next_pow2 v =
    (let next = v - 1;
         next = next OR drop_bit 1 next;
         next = next OR drop_bit 2 next;
         next = next OR drop_bit 4 next;
         next = next OR drop_bit 8 next;
         next = next OR drop_bit 16 next
     in next + 1)"

section \<open>Correctness\<close>

text \<open>\<open>smeared n x a\<close>: a bit of \<open>a\<close> is set when one of the \<open>n\<close> bits of \<open>x\<close> from there on is.\<close>

definition smeared :: "nat \<Rightarrow> 'a::len word \<Rightarrow> 'a word \<Rightarrow> bool" where
  "smeared n x a \<longleftrightarrow> (\<forall>i. bit a i \<longleftrightarrow> (\<exists>j. i \<le> j \<and> j < i + n \<and> bit x j))"

lemma smeared_1: "smeared 1 x x"
  unfolding smeared_def by (auto, metis le_antisym less_Suc_eq_le)

lemma smeared_step:
  assumes "smeared n x a" "m = 2 * n"
  shows "smeared m x (a OR drop_bit n a)"
  unfolding smeared_def
proof
  fix i
  have "bit (a OR drop_bit n a) i \<longleftrightarrow> bit a i \<or> bit a (i + n)"
    by (auto simp: bit_or_iff bit_drop_bit_eq add.commute)
  also have "\<dots> \<longleftrightarrow> (\<exists>j. i \<le> j \<and> j < i + n \<and> bit x j) \<or> (\<exists>j. i + n \<le> j \<and> j < i + n + n \<and> bit x j)"
    using assms(1) by (simp add: smeared_def)
  also have "\<dots> \<longleftrightarrow> (\<exists>j. i \<le> j \<and> j < i + m \<and> bit x j)"
    unfolding assms(2) by (smt (verit) add.assoc add_lessD1 le_add_diff_inverse2 linorder_not_less mult_2 nat_le_linear order_trans less_le_trans add_le_cancel_left le_add1)
  finally show "bit (a OR drop_bit n a) i \<longleftrightarrow> (\<exists>j. i \<le> j \<and> j < i + m \<and> bit x j)" .
qed

text \<open>The position of the highest set bit.\<close>

definition bit_length :: "32 word \<Rightarrow> nat" where
  "bit_length x = (if x = 0 then 0 else Suc (Max {j. bit x j}))"

lemma finite_bits: "finite {j. bit (x :: 'a::len word) j}"
  by (rule finite_subset [of _ "{..<LENGTH('a)}"]) (auto dest: bit_imp_le_length)

lemma smeared_mask:
  assumes "smeared 32 x a"
  shows "a = mask (bit_length x)"
proof (rule bit_word_eqI)
  fix i assume i: "i < LENGTH(32)"
  have "(\<exists>j. i \<le> j \<and> j < i + 32 \<and> bit x j) \<longleftrightarrow> (\<exists>j. i \<le> j \<and> bit x j)"
  proof -
    have "j < i + 32" if "bit x j" for j using bit_imp_le_length [OF that] by simp
    then show ?thesis by blast
  qed
  also have "\<dots> \<longleftrightarrow> i < bit_length x"
  proof (cases "x = 0")
    case False
    then have ne: "{j. bit x j} \<noteq> {}" by (metis Collect_empty_eq bit_eq_iff bit_0_eq bot_apply bot_bool_def)
    then have "i \<le> Max {j. bit x j} \<longleftrightarrow> (\<exists>j. i \<le> j \<and> bit x j)"
      using Max_ge_iff [OF finite_bits ne] by auto
    with False show ?thesis by (simp add: bit_length_def less_Suc_eq_le)
  qed (simp add: bit_length_def)
  finally show "bit a i \<longleftrightarrow> bit (mask (bit_length x) :: 32 word) i"
    using assms i by (simp add: smeared_def bit_mask_iff)
qed

lemma bit_length_bounds:
  shows "unat x < 2 ^ bit_length x" "x \<noteq> 0 \<Longrightarrow> 2 ^ (bit_length x - 1) \<le> unat x" "bit_length x \<le> 32"
proof -
  have hi: "\<not> bit x j" if "bit_length x \<le> j" for j
  proof
    assume "bit x j"
    then have "j \<le> Max {j. bit x j}" "x \<noteq> 0" by (auto intro: Max_ge [OF finite_bits])
    with that show False by (simp add: bit_length_def)
  qed
  have "take_bit (bit_length x) x = x"
    by (rule bit_word_eqI) (use hi in \<open>auto simp: bit_take_bit_iff not_less [symmetric]\<close>)
  then have "take_bit (bit_length x) (unat x) = unat x" by (metis unsigned_take_bit_eq)
  then show "unat x < 2 ^ bit_length x" by (metis take_bit_nat_less_exp)
  show "bit_length x \<le> 32"
    using Max_in [OF finite_bits, of x] bit_imp_le_length [of x]
    by (auto simp: bit_length_def Suc_le_eq) (metis (mono_tags) bit_eqI bit_0_eq bot_apply bot_bool_def empty_Collect_eq)
  show "2 ^ (bit_length x - 1) \<le> unat x" if "x \<noteq> 0"
  proof -
    have "{j. bit x j} \<noteq> {}" using that by (metis Collect_empty_eq bit_eq_iff bit_0_eq bot_apply bot_bool_def)
    then have "bit x (bit_length x - 1)" using Max_in [OF finite_bits, of x] that by (simp add: bit_length_def)
    then have "bit (unat x) (bit_length x - 1)" by (simp add: bit_unsigned_iff)
    then show ?thesis by (metis bit_iff_odd div_less even_zero not_le)
  qed
qed

lemma next_pow2_exp: "bio_next_pow2 v = 2 ^ bit_length (v - 1)"
proof -
  have "smeared 32 (v - 1) (bio_next_pow2 v - 1)"
    unfolding bio_next_pow2_def Let_def add_diff_cancel_right'
    by (intro smeared_step [of 16] smeared_step [of 8] smeared_step [of 4] smeared_step [of 2] smeared_step [of 1] smeared_1) simp_all
  from smeared_mask [OF this] show ?thesis by (simp add: mask_eq_exp_minus_1)
qed

lemma unat_exp: "n < 32 \<Longrightarrow> unat (2 ^ n :: 32 word) = 2 ^ n"
proof -
  assume n: "n < 32"
  have "(2::nat) ^ n < 2 ^ 32" using n by (rule power_strict_increasing) simp
  then have "unat (of_nat (2 ^ n) :: 32 word) = 2 ^ n" by (simp add: unat_of_nat del: of_nat_power)
  then show ?thesis by simp
qed

lemma next_pow2_bounds:
  assumes "0 < v" "v \<le> 2 ^ 31"
  obtains n where "n \<le> 31" "bio_next_pow2 v = 2 ^ n" "unat (bio_next_pow2 v) = 2 ^ n" "unat v \<le> 2 ^ n" "2 ^ n < 2 * unat v"
proof -
  let ?n = "bit_length (v - 1)"
  note B = bit_length_bounds [of "v - 1"]
  have pos: "0 < unat v" using assms(1) by (simp add: word_less_nat_alt)
  have v1: "unat (v - 1) = unat v - 1" by (rule unat_minus_one) (use assms(1) in auto)
  have le: "unat v \<le> 2 ^ 31" using assms(2) by (simp add: word_le_nat_alt)
  have n0: "v - 1 = 0 \<Longrightarrow> ?n = 0" by (simp add: bit_length_def)
  have n: "?n \<le> 31"
  proof (cases "v - 1 = 0")
    case False
    have "(2::nat) ^ (?n - 1) < 2 ^ 31" using B(2) [OF False] v1 pos le by linarith
    then have "?n - 1 < 31" by (rule power_less_imp_less_exp [rotated]) simp
    then show ?thesis by linarith
  qed (use n0 in simp)
  have u: "unat (2 ^ ?n :: 32 word) = 2 ^ ?n" by (rule unat_exp) (use n in simp)
  have "2 ^ ?n < 2 * unat v"
  proof (cases "v - 1 = 0")
    case True
    then show ?thesis using n0 pos by simp
  next
    case False
    then have "0 < ?n" by (simp add: bit_length_def)
    then have "(2::nat) ^ ?n = 2 * 2 ^ (?n - 1)" by (metis power_minus_mult mult.commute)
    then show ?thesis using B(2) [OF False] v1 pos by linarith
  qed
  with n u that [of ?n] B(1) v1 show thesis by (simp add: next_pow2_exp)
qed

lemma next_pow2_outside: "bio_next_pow2 0 = 0" "2 ^ 31 < v \<Longrightarrow> bio_next_pow2 v = 0"
proof -
  show "bio_next_pow2 0 = 0" by code_simp
  assume big: "2 ^ 31 < v"
  have "unat (v - 1) = unat v - 1" by (rule unat_minus_one) (use big in auto)
  moreover have "2 ^ 31 < unat v" using big by (simp add: word_less_nat_alt)
  ultimately have "(2::nat) ^ 31 < 2 ^ bit_length (v - 1)" using bit_length_bounds(1) [of "v - 1"] by linarith
  then have "31 < bit_length (v - 1)" by (rule power_less_imp_less_exp [rotated]) simp
  then have "bit_length (v - 1) = 32" using bit_length_bounds(3) [of "v - 1"] by linarith
  then show "bio_next_pow2 v = 0" by (simp add: next_pow2_exp)
qed

end
