(* ===== verification/Mailbox.thy ===== *)
theory Mailbox
  imports Waiting Pow2
begin

text \<open>
  Mailboxes of \<open>src/src/mailbox.c\<close>: a bounded queue of messages in a ring of
  bytes. The read and write positions are 32-bit counters that run freely and
  wrap around.
\<close>

unbundle bit_operations_syntax

section \<open>Model\<close>

definition bio_queue_index :: "32 word \<Rightarrow> 32 word \<Rightarrow> 32 word" where
  "bio_queue_index vindex cap = vindex AND (cap - 1)"

text \<open>\<open>memcpy\<close> into and out of a block of bytes.\<close>

definition copy_in :: "nat \<Rightarrow> byte list \<Rightarrow> byte list \<Rightarrow> byte list outcome" where
  "copy_in off xs block =
    (if off + length xs \<le> length block
     then Inr (take off block @ xs @ drop (off + length xs) block)
     else Inl DanglingPointer)"

definition copy_out :: "nat \<Rightarrow> nat \<Rightarrow> byte list \<Rightarrow> byte list outcome" where
  "copy_out off n block =
    (if off + n \<le> length block then Inr (take n (drop off block)) else Inl DanglingPointer)"

definition bio__mailbox_open :: "nat \<Rightarrow> 32 word \<Rightarrow> 'w bio_ctx \<Rightarrow> (bio_handle \<times> 'w bio_ctx) outcome" where
  "bio__mailbox_open item_size cap s =
    (let cap = bio_next_pow2 cap;
         p = bio_malloc s;
         mailbox = \<lparr>mb_capacity = cap, mb_read = 0, mb_write = 0, mb_signal = BIO_INVALID_HANDLE,
                    mb_data = replicate (item_size * unat cap) 0\<rparr> in
     rbind (bio_make_handle p BIO_MAILBOX_HANDLE (handles s)) (\<lambda>(h, ht).
     Inr (h, s\<lparr>handles := ht, mailboxes := put p mailbox (mailboxes s)\<rparr>)))"

definition bio__mailbox_close :: "bio_handle \<Rightarrow> 'w bio_ctx \<Rightarrow> 'w bio_ctx outcome" where
  "bio__mailbox_close handle s =
    rbind (bio_close_handle handle BIO_MAILBOX_HANDLE (handles s)) (\<lambda>(p, ht).
    let s = s\<lparr>handles := ht\<rparr> in
    if p \<noteq> NULL then
      rbind (deref (mailboxes s) p) (\<lambda>mailbox.
      rbind (if bio_handle_compare (mb_signal mailbox) BIO_INVALID_HANDLE \<noteq> 0
             then rbind (bio_raise_signal (mb_signal mailbox) s) (\<lambda>(_, s). Inr s)
             else Inr s) (\<lambda>s.
      Inr (s\<lparr>mailboxes := del p (mailboxes s)\<rparr>)))
    else Inr s)"

definition bio__mailbox_is_open :: "bio_handle \<Rightarrow> 'w bio_ctx \<Rightarrow> bool" where
  "bio__mailbox_is_open handle s = (bio_resolve_handle handle BIO_MAILBOX_HANDLE (handles s) \<noteq> NULL)"

text \<open>The part of a send and of a receive that works on the ring.\<close>

definition ring_send :: "byte list \<Rightarrow> bio_mailbox \<Rightarrow> bio_mailbox outcome" where
  "ring_send data mailbox =
    (let i = bio_queue_index (mb_write mailbox) (mb_capacity mailbox) in
     rbind (copy_in (unat i * length data) data (mb_data mailbox)) (\<lambda>block.
     Inr (mailbox\<lparr>mb_write := mb_write mailbox + 1, mb_data := block\<rparr>)))"

definition ring_recv :: "nat \<Rightarrow> bio_mailbox \<Rightarrow> (byte list \<times> bio_mailbox) outcome" where
  "ring_recv item_size mailbox =
    (let i = bio_queue_index (mb_read mailbox) (mb_capacity mailbox) in
     rbind (copy_out (unat i * item_size) item_size (mb_data mailbox)) (\<lambda>data.
     Inr (data, mailbox\<lparr>mb_read := mb_read mailbox + 1\<rparr>)))"

definition bio__mailbox_send :: "bio_handle \<Rightarrow> byte list \<Rightarrow> 'w bio_ctx \<Rightarrow> (bool \<times> 'w bio_ctx) outcome" where
  "bio__mailbox_send handle data s =
    (let p = bio_resolve_handle handle BIO_MAILBOX_HANDLE (handles s) in
     if p \<noteq> NULL then
       rbind (deref (mailboxes s) p) (\<lambda>mailbox.
       if mb_write mailbox - mb_read mailbox < mb_capacity mailbox then
         rbind (ring_send data mailbox) (\<lambda>mailbox.
         let s = s\<lparr>mailboxes := put p mailbox (mailboxes s)\<rparr> in
         if bio_handle_compare (mb_signal mailbox) BIO_INVALID_HANDLE \<noteq> 0 then
           rbind (bio_raise_signal (mb_signal mailbox) s) (\<lambda>(_, s).
           rbind (deref (mailboxes s) p) (\<lambda>mailbox.
           Inr (True, s\<lparr>mailboxes := put p (mailbox\<lparr>mb_signal := BIO_INVALID_HANDLE\<rparr>) (mailboxes s)\<rparr>)))
         else Inr (True, s))
       else Inr (False, s))
     else Inr (False, s))"

text \<open>
  A receive, in two parts: before the wait, and after it. \<open>None\<close> as the result of the
  first part means that the call returns \<open>false\<close> at once.
\<close>

definition recv_prepare ::
    "(addr \<Rightarrow> 'w bio_ctx \<Rightarrow> 'w bio_ctx outcome) \<Rightarrow> addr \<Rightarrow> addr \<Rightarrow> 'w bio_ctx \<Rightarrow> (bool \<times> 'w bio_ctx) outcome" where
  "recv_prepare mco_yield self p s =
    rbind (deref (mailboxes s) p) (\<lambda>mailbox.
    if mb_read mailbox = mb_write mailbox then
      if bio_handle_compare (mb_signal mailbox) BIO_INVALID_HANDLE = 0 then
        rbind (bio_make_signal self s) (\<lambda>(signal, s).
        rbind (deref (mailboxes s) p) (\<lambda>mailbox.
        let s = s\<lparr>mailboxes := put p (mailbox\<lparr>mb_signal := signal\<rparr>) (mailboxes s)\<rparr> in
        rbind (bio_wait_for_one_signal mco_yield self signal s) (\<lambda>s. Inr (True, s))))
      else Inr (False, s)
    else Inr (True, s))"

definition recv_finish :: "bio_handle \<Rightarrow> nat \<Rightarrow> 'w bio_ctx \<Rightarrow> (byte list option \<times> 'w bio_ctx) outcome" where
  "recv_finish handle item_size s =
    (let p = bio_resolve_handle handle BIO_MAILBOX_HANDLE (handles s) in
     if p \<noteq> NULL then
       rbind (deref (mailboxes s) p) (\<lambda>mailbox.
       if mb_read mailbox \<noteq> mb_write mailbox then
         rbind (ring_recv item_size mailbox) (\<lambda>(data, mailbox).
         Inr (Some data, s\<lparr>mailboxes := put p mailbox (mailboxes s)\<rparr>))
       else Inr (None, s))
     else Inr (None, s))"

text \<open>The result is the message, or \<open>None\<close> where the C function returns \<open>false\<close>.\<close>

definition bio__mailbox_recv ::
    "(addr \<Rightarrow> 'w bio_ctx \<Rightarrow> 'w bio_ctx outcome) \<Rightarrow> addr \<Rightarrow> bio_handle \<Rightarrow> nat \<Rightarrow> 'w bio_ctx \<Rightarrow>
     (byte list option \<times> 'w bio_ctx) outcome" where
  "bio__mailbox_recv mco_yield self handle item_size s =
    (let p = bio_resolve_handle handle BIO_MAILBOX_HANDLE (handles s) in
     if p \<noteq> NULL then
       rbind (recv_prepare mco_yield self p s) (\<lambda>(go_on, s).
       if go_on then recv_finish handle item_size s else Inr (None, s))
     else Inr (None, s))"

definition bio__mailbox_can_recv :: "bio_handle \<Rightarrow> 'w bio_ctx \<Rightarrow> bool outcome" where
  "bio__mailbox_can_recv handle s =
    (let p = bio_resolve_handle handle BIO_MAILBOX_HANDLE (handles s) in
     if p \<noteq> NULL then rbind (deref (mailboxes s) p) (\<lambda>m. Inr (mb_read m \<noteq> mb_write m)) else Inr False)"

definition bio__mailbox_can_send :: "bio_handle \<Rightarrow> 'w bio_ctx \<Rightarrow> bool outcome" where
  "bio__mailbox_can_send handle s =
    (let p = bio_resolve_handle handle BIO_MAILBOX_HANDLE (handles s) in
     if p \<noteq> NULL then rbind (deref (mailboxes s) p) (\<lambda>m. Inr (mb_write m - mb_read m < mb_capacity m)) else Inr False)"

section \<open>The ring is a bounded queue\<close>

text \<open>
  A ring of \<open>2 ^ k\<close> slots (or of none, when the requested capacity was 0) with
  \<open>sz\<close> bytes per slot.
\<close>

definition ring_ok :: "nat \<Rightarrow> bio_mailbox \<Rightarrow> bool" where
  "ring_ok sz m \<longleftrightarrow>
     (mb_capacity m = 0 \<or> (\<exists>k < 32. mb_capacity m = 2 ^ k))
   \<and> mb_write m - mb_read m \<le> mb_capacity m \<and> length (mb_data m) = sz * unat (mb_capacity m)"

definition ring_slot :: "nat \<Rightarrow> bio_mailbox \<Rightarrow> nat \<Rightarrow> byte list" where
  "ring_slot sz m i = take sz (drop (unat (bio_queue_index (mb_read m + of_nat i) (mb_capacity m)) * sz) (mb_data m))"

definition ring_messages :: "nat \<Rightarrow> bio_mailbox \<Rightarrow> byte list list" where
  "ring_messages sz m = map (ring_slot sz m) [0 ..< unat (mb_write m - mb_read m)]"

lemma queue_index_mod:
  assumes "k < 32"
  shows "unat (bio_queue_index v (2 ^ k)) = unat v mod 2 ^ k"
proof -
  have "bio_queue_index v (2 ^ k) = take_bit k v"
    by (simp add: bio_queue_index_def take_bit_eq_mask mask_eq_exp_minus_1)
  then have "unat (bio_queue_index v (2 ^ k)) = take_bit k (unat v)" by (simp only: unsigned_take_bit_eq)
  then show ?thesis by (simp only: take_bit_eq_mod)
qed

lemma queue_index_add:
  assumes "k < 32"
  shows "unat (bio_queue_index (r + of_nat i) (2 ^ k)) = (unat r + i) mod 2 ^ k"
proof -
  have d: "(2::nat) ^ k dvd 2 ^ 32" using assms by (intro le_imp_power_dvd) simp
  have "unat (r + of_nat i) mod 2 ^ k = (unat r + i mod 2 ^ 32) mod 2 ^ 32 mod 2 ^ k"
    by (simp add: unat_word_ariths unat_of_nat)
  also have "\<dots> = (unat r + i mod 2 ^ 32 mod 2 ^ k) mod 2 ^ k"
    using d by (simp only: mod_mod_cancel mod_add_right_eq)
  also have "\<dots> = (unat r + i) mod 2 ^ k"
    using d by (simp only: mod_mod_cancel mod_add_right_eq)
  finally show ?thesis using queue_index_mod [OF assms] by simp
qed

lemma mod_slots_neq:
  assumes "i < n" "n < (2::nat) ^ k"
  shows "(r + i) mod 2 ^ k \<noteq> (r + n) mod 2 ^ k"
proof
  assume "(r + i) mod 2 ^ k = (r + n) mod 2 ^ k"
  then have "(2::nat) ^ k dvd (r + n) - (r + i)" using assms(1) by (metis add_le_cancel_left less_imp_le mod_eq_dvd_iff_nat)
  then show False using assms by (auto dest: dvd_imp_le)
qed

text \<open>Writing one slot and reading another.\<close>

lemma slot_same:
  "length xs = sz \<Longrightarrow> b * sz + sz \<le> length D \<Longrightarrow> take sz (drop (b * sz) (take (b * sz) D @ xs @ drop (b * sz + sz) D)) = xs"
  by simp

lemma slot_other:
  assumes "length xs = sz" "b * sz + sz \<le> length D" "a \<noteq> b"
  shows "take sz (drop (a * sz) (take (b * sz) D @ xs @ drop (b * sz + sz) D)) = take sz (drop (a * sz) D)"
proof (cases "a < b")
  case True
  have le: "a * sz + sz \<le> b * sz" using mult_le_mono1 [of "Suc a" b sz] True by simp
  then have "length (take sz (drop (a * sz) (take (b * sz) D))) = sz" "take sz (drop (a * sz) (take (b * sz) D)) = take sz (drop (a * sz) D)"
    using assms(2) by (simp_all add: drop_take)
  then show ?thesis using assms(1,2) le by (auto simp: take_append drop_append)
next
  case False
  have le: "b * sz + sz \<le> a * sz" using mult_le_mono1 [of "Suc b" a sz] False assms(3) by simp
  then have "b * sz \<le> a * sz" by linarith
  then have "b * sz - a * sz = 0" "drop (a * sz) (take (b * sz) D) = []" by (simp_all only: diff_is_0_eq drop_eq_Nil length_take min.coboundedI2)
  then show ?thesis using assms le by simp
qed

lemma ring_count:
  assumes "ring_ok sz m" "mb_write m - mb_read m < mb_capacity m"
  obtains k n where "k < 32" "mb_capacity m = 2 ^ k" "n = unat (mb_write m - mb_read m)" "n < 2 ^ k"
    "mb_write m = mb_read m + of_nat n" "unat (mb_write m + 1 - mb_read m) = n + 1"
proof -
  have "mb_capacity m \<noteq> 0" using assms(2) by auto
  then obtain k where k: "k < 32" "mb_capacity m = 2 ^ k" using assms(1) by (auto simp: ring_ok_def)
  let ?n = "unat (mb_write m - mb_read m)"
  have n: "?n < 2 ^ k" using assms(2) k by (simp add: word_less_nat_alt unat_exp)
  have "(2::nat) ^ k \<le> 2 ^ 31" using k(1) by (intro power_increasing) auto
  then have "?n + 1 < 2 ^ 32" using n by simp
  then have "unat ((mb_write m - mb_read m) + 1) = ?n + 1"
    unfolding unat_word_ariths(1) [of "mb_write m - mb_read m" 1] by simp
  moreover have "mb_write m + 1 - mb_read m = (mb_write m - mb_read m) + 1" by simp
  ultimately have "unat (mb_write m + 1 - mb_read m) = ?n + 1" by (simp only:)
  with k n that [of k ?n] show thesis by simp
qed

lemma ring_slot_bound:
  assumes "i < (2::nat) ^ k" "length D = sz * 2 ^ k"
  shows "i * sz + sz \<le> length D"
proof -
  have "Suc i * sz \<le> 2 ^ k * sz" using assms(1) by (intro mult_le_mono1) simp
  then show ?thesis using assms(2) by (simp add: mult.commute add.commute)
qed

lemma ring_send_ok:
  assumes ok: "ring_ok sz m" and room: "mb_write m - mb_read m < mb_capacity m" and data: "length data = sz"
  shows "\<exists>m'. ring_send data m = Inr m' \<and> ring_ok sz m' \<and> ring_messages sz m' = ring_messages sz m @ [data]
    \<and> mb_capacity m' = mb_capacity m \<and> mb_signal m' = mb_signal m"
proof -
  obtain k n where k: "k < 32" "mb_capacity m = 2 ^ k" and n: "n = unat (mb_write m - mb_read m)" "n < 2 ^ k"
    "mb_write m = mb_read m + of_nat n" "unat (mb_write m + 1 - mb_read m) = n + 1"
    using ring_count [OF ok room] by blast
  have len: "length (mb_data m) = sz * 2 ^ k" using ok k by (simp add: ring_ok_def unat_exp)
  let ?ix = "\<lambda>i. (unat (mb_read m) + i) mod 2 ^ k"
  have ix: "unat (bio_queue_index (mb_read m + of_nat i) (2 ^ k)) = ?ix i" for i by (rule queue_index_add [OF k(1)])
  have b: "?ix n * sz + sz \<le> length (mb_data m)" by (rule ring_slot_bound [OF _ len]) simp
  let ?D = "take (?ix n * sz) (mb_data m) @ data @ drop (?ix n * sz + sz) (mb_data m)"
  let ?m = "m\<lparr>mb_write := mb_write m + 1, mb_data := ?D\<rparr>"
  have r: "ring_send data m = Inr ?m"
    using b data by (simp add: ring_send_def copy_in_def k ix [of n, folded n(3)])
  have "mb_write m + 1 - mb_read m \<le> mb_capacity m"
    using n(2,4) k by (simp add: word_le_nat_alt unat_exp)
  then have "ring_ok sz ?m" using ok b data len k by (auto simp: ring_ok_def unat_exp)
  moreover have "ring_slot sz ?m i = ring_slot sz m i" if "i < n" for i
    using slot_other [OF data b mod_slots_neq [OF that n(2)]] by (simp add: ring_slot_def k ix)
  moreover have "ring_slot sz ?m n = data"
    using slot_same [OF data b] by (simp add: ring_slot_def k ix)
  ultimately have "ring_messages sz ?m = ring_messages sz m @ [data]"
    by (simp add: ring_messages_def n(4) n(1) [symmetric])
  with r \<open>ring_ok sz ?m\<close> show ?thesis by auto
qed

lemma ring_recv_ok:
  assumes ok: "ring_ok sz m" and ne: "mb_read m \<noteq> mb_write m"
  shows "\<exists>data m'. ring_recv sz m = Inr (data, m') \<and> ring_ok sz m' \<and> ring_messages sz m = data # ring_messages sz m'
    \<and> length data = sz \<and> mb_capacity m' = mb_capacity m \<and> mb_signal m' = mb_signal m"
proof -
  let ?n = "unat (mb_write m - mb_read m)"
  have "mb_write m - mb_read m \<noteq> 0" using ne by auto
  then have pos: "0 < ?n" by (simp add: unat_gt_0)
  have le: "mb_write m - mb_read m \<le> mb_capacity m" using ok by (simp add: ring_ok_def)
  then have "mb_capacity m \<noteq> 0" using ne by auto
  then obtain k where k: "k < 32" "mb_capacity m = 2 ^ k" using ok by (auto simp: ring_ok_def)
  have len: "length (mb_data m) = sz * 2 ^ k" using ok k by (simp add: ring_ok_def unat_exp)
  have ix: "unat (bio_queue_index (mb_read m + of_nat i) (2 ^ k)) = (unat (mb_read m) + i) mod 2 ^ k" for i
    by (rule queue_index_add [OF k(1)])
  have b: "unat (mb_read m) mod 2 ^ k * sz + sz \<le> length (mb_data m)" by (rule ring_slot_bound [OF _ len]) simp
  let ?m = "m\<lparr>mb_read := mb_read m + 1\<rparr>"
  have cnt: "unat (mb_write m - (mb_read m + 1)) = ?n - 1"
    using unat_minus_one [of "mb_write m - mb_read m"] \<open>mb_write m - mb_read m \<noteq> 0\<close> by (simp add: diff_diff_eq)
  have r: "ring_recv sz m = Inr (ring_slot sz m 0, ?m)"
    using b by (simp add: ring_recv_def copy_out_def ring_slot_def k queue_index_mod [OF k(1)])
  have "mb_write m - (mb_read m + 1) \<le> mb_capacity m" using le cnt by (simp add: word_le_nat_alt)
  then have "ring_ok sz ?m" using ok by (simp add: ring_ok_def)
  moreover have "ring_slot sz ?m i = ring_slot sz m (Suc i)" for i
    by (simp add: ring_slot_def add.assoc)
  then have "map (ring_slot sz ?m) [0 ..< ?n - 1] = map (ring_slot sz m) [1 ..< ?n]"
    by (intro nth_equalityI) simp_all
  then have "ring_messages sz m = ring_slot sz m 0 # ring_messages sz ?m"
    using pos by (simp add: ring_messages_def cnt upt_conv_Cons)
  moreover have "length (ring_slot sz m 0) = sz"
    using b by (simp add: ring_slot_def k queue_index_mod [OF k(1)])
  ultimately show ?thesis using r by auto
qed

section \<open>The contract: a bounded queue\<close>

text \<open>
  What a sender and a receiver rely on: messages come out in the order in which
  they went in, none is lost or changed.
\<close>

locale bounded_queue =
  fixes invar :: "'q \<Rightarrow> bool" and items :: "'q \<Rightarrow> 'a list" and bound :: "'q \<Rightarrow> nat" and valid :: "'a \<Rightarrow> bool"
    and enq :: "'a \<Rightarrow> 'q \<Rightarrow> 'q outcome" and deq :: "'q \<Rightarrow> ('a \<times> 'q) outcome"
  assumes enq_law: "invar q \<Longrightarrow> valid x \<Longrightarrow> length (items q) < bound q \<Longrightarrow>
      \<exists>q'. enq x q = Inr q' \<and> invar q' \<and> items q' = items q @ [x] \<and> bound q' = bound q"
    and deq_law: "invar q \<Longrightarrow> items q \<noteq> [] \<Longrightarrow>
      \<exists>q'. deq q = Inr (hd (items q), q') \<and> invar q' \<and> items q' = tl (items q) \<and> bound q' = bound q"
begin

fun enqs :: "'a list \<Rightarrow> 'q \<Rightarrow> 'q outcome" where
  "enqs [] q = Inr q"
| "enqs (x # xs) q = rbind (enq x q) (enqs xs)"

fun deqs :: "nat \<Rightarrow> 'q \<Rightarrow> ('a list \<times> 'q) outcome" where
  "deqs 0 q = Inr ([], q)"
| "deqs (Suc n) q = rbind (deq q) (\<lambda>(x, q). rbind (deqs n q) (\<lambda>(xs, q). Inr (x # xs, q)))"

lemma enqs_items:
  "invar q \<Longrightarrow> list_all valid xs \<Longrightarrow> length (items q) + length xs \<le> bound q \<Longrightarrow>
   \<exists>q'. enqs xs q = Inr q' \<and> invar q' \<and> items q' = items q @ xs \<and> bound q' = bound q"
proof (induction xs arbitrary: q)
  case (Cons x xs)
  from enq_law [of q x] Cons.prems obtain q1
    where "enq x q = Inr q1" "invar q1" "items q1 = items q @ [x]" "bound q1 = bound q" by auto
  with Cons.IH [of q1] Cons.prems show ?case by auto
qed simp

lemma deqs_items:
  "invar q \<Longrightarrow> n \<le> length (items q) \<Longrightarrow>
   \<exists>q'. deqs n q = Inr (take n (items q), q') \<and> invar q' \<and> items q' = drop n (items q) \<and> bound q' = bound q"
proof (induction n arbitrary: q)
  case (Suc n)
  then obtain x xs where q: "items q = x # xs" by (cases "items q") auto
  from deq_law [of q] Suc.prems obtain q1
    where "deq q = Inr (x, q1)" "invar q1" "items q1 = xs" "bound q1 = bound q" by (auto simp: q)
  with Suc.IH [of q1] Suc.prems show ?case by (auto simp: q)
qed simp

lemma fifo:
  assumes "invar q" "items q = []" "list_all valid xs" "length xs \<le> bound q"
  shows "\<exists>q' q''. enqs xs q = Inr q' \<and> deqs (length xs) q' = Inr (xs, q'') \<and> items q'' = []"
proof -
  obtain q' where q': "enqs xs q = Inr q'" "invar q'" "items q' = xs"
    using enqs_items [of q xs] assms by auto
  from deqs_items [OF q'(2), of "length xs"] q'(1,3) show ?thesis by auto
qed

end

lemma length_ring_messages: "length (ring_messages sz m) = unat (mb_write m - mb_read m)"
  by (simp add: ring_messages_def)

lemma ring_empty_iff: "ring_messages sz m = [] \<longleftrightarrow> mb_read m = mb_write m"
proof -
  have "ring_messages sz m = [] \<longleftrightarrow> unat (mb_write m - mb_read m) = 0" by (simp add: ring_messages_def)
  also have "\<dots> \<longleftrightarrow> mb_write m - mb_read m = 0" by (simp only: unat_eq_zero)
  finally show ?thesis by auto
qed

interpretation ring: bounded_queue "ring_ok sz" "ring_messages sz" "\<lambda>m. unat (mb_capacity m)" "\<lambda>x. length x = sz"
  ring_send "ring_recv sz" for sz
proof
  fix m and x :: "byte list"
  assume "ring_ok sz m" "length x = sz" "length (ring_messages sz m) < unat (mb_capacity m)"
  with ring_send_ok [of sz m x] show "\<exists>m'. ring_send x m = Inr m' \<and> ring_ok sz m' \<and> ring_messages sz m' = ring_messages sz m @ [x]
      \<and> unat (mb_capacity m') = unat (mb_capacity m)"
    by (auto simp: length_ring_messages word_less_nat_alt)
next
  fix m
  assume "ring_ok sz m" "ring_messages sz m \<noteq> []"
  with ring_recv_ok [of sz m] show "\<exists>m'. ring_recv sz m = Inr (hd (ring_messages sz m), m') \<and> ring_ok sz m'
      \<and> ring_messages sz m' = tl (ring_messages sz m) \<and> unat (mb_capacity m') = unat (mb_capacity m)"
    by (auto simp: ring_empty_iff)
qed

section \<open>Mailboxes in the context\<close>

text \<open>
  A mailbox does not remember its handle; \<open>N\<close> gives it. \<open>K\<close> is the size of a
  message of a mailbox, fixed by the type \<open>BIO_MAILBOX(T)\<close> it was declared with.
\<close>

definition mailbox_inv :: "(bio_handle \<Rightarrow> nat) \<Rightarrow> 'w bio_ctx \<Rightarrow> bool" where
  "mailbox_inv K s \<longleftrightarrow>
     (\<exists>N. dom N = dom (map_of (mailboxes s)) \<and> named BIO_MAILBOX_HANDLE (lookup_handle (handles s)) N id)
   \<and> (\<forall>h p m. lookup_handle (handles s) h = Some (p, BIO_MAILBOX_HANDLE) \<longrightarrow> map_of (mailboxes s) p = Some m \<longrightarrow> ring_ok (K h) m)
   \<and> (\<forall>p m. map_of (mailboxes s) p = Some m \<longrightarrow> issued (handles s) (mb_signal m))"

definition mailbox_of :: "bio_handle \<Rightarrow> 'w bio_ctx \<Rightarrow> bio_mailbox option" where
  "mailbox_of h s = (case lookup_handle (handles s) h of
     Some (p, t) \<Rightarrow> if t = BIO_MAILBOX_HANDLE then map_of (mailboxes s) p else None
   | None \<Rightarrow> None)"

text \<open>The messages waiting in an open mailbox.\<close>

definition messages :: "(bio_handle \<Rightarrow> nat) \<Rightarrow> bio_handle \<Rightarrow> 'w bio_ctx \<Rightarrow> byte list list option" where
  "messages K h s = map_option (ring_messages (K h)) (mailbox_of h s)"

lemma mailbox_of_Some:
  "mailbox_of h s = Some m \<longleftrightarrow> (\<exists>p. lookup_handle (handles s) h = Some (p, BIO_MAILBOX_HANDLE) \<and> map_of (mailboxes s) p = Some m)"
  by (auto simp: mailbox_of_def split: option.splits prod.splits if_splits)

lemma mailbox_cases:
  assumes "mailbox_inv K s" "handle_inv (handles s)" "issued (handles s) h"
  obtains (closed) "bio_resolve_handle h BIO_MAILBOX_HANDLE (handles s) = NULL" "mailbox_of h s = None"
      "\<nexists>p. lookup_handle (handles s) h = Some (p, BIO_MAILBOX_HANDLE)"
  | (open_) p m where "bio_resolve_handle h BIO_MAILBOX_HANDLE (handles s) = p" "p \<noteq> NULL"
      "lookup_handle (handles s) h = Some (p, BIO_MAILBOX_HANDLE)" "map_of (mailboxes s) p = Some m" "mailbox_of h s = Some m"
      "ring_ok (K h) m" "issued (handles s) (mb_signal m)"
proof (cases "\<exists>p. lookup_handle (handles s) h = Some (p, BIO_MAILBOX_HANDLE)")
  case False
  then show thesis
    using assms(2,3) by (intro closed) (auto simp: resolve_lookup mailbox_of_def split: option.splits prod.splits)
next
  case True
  then obtain p where p: "lookup_handle (handles s) h = Some (p, BIO_MAILBOX_HANDLE)" by blast
  obtain N where N: "dom N = dom (map_of (mailboxes s))" "named BIO_MAILBOX_HANDLE (lookup_handle (handles s)) N id"
    using assms(1) by (auto simp: mailbox_inv_def)
  from named_object [OF N(2) p] obtain x where x: "N p = Some x" by auto
  then obtain m where "map_of (mailboxes s) p = Some m" using N(1) by auto
  with p x named_neq_NULL [OF N(2) x] assms show thesis
    by (intro open_ [of p m]) (auto simp: resolve_lookup mailbox_of_def mailbox_inv_def)
qed

lemma mailbox_inv_frame:
  assumes "mailbox_inv K s" "sched_frame s s'"
  shows "mailbox_inv K s'" "mailbox_of h s' = mailbox_of h s"
proof -
  have L: "lookup_handle (handles s') h = Some (p, BIO_MAILBOX_HANDLE) \<longleftrightarrow> lookup_handle (handles s) h = Some (p, BIO_MAILBOX_HANDLE)" for h p
    using assms(2) by (auto simp: sched_frame_def table_frame_def sched_tags_def)
  have "named BIO_MAILBOX_HANDLE (lookup_handle (handles s')) N id = named BIO_MAILBOX_HANDLE (lookup_handle (handles s)) N id" for N
    by (rule named_cong) (rule L)
  then show "mailbox_inv K s'"
    using assms L sched_frame_issued [OF assms(2)] unfolding mailbox_inv_def by (simp add: sched_frame_def)
  have "mailbox_of h s' = Some m \<longleftrightarrow> mailbox_of h s = Some m" for m
    using L assms(2) by (simp add: mailbox_of_Some sched_frame_def)
  then show "mailbox_of h s' = mailbox_of h s"
    by (cases "mailbox_of h s"; cases "mailbox_of h s'") auto
qed

text \<open>Changing the content of one open mailbox.\<close>

lemma mailbox_inv_put:
  assumes inv: "mailbox_inv K s" and p: "lookup_handle (handles s) h = Some (p, BIO_MAILBOX_HANDLE)" "map_of (mailboxes s) p = Some m"
    and m': "ring_ok (K h) m'" "issued (handles s) (mb_signal m')"
  shows "mailbox_inv K (s\<lparr>mailboxes := put p m' (mailboxes s)\<rparr>)"
    "mailbox_of h (s\<lparr>mailboxes := put p m' (mailboxes s)\<rparr>) = Some m'"
    "h' \<noteq> h \<Longrightarrow> mailbox_of h' (s\<lparr>mailboxes := put p m' (mailboxes s)\<rparr>) = mailbox_of h' s"
proof -
  obtain N where N: "dom N = dom (map_of (mailboxes s))" "named BIO_MAILBOX_HANDLE (lookup_handle (handles s)) N id"
    using inv by (auto simp: mailbox_inv_def)
  have inj: "k = h" if "lookup_handle (handles s) k = Some (p, BIO_MAILBOX_HANDLE)" for k
    using named_object [OF N(2) that] named_object [OF N(2) p(1)] by auto
  have "insert p (dom (map_of (mailboxes s))) = dom (map_of (mailboxes s))" using p(2) by auto
  with N have "\<exists>N. dom N = insert p (dom (map_of (mailboxes s))) \<and> named BIO_MAILBOX_HANDLE (lookup_handle (handles s)) N id" by auto
  with inv m' show "mailbox_inv K (s\<lparr>mailboxes := put p m' (mailboxes s)\<rparr>)"
    by (auto simp: mailbox_inv_def dest: inj)
  show "mailbox_of h (s\<lparr>mailboxes := put p m' (mailboxes s)\<rparr>) = Some m'" using p by (simp add: mailbox_of_def)
  show "h' \<noteq> h \<Longrightarrow> mailbox_of h' (s\<lparr>mailboxes := put p m' (mailboxes s)\<rparr>) = mailbox_of h' s"
    using inj by (auto simp: mailbox_of_def split: option.splits)
qed

text \<open>What a send does to the mailbox \<open>m\<close> that \<open>h\<close> names.\<close>

definition sent :: "(bio_handle \<Rightarrow> nat) \<Rightarrow> bio_handle \<Rightarrow> byte list \<Rightarrow> 'w bio_ctx \<Rightarrow> bio_mailbox \<Rightarrow> 'w bio_ctx \<Rightarrow> bool" where
  "sent K h data s m s' \<longleftrightarrow>
     messages K h s' = Some (ring_messages (K h) m @ [data])
   \<and> map_option mb_signal (mailbox_of h s') = Some BIO_INVALID_HANDLE
   \<and> (mb_signal m \<noteq> BIO_INVALID_HANDLE \<longrightarrow> bio_check_signal (mb_signal m) s')
   \<and> (\<forall>h'. h' \<noteq> h \<longrightarrow> mailbox_of h' s' = mailbox_of h' s)"

lemma send_open:
  assumes inv: "sched_inv_gen Vs Vm cur run s" and V: "emptied Vs" and mb: "mailbox_inv K s"
    and p: "lookup_handle (handles s) h = Some (p, BIO_MAILBOX_HANDLE)" "map_of (mailboxes s) p = Some m"
    and m': "ring_send data m = Inr m'" "ring_ok (K h) m'" "ring_messages (K h) m' = ring_messages (K h) m @ [data]" "mb_signal m' = mb_signal m"
  shows "safe (if bio_handle_compare (mb_signal m') BIO_INVALID_HANDLE \<noteq> 0 then
        rbind (bio_raise_signal (mb_signal m') (s\<lparr>mailboxes := put p m' (mailboxes s)\<rparr>)) (\<lambda>(_, s).
        rbind (deref (mailboxes s) p) (\<lambda>mailbox.
        Inr (True, s\<lparr>mailboxes := put p (mailbox\<lparr>mb_signal := BIO_INVALID_HANDLE\<rparr>) (mailboxes s)\<rparr>)))
      else Inr (True, s\<lparr>mailboxes := put p m' (mailboxes s)\<rparr>))
    (\<lambda>(ok, s'). ok \<and> sched_inv_gen Vs Vm cur run s' \<and> mailbox_inv K s' \<and> sent K h data s m s')"
proof -
  let ?s1 = "s\<lparr>mailboxes := put p m' (mailboxes s)\<rparr>"
  have iss: "issued (handles s) (mb_signal m')" using mb p m'(4) by (auto simp: mailbox_inv_def)
  note put1 = mailbox_inv_put [OF mb p m'(2) iss]
  have inv1: "sched_inv_gen Vs Vm cur run ?s1" using inv by simp
  show ?thesis
  proof (cases "mb_signal m' = BIO_INVALID_HANDLE")
    case True
    then show ?thesis using inv1 put1 m'(3,4) by (simp add: sent_def messages_def)
  next
    case False
    have "safe (bio_raise_signal (mb_signal m') ?s1) (\<lambda>(w, s'). sched_inv_gen Vs Vm cur run s' \<and> sched_frame ?s1 s' \<and> bio_check_signal (mb_signal m') s')"
      by (rule safe_mono [OF raise_signal_safe [OF inv1 V]]) (use iss in auto)
    note raise = this
    have "bio_handle_compare (mb_signal m') BIO_INVALID_HANDLE \<noteq> 0" using False by simp
    then show ?thesis
    proof (subst if_P, assumption, intro safe_bind [OF raise], goal_cases)
      case (1 x)
      then obtain w s2 where x: "x = (w, s2)" and s2: "sched_inv_gen Vs Vm cur run s2" "sched_frame ?s1 s2" "bio_check_signal (mb_signal m') s2"
        by (cases x) auto
      note fr = mailbox_inv_frame [OF put1(1) s2(2)]
      have p2: "lookup_handle (handles s2) h = Some (p, BIO_MAILBOX_HANDLE)" "map_of (mailboxes s2) p = Some m'"
        using s2(2) p by (auto simp: sched_frame_def table_frame_def sched_tags_def)
      have i2: "issued (handles s2) BIO_INVALID_HANDLE" by simp
      have "ring_ok (K h) (m'\<lparr>mb_signal := BIO_INVALID_HANDLE\<rparr>)" using m'(2) by (simp add: ring_ok_def)
      note put2 = mailbox_inv_put [OF fr(1) p2 this]
      have "ring_messages (K h) (m'\<lparr>mb_signal := BIO_INVALID_HANDLE\<rparr>) = ring_messages (K h) m'"
        by (simp add: ring_messages_def ring_slot_def)
      then show ?case
        using x s2 p2(2) put1 put2 fr(2) m'(3,4) i2 by (simp add: sent_def messages_def bio_check_signal_def)
    qed
  qed
qed

lemma send_safe [safe_rules]:
  assumes inv: "sched_inv_gen Vs Vm cur run s" and V: "emptied Vs" and mb: "mailbox_inv K s"
    and h: "issued (handles s) h" and data: "length data = K h"
  shows "safe (bio__mailbox_send h data s) (\<lambda>(ok, s'). sched_inv_gen Vs Vm cur run s' \<and> mailbox_inv K s'
    \<and> (case mailbox_of h s of
         None \<Rightarrow> \<not> ok \<and> s' = s
       | Some m \<Rightarrow> if length (ring_messages (K h) m) < unat (mb_capacity m) then ok \<and> sent K h data s m s' else \<not> ok \<and> s' = s))"
  using mb sched_inv_handles [OF inv] h
proof (cases rule: mailbox_cases)
  case closed
  then show ?thesis using inv mb by (simp add: bio__mailbox_send_def)
next
  case (open_ p m)
  have room: "mb_write m - mb_read m < mb_capacity m \<longleftrightarrow> length (ring_messages (K h) m) < unat (mb_capacity m)"
    by (simp add: length_ring_messages word_less_nat_alt)
  show ?thesis
  proof (cases "mb_write m - mb_read m < mb_capacity m")
    case False
    then show ?thesis using open_ inv mb room by (simp add: bio__mailbox_send_def)
  next
    case True
    then obtain m' where m': "ring_send data m = Inr m'" "ring_ok (K h) m'" "ring_messages (K h) m' = ring_messages (K h) m @ [data]" "mb_signal m' = mb_signal m"
      using ring_send_ok [OF open_(6) True data] by blast
    from send_open [OF inv V mb open_(3,4) m'] show ?thesis
      using open_ True room m'(1) by (auto simp: bio__mailbox_send_def Let_def elim!: safe_mono)
  qed
qed

lemma recv_finish_safe:
  assumes inv: "sched_inv_gen Vs Vm cur run s" and mb: "mailbox_inv K s" and h: "issued (handles s) h"
  shows "case messages K h s of
      Some (x # xs) \<Rightarrow> \<exists>s'. recv_finish h (K h) s = Inr (Some x, s') \<and> sched_inv_gen Vs Vm cur run s' \<and> mailbox_inv K s'
        \<and> messages K h s' = Some xs \<and> length x = K h \<and> (\<forall>h'. h' \<noteq> h \<longrightarrow> mailbox_of h' s' = mailbox_of h' s)
    | _ \<Rightarrow> recv_finish h (K h) s = Inr (None, s)"
  using mb sched_inv_handles [OF inv] h
proof (cases rule: mailbox_cases)
  case closed
  then show ?thesis by (simp add: recv_finish_def messages_def)
next
  case (open_ p m)
  show ?thesis
  proof (cases "mb_read m = mb_write m")
    case True
    then show ?thesis using open_ ring_empty_iff [of "K h" m] by (simp add: recv_finish_def messages_def)
  next
    case False
    from ring_recv_ok [OF open_(6) False] obtain data m' where m': "ring_recv (K h) m = Inr (data, m')" "ring_ok (K h) m'"
      "ring_messages (K h) m = data # ring_messages (K h) m'" "length data = K h" "mb_signal m' = mb_signal m" by blast
    note put = mailbox_inv_put [OF mb open_(3,4) m'(2)]
    show ?thesis
      using open_ False m' put inv by (simp add: recv_finish_def messages_def)
  qed
qed

lemma next_pow2_capacity: "bio_next_pow2 c = 0 \<or> (\<exists>k < 32. bio_next_pow2 c = 2 ^ k)"
proof (cases "bit_length (c - 1) = 32")
  case False
  then have "bit_length (c - 1) < 32" using bit_length_bounds(3) [of "c - 1"] by simp
  then show ?thesis using next_pow2_exp [of c] by blast
qed (simp add: next_pow2_exp)

lemma ring_ok_new:
  "ring_ok sz \<lparr>mb_capacity = bio_next_pow2 c, mb_read = 0, mb_write = 0, mb_signal = BIO_INVALID_HANDLE,
     mb_data = replicate (sz * unat (bio_next_pow2 c)) 0\<rparr>"
  using next_pow2_capacity [of c] by (simp add: ring_ok_def)

lemma open_safe [safe_rules]:
  assumes inv: "sched_inv_gen Vs Vm cur run s" and mb: "mailbox_inv K s"
  shows "safe (bio__mailbox_open sz c s) (\<lambda>(h, s'). sched_inv_gen Vs Vm cur run s' \<and> mailbox_inv (K(h := sz)) s'
    \<and> messages (K(h := sz)) h s' = Some [] \<and> issued (handles s') h \<and> (\<forall>h'. h' \<noteq> h \<longrightarrow> mailbox_of h' s' = mailbox_of h' s))"
proof -
  let ?p = "bio_malloc s"
  let ?m = "\<lparr>mb_capacity = bio_next_pow2 c, mb_read = 0, mb_write = 0, mb_signal = BIO_INVALID_HANDLE,
     mb_data = replicate (sz * unat (bio_next_pow2 c)) 0\<rparr>"
  note fresh = bio_malloc_fresh [OF sched_invD(1) [OF inv]]
  have post: "sched_inv_gen Vs Vm cur run s' \<and> mailbox_inv (K(h := sz)) s' \<and> messages (K(h := sz)) h s' = Some []
      \<and> issued (handles s') h \<and> (\<forall>h'. h' \<noteq> h \<longrightarrow> mailbox_of h' s' = mailbox_of h' s)"
    if md: "made (handles s) h ?p BIO_MAILBOX_HANDLE ht" and s': "s' = s\<lparr>handles := ht, mailboxes := put ?p ?m (mailboxes s)\<rparr>" for h ht s'
  proof -
    note I = sched_invD [OF inv] and G = graph_okD [OF sched_invD(2) [OF inv]]
    have md': "handle_inv ht" "lookup_handle ht = (lookup_handle (handles s))(h \<mapsto> (?p, BIO_MAILBOX_HANDLE))" "issued ht h"
      "\<And>k. issued (handles s) k \<Longrightarrow> issued ht k" "lookup_handle (handles s) h = None" using md by (auto simp: made_def)
    have "sched_inv_gen Vs Vm cur run s'"
      using I G named_made [OF G(2) md] named_made [OF G(3) md] named_made [OF G(4) md] md'
      by (simp add: s' sched_inv_gen_def graph_ok_def)
    moreover obtain N where N: "dom N = dom (map_of (mailboxes s))" "named BIO_MAILBOX_HANDLE (lookup_handle (handles s)) N id"
      using mb by (auto simp: mailbox_inv_def)
    have "N ?p = None" using N(1) fresh(6) by auto
    then have N': "named BIO_MAILBOX_HANDLE (lookup_handle ht) (N(?p \<mapsto> h)) id"
      using named_made_new [OF N(2) md _ fresh(1), of h] by simp
    have ring: "ring_ok ((K(h := sz)) h') m" if "lookup_handle ht h' = Some (p, BIO_MAILBOX_HANDLE)" "((map_of (mailboxes s))(?p \<mapsto> ?m)) p = Some m" for h' p m
    proof (cases "h' = h")
      case True
      then show ?thesis using that md'(2) ring_ok_new [of sz c] by auto
    next
      case False
      then have "p \<noteq> ?p" using that(1) named_object [OF N(2), of h' p] \<open>N ?p = None\<close> md'(2) by auto
      then show ?thesis using that False md'(2) mb by (auto simp: mailbox_inv_def)
    qed
    have sig: "issued ht (mb_signal m)" if "((map_of (mailboxes s))(?p \<mapsto> ?m)) p = Some m" for p m
      using that mb md'(4) by (auto simp: mailbox_inv_def split: if_splits)
    have "mailbox_inv (K(h := sz)) s'"
      unfolding mailbox_inv_def s' using N N' ring sig
      by (simp del: fun_upd_apply) (metis dom_fun_upd option.distinct(1))
    moreover have "mailbox_of h s' = Some ?m" using md'(2) by (simp add: s' mailbox_of_def)
    moreover have "mailbox_of h' s' = mailbox_of h' s" if "h' \<noteq> h" for h'
    proof -
      have "p \<noteq> ?p" if "lookup_handle (handles s) h' = Some (p, BIO_MAILBOX_HANDLE)" for p
        using named_object [OF N(2) that] \<open>N ?p = None\<close> by auto
      then show ?thesis using that md'(2) by (auto simp: s' mailbox_of_def split: option.splits)
    qed
    ultimately show ?thesis using md'(3) by (simp add: s' messages_def ring_messages_def)
  qed
  show ?thesis
    using make_safe [OF sched_inv_handles [OF inv], of ?p BIO_MAILBOX_HANDLE]
    by (auto simp: bio__mailbox_open_def Let_def elim!: safe_mono dest!: post [OF _ refl])
qed

text \<open>The context after the handle of an open mailbox was closed and the mailbox freed.\<close>

lemma mailbox_inv_close:
  assumes mb: "mailbox_inv K s" and cl: "closed (handles s) h p BIO_MAILBOX_HANDLE ht"
  shows "mailbox_inv K (s\<lparr>handles := ht, mailboxes := del p (mailboxes s)\<rparr>)"
    "mailbox_of h (s\<lparr>handles := ht, mailboxes := del p (mailboxes s)\<rparr>) = None"
    "h' \<noteq> h \<Longrightarrow> mailbox_of h' (s\<lparr>handles := ht, mailboxes := del p (mailboxes s)\<rparr>) = mailbox_of h' s"
proof -
  have cl': "lookup_handle (handles s) h = Some (p, BIO_MAILBOX_HANDLE)" "lookup_handle ht = (lookup_handle (handles s))(h := None)"
    "\<And>k. issued (handles s) k \<Longrightarrow> issued ht k" using cl by (auto simp: closed_def)
  obtain N where N: "dom N = dom (map_of (mailboxes s))" "named BIO_MAILBOX_HANDLE (lookup_handle (handles s)) N id"
    using mb by (auto simp: mailbox_inv_def)
  have "\<exists>N. dom N = dom (map_of (mailboxes s)) - {p} \<and> named BIO_MAILBOX_HANDLE (lookup_handle ht) N id"
    using N(1) named_closed_remove [OF N(2) cl] by (intro exI [of _ "N(p := None)"]) simp
  then show "mailbox_inv K (s\<lparr>handles := ht, mailboxes := del p (mailboxes s)\<rparr>)"
    using mb cl'(2,3) by (auto simp: mailbox_inv_def split: if_splits)
  show "mailbox_of h (s\<lparr>handles := ht, mailboxes := del p (mailboxes s)\<rparr>) = None" using cl'(2) by (simp add: mailbox_of_def)
  have "q \<noteq> p" if "lookup_handle (handles s) h' = Some (q, BIO_MAILBOX_HANDLE)" "h' \<noteq> h" for q
    using named_object [OF N(2) that(1)] named_object [OF N(2) cl'(1)] that(2) by auto
  then show "h' \<noteq> h \<Longrightarrow> mailbox_of h' (s\<lparr>handles := ht, mailboxes := del p (mailboxes s)\<rparr>) = mailbox_of h' s"
    using cl'(2) by (auto simp: mailbox_of_def split: option.splits)
qed

lemma mailbox_close_safe [safe_rules]:
  assumes inv: "sched_inv_gen Vs Vm cur run s" and V: "emptied Vs" and mb: "mailbox_inv K s" and h: "issued (handles s) h"
  shows "safe (bio__mailbox_close h s) (\<lambda>s'. sched_inv_gen Vs Vm cur run s' \<and> mailbox_inv K s' \<and> mailbox_of h s' = None
    \<and> (\<forall>h'. h' \<noteq> h \<longrightarrow> mailbox_of h' s' = mailbox_of h' s)
    \<and> (\<forall>m. mailbox_of h s = Some m \<longrightarrow> mb_signal m \<noteq> BIO_INVALID_HANDLE \<longrightarrow> bio_check_signal (mb_signal m) s'))"
  using mb sched_inv_handles [OF inv] h
proof (cases rule: mailbox_cases)
  case closed
  then show ?thesis using inv mb close_none [OF sched_inv_handles [OF inv] h] by (simp add: bio__mailbox_close_def)
next
  case (open_ p m)
  note I = sched_invD [OF inv] and G = graph_okD [OF sched_invD(2) [OF inv]]
  show ?thesis
    unfolding bio__mailbox_close_def
  proof (rule safe_bind [OF close_safe [OF G(1) open_(3)]], goal_cases)
    case (1 x)
    then obtain ht where x: "x = (p, ht)" and cl: "closed (handles s) h p BIO_MAILBOX_HANDLE ht" by (cases x) auto
    let ?s1 = "s\<lparr>handles := ht\<rparr>"
    have inv1: "sched_inv_gen Vs Vm cur run ?s1"
      using I G named_closed [OF G(2) cl] named_closed [OF G(3) cl] named_closed [OF G(4) cl] cl
      by (simp add: sched_inv_gen_def graph_ok_def closed_def)
    have iss: "issued ht (mb_signal m)" using open_(7) cl by (simp add: closed_def)
    have raise: "safe (if bio_handle_compare (mb_signal m) BIO_INVALID_HANDLE \<noteq> 0
          then rbind (bio_raise_signal (mb_signal m) ?s1) (\<lambda>(_, s). Inr s) else Inr ?s1)
        (\<lambda>s2. sched_inv_gen Vs Vm cur run s2 \<and> sched_frame ?s1 s2 \<and> (mb_signal m \<noteq> BIO_INVALID_HANDLE \<longrightarrow> bio_check_signal (mb_signal m) s2))"
      using raise_signal_safe [OF inv1 V, of "mb_signal m"] iss inv1 by (auto elim!: safe_mono)
    have fin: "mailbox_inv K s3 \<and> mailbox_of h s3 = None \<and> (\<forall>h'. h' \<noteq> h \<longrightarrow> mailbox_of h' s3 = mailbox_of h' s)"
      if "sched_frame ?s1 s2" "s3 = s2\<lparr>mailboxes := del p (mailboxes s2)\<rparr>" for s2 s3
    proof -
      have "sched_frame (s\<lparr>handles := ht, mailboxes := del p (mailboxes s)\<rparr>) s3" using that by (simp add: sched_frame_def)
      from mailbox_inv_frame [OF mailbox_inv_close(1) [OF mb cl] this] show ?thesis
        using mailbox_inv_close [OF mb cl] by simp
    qed
    show ?case
      using raise open_(2,4,5)
      by (simp add: x Let_def) (auto elim!: safe_mono simp: bio_check_signal_def mailbox_inv_close [OF mb cl] dest!: fin [OF _ refl])
  qed
qed

end
