(* ===== verification/Bio.thy ===== *)
theory Bio
  imports EventLoop Mailbox
begin

text \<open>
  Start of the framework (\<open>bio_init\<close> of \<open>src/src/bio.c\<close>), and what is left of the
  objects when the loop has ended.
\<close>

section \<open>Model\<close>

definition BIO_DEFAULT_NUM_CLS_BUCKETS :: int where
  "BIO_DEFAULT_NUM_CLS_BUCKETS = 4"

definition bio_scheduler_init :: "'w bio_ctx \<Rightarrow> 'w bio_ctx" where
  "bio_scheduler_init s =
    s\<lparr>num_coros := 0, num_daemons := 0,
      num_cls_buckets := (if num_cls_buckets s = 0 then BIO_DEFAULT_NUM_CLS_BUCKETS
                          else sint (bio_next_pow2 (word_of_int (num_cls_buckets s))))\<rparr>"

text \<open>\<open>memset(&bio_ctx, 0, sizeof(bio_ctx))\<close> and the copy of the options.\<close>

definition zero_ctx :: "(addr list \<Rightarrow> addr) \<Rightarrow> int \<Rightarrow> 'w \<Rightarrow> 'w bio_ctx" where
  "zero_ctx alloc buckets w =
    \<lparr>allocator = alloc, num_cls_buckets = buckets, is_terminating = False,
     handles = \<lparr>handle_slots = [], handle_capacity = 0, next_handle_slot = 0, num_handles = 0\<rparr>,
     timer_entries = [], timer_capacity = 0, num_timers = 0, current_time_ms = 0,
     current_ready_coros = None, next_ready_coros = None, num_coros = 0, num_daemons = 0,
     coros = [], signals = [], monitor_impls = [], timer_impls = [], mailboxes = [],
     rest = \<lparr>exit_handlers = None, exit_infos = [], loggers = [], logger_impls = [], log_filename = None, log_depth = 0, log_prefix_len = 0,
     log_bufs = [], log_strings = [], file_loggers = [], service_datas = [],
     io_buffers = [], file_impls = [], socket_impls = [], thread_pool = [], worker_msgs = [], num_running_async_jobs = 0,
     BIO_STDIN = BIO_INVALID_HANDLE, BIO_STDOUT = BIO_INVALID_HANDLE, BIO_STDERR = BIO_INVALID_HANDLE, io_reqs = [], lseek_args = [],
     plat = \<lparr>signal_polled = False, signal_fd = 0, event_fd = 0, notification_counter = 0, ack_counter = 0,
       has_op_bind = False, has_op_listen = False, has_op_futex_wait = False\<rparr>\<rparr>, world = w\<rparr>"

text \<open>The part of \<open>bio_init\<close> that sets up the handle table, the timers and the scheduler.\<close>

definition init_core :: "('w \<Rightarrow> int \<times> 'w) \<Rightarrow> (addr list \<Rightarrow> addr) \<Rightarrow> int \<Rightarrow> 'w \<Rightarrow> 'w bio_ctx" where
  "init_core clk alloc buckets w =
    bio_scheduler_init (bio_timer_init clk ((zero_ctx alloc buckets w)\<lparr>handles := bio_handle_table_init\<rparr>))"

section \<open>The initial context\<close>

lemma named_empty: "named t (lookup_handle bio_handle_table_init) Map.empty nm"
  by (simp add: named_def init_inv)

lemma init_fields:
  "coros (init_core clk alloc buckets w) = []" "signals (init_core clk alloc buckets w) = []"
  "monitor_impls (init_core clk alloc buckets w) = []" "mailboxes (init_core clk alloc buckets w) = []"
  "handles (init_core clk alloc buckets w) = bio_handle_table_init" "allocator (init_core clk alloc buckets w) = alloc"
  "current_ready_coros (init_core clk alloc buckets w) = None" "next_ready_coros (init_core clk alloc buckets w) = None"
  "num_coros (init_core clk alloc buckets w) = 0" "num_daemons (init_core clk alloc buckets w) = 0"
  by (simp_all add: init_core_def bio_scheduler_init_def bio_timer_init_def zero_ctx_def split: prod.splits)

lemma init_idle:
  assumes "allocator_ok alloc"
  shows "idle_inv (init_core clk alloc buckets w)" "mailbox_inv K (init_core clk alloc buckets w)"
proof -
  let ?s = "init_core clk alloc buckets w"
  have "timer_inv ?s"
    using timer_init_inv [of clk "(zero_ctx alloc buckets w)\<lparr>handles := bio_handle_table_init\<rparr>"]
    by (simp add: init_core_def bio_scheduler_init_def timer_inv_def timers_of_def)
  moreover have "linked (\<lambda>c. None) (\<lambda>c. None)" by (simp add: linked_def)
  then have "graph_ok Map.empty Map.empty ?s"
    by (auto simp: graph_ok_def init_fields lists_empty named_empty init_inv intro!: exI [of _ Map.empty])
  ultimately show "idle_inv ?s"
    using assms
    by (simp add: idle_inv_def loop_inv_def sched_inv_gen_def init_fields queue_ok_def count_ok_def waits_ok_def states_def daemons_def)
  show "mailbox_inv K ?s"
    by (auto simp: mailbox_inv_def init_fields init_inv intro!: exI [of _ Map.empty] named_empty)
qed

section \<open>The end\<close>

text \<open>No coroutine left means no signal and no monitor left.\<close>

lemma no_coros_no_objects:
  assumes "graph_ok Map.empty Map.empty s" "map_of (coros s) = Map.empty"
  shows "map_of (signals s) = Map.empty" "map_of (monitor_impls s) = Map.empty"
proof -
  note G = graph_okD [OF assms(1)]
  have "map_of (signals s) p = None" for p
    using linkedD(1) [OF G(5), of p] assms(2) by (cases "map_of (signals s) p") (auto simp: lists_empty)
  then show "map_of (signals s) = Map.empty" by (rule ext)
  obtain W where W: "dom W = dom (map_of (monitor_impls s))" "linked (monitor_lists Map.empty (map_of (coros s))) W"
    using G(6) by blast
  have "W p = None" for p using linkedD(1) [OF W(2), of p] assms(2) by (cases "W p") (auto simp: lists_empty)
  then have "dom W = {}" by auto
  then show "map_of (monitor_impls s) = Map.empty" using W(1) by simp
qed

lemma terminated_empty:
  assumes "idle_inv s" "should_terminate s" "is_terminating s"
  shows "map_of (coros s) = Map.empty"
proof -
  have I: "sched_inv [] None s" using assms(1) by (simp add: idle_inv_def loop_inv_def)
  have "card (dom (daemons (map_of (coros s)))) = 0"
    using sched_invD(4) [OF I] assms(2,3) by (simp add: should_terminate_def count_ok_def)
  then have "dom (daemons (map_of (coros s))) = {}" using finite_daemons by simp
  then have "map_of (coros s) c = None" for c by (auto simp: daemons_def fun_eq_iff)
  then show ?thesis by (rule ext)
qed

section \<open>Monitors\<close>

text \<open>The monitors of a coroutine that ends raise the signals they were given.\<close>

definition monitored :: "addr list \<Rightarrow> bio_monitor_impl store \<Rightarrow> bio_handle \<Rightarrow> bool" where
  "monitored ms M h \<longleftrightarrow> (\<exists>m \<in> set ms. \<exists>x. map_of M m = Some x \<and> mon_signal x = h)"

lemma trigger_monitors_raises:
  assumes "sched_inv_gen Vs [c \<mapsto> ms] cur run s" "emptied Vs"
  shows "safe (trigger_monitors ms s) (\<lambda>s'. \<forall>h. issued (handles s) h \<longrightarrow>
    bio_check_signal h s \<or> monitored ms (monitor_impls s) h \<longrightarrow> bio_check_signal h s')"
  using assms
proof (induction ms arbitrary: s)
  case Nil
  then show ?case by (simp add: monitored_def)
next
  case (Cons p ms)
  note G = graph_okD [OF sched_invD(2) [OF Cons.prems(1)]]
  obtain W where W: "dom W = dom (map_of (monitor_impls s))" "linked (monitor_lists [c \<mapsto> p # ms] (map_of (coros s))) W"
    using G(6) by blast
  have "W p = Some c" using linkedD(2) [OF W(2), of c "p # ms" p] by (simp add: monitor_lists_def)
  then obtain x where x: "map_of (monitor_impls s) p = Some x" using W(1) by auto
  have pms: "p \<notin> set ms" using linkedD(3) [OF W(2), of c "p # ms"] by (simp add: monitor_lists_def)
  note R = safe_conj [OF raise_signal_safe [OF Cons.prems G(7) [OF x]] raise_keeps_raised [OF Cons.prems G(7) [OF x]]]
  show ?case
    unfolding trigger_monitors.simps deref_Some [OF x] rbind_simps
  proof (rule safe_bind [OF R], goal_cases)
    case (1 y)
    then obtain w s1 where y: "y = (w, s1)" and inv1: "sched_inv_gen Vs [c \<mapsto> p # ms] cur run s1" and fr: "sched_frame s s1"
      "bio_check_signal (mon_signal x) s1" "monitor_impls s1 = monitor_impls s"
      "\<forall>k. issued (handles s) k \<longrightarrow> bio_check_signal k s \<longrightarrow> bio_check_signal k s1"
      by (cases y) (auto simp del: fun_upd_apply)
    note I1 = sched_invD [OF inv1] and G1 = graph_okD [OF sched_invD(2) [OF inv1]]
    have x1: "map_of (monitor_impls s1) p = Some x" using x fr by simp
    show ?case
      unfolding y prod.case
    proof (rule safe_bind [OF close_safe [OF G1(1) named_handle [OF G1(4) x1]]], goal_cases)
      case (1 z)
      then obtain ht where z: "z = (p, ht)" and m: "closed (handles s1) (mon_handle x) p BIO_MONITOR_HANDLE ht" by (cases z) auto
      let ?s2 = "s1\<lparr>handles := ht, monitor_impls := del p (monitor_impls s1)\<rparr>"
      have inv2: "sched_inv_gen Vs [c \<mapsto> ms] cur run ?s2"
        using graph_ok_destroy_monitor [OF I1(2) m] I1 by (simp_all add: sched_inv_gen_def)
      have chk: "issued (handles ?s2) k \<and> (bio_check_signal k s1 \<longrightarrow> bio_check_signal k ?s2)" if "issued (handles s) k" for k
        using m G1(1) sched_frame_issued [OF fr(1) that] by (auto simp: bio_check_signal_def resolve_lookup closed_def)
      have mon: "monitored (p # ms) (monitor_impls s) k \<Longrightarrow> k = mon_signal x \<or> monitored ms (monitor_impls ?s2) k" for k
        using pms x fr(3) by (auto simp: monitored_def)
      show ?case
        unfolding z prod.case
        by (rule safe_mono [OF Cons.IH [OF inv2 Cons.prems(2)]]) (use fr chk mon in blast)
    qed
  qed
qed

end
