(* ===== verification/WaitProtocol.thy ===== *)
theory WaitProtocol
  imports EventLoop
begin

text \<open>
  The whole life of a wait: \<open>bio_wait_for_signals\<close> marks the signals, the loop
  suspends the coroutine, raises wake it. The lemmas put theories \<open>Waiting\<close> and
  \<open>EventLoop\<close> together.
\<close>

text \<open>What \<open>bio_loop\<close> does to a coroutine that yielded with blocking signals.\<close>

definition suspend_coro :: "addr \<Rightarrow> 'w bio_ctx \<Rightarrow> 'w bio_ctx" where
  "suspend_coro c s = (case map_of (coros s) c of
     Some k \<Rightarrow> s\<lparr>coros := put c (k\<lparr>coro_state := BIO_CORO_WAITING\<rparr>) (coros s)\<rparr>
   | None \<Rightarrow> s)"

lemma suspend_coro_inv:
  assumes inv: "sched_inv cur (Some c) s" and k: "map_of (coros s) c = Some k" "0 < num_blocking_signals k"
  shows "sched_inv cur None (suspend_coro c s)" "suspended c (num_blocking_signals k) (suspend_coro c s)"
    "awaited c (suspend_coro c s) = awaited c s" "signals (suspend_coro c s) = signals s" "handles (suspend_coro c s) = handles s"
proof -
  let ?k = "k\<lparr>coro_state := BIO_CORO_WAITING\<rparr>"
  note I = sched_invD [OF inv]
  obtain k' where "map_of (coros s) c = Some k'" "coro_state k' = BIO_CORO_RUNNING" using running_coro [OF inv] by blast
  with k have st: "states (map_of (coros s)) c = Some (BIO_CORO_RUNNING, num_blocking_signals k)" by (simp add: states_def)
  have "graph_ok Map.empty Map.empty (s\<lparr>coros := put c ?k (coros s)\<rparr>)"
    by (rule graph_ok_coro [OF I(2) k(1)]) simp_all
  moreover have v: "daemons ((map_of (coros s))(c \<mapsto> ?k)) = daemons (map_of (coros s))"
    "counters ((map_of (coros s))(c \<mapsto> ?k)) = counters (map_of (coros s))"
    using views_same [of "map_of (coros s)", OF k(1), of ?k] by simp_all
  ultimately show "sched_inv cur None (suspend_coro c s)"
    using I queue_ok_stop(1) [OF I(3) st k(2)] by (simp add: suspend_coro_def k(1) sched_inv_gen_def views_upd(1))
  show "suspended c (num_blocking_signals k) (suspend_coro c s)"
    by (simp add: suspend_coro_def k(1) suspended_def views_upd(1))
  show "awaited c (suspend_coro c s) = awaited c s" "signals (suspend_coro c s) = signals s" "handles (suspend_coro c s) = handles s"
    using v(2) by (simp_all add: suspend_coro_def k(1) awaited_def)
qed

text \<open>A coroutine suspended by a wait on \<open>hs\<close>.\<close>

lemma wait_suspended:
  assumes inv: "sched_inv cur (Some self) s" and hs: "\<forall>h \<in> set hs. issued (handles s) h"
    and r: "wait_prepare self hs wait_all s = Inr (True, s1)"
  shows "sched_inv cur None (suspend_coro self s1)"
    "suspended self (wait_blockers self hs wait_all s) (suspend_coro self s1)"
    "handles (suspend_coro self s1) = handles s"
    "awaited self (suspend_coro self s1) = awaited self s1" "signals (suspend_coro self s1) = signals s1"
proof -
  have s1: "sched_inv cur (Some self) s1" "handles s1 = handles s"
    using wait_prepare_safe [OF inv hs, of wait_all] by (simp_all add: r)
  obtain k where k: "wait_suspends self hs wait_all s" "map_of (coros s1) = (map_of (coros s))(self \<mapsto> k\<lparr>wait_counter := wait_counter k + 1,
       num_blocking_signals := wait_blockers self hs wait_all s\<rparr>)"
    using wait_prepare_Inr [OF inv hs r] by blast
  let ?k = "k\<lparr>wait_counter := wait_counter k + 1, num_blocking_signals := wait_blockers self hs wait_all s\<rparr>"
  have k1: "map_of (coros s1) self = Some ?k" using k(2) by simp
  have pos: "0 < num_blocking_signals ?k" using wait_blockers_pos [OF k(1)] by simp
  note S = suspend_coro_inv [OF s1(1) k1 pos]
  show "sched_inv cur None (suspend_coro self s1)"
    "suspended self (wait_blockers self hs wait_all s) (suspend_coro self s1)"
    "handles (suspend_coro self s1) = handles s"
    "awaited self (suspend_coro self s1) = awaited self s1" "signals (suspend_coro self s1) = signals s1"
    using S s1(2) by simp_all
qed

text \<open>The awaited signals, by their handles.\<close>

lemma awaited_named:
  assumes inv: "sched_inv cur (Some self) s" and hs: "\<forall>h \<in> set hs. issued (handles s) h"
    and r: "wait_prepare self hs wait_all s = Inr (True, s1)"
  shows "awaited self s1 \<subseteq> signals_named R s1 \<longleftrightarrow> {h \<in> set hs. blocks_on self s h} \<subseteq> R"
    "awaited self s1 \<inter> signals_named R s1 = {} \<longleftrightarrow> {h \<in> set hs. blocks_on self s h} \<inter> R = {}"
proof -
  let ?B = "{h \<in> set hs. blocks_on self s h}" and ?p = "\<lambda>h. bio_resolve_handle h BIO_SIGNAL_HANDLE (handles s)"
  obtain k :: bio_coro_impl where k: "map_of (signals s1) = mark_signals self (wait_counter k + 1) hs s"
    using wait_prepare_Inr [OF inv hs r] by blast
  have "?p h \<in> signals_named R s1 \<longleftrightarrow> h \<in> R" if "h \<in> ?B" for h
  proof -
    have h: "issued (handles s) h" "blocks_on self s h" using hs that by simp_all
    then obtain g where g: "map_of (signals s) (?p h) = Some g" "sig_handle g = h"
      using blocks_on_iff [OF sched_invD(2) [OF inv] h(1), THEN iffD1, OF conjI [OF h(2) refl]] by blast
    then show ?thesis by (simp add: signals_named_def k mark_signals_def)
  qed
  then show "awaited self s1 \<subseteq> signals_named R s1 \<longleftrightarrow> ?B \<subseteq> R" "awaited self s1 \<inter> signals_named R s1 = {} \<longleftrightarrow> ?B \<inter> R = {}"
    unfolding wait_prepare_awaited [OF inv hs r] by blast+
qed

lemma wait_awaited_nonempty:
  assumes inv: "sched_inv cur (Some self) s" and hs: "\<forall>h \<in> set hs. issued (handles s) h"
    and r: "wait_prepare self hs wait_all s = Inr (True, s1)"
  shows "awaited self s1 \<noteq> {}"
  using wait_prepare_Inr [OF inv hs r] wait_prepare_awaited [OF inv hs r] by (auto simp: wait_suspends_def)

text \<open>With a wait for any signal, the first raise of an awaited signal wakes the coroutine.\<close>

lemma raise_signals_any:
  fixes s :: "'w bio_ctx"
  assumes "sched_inv_gen Vs Vm cur run s" "emptied Vs" "\<forall>h \<in> set hs. issued (handles s) h" "suspended c 1 s"
  shows "safe (raise_signals hs s) (\<lambda>s'. if awaited c s \<inter> signals_named (set hs) s = {} then suspended c 1 s' else runnable c s')"
  using assms
proof (induction hs arbitrary: s)
  case Nil
  then show ?case by (simp add: signals_named_def)
next
  case (Cons h hs)
  let ?A = "awaited c s" and ?D = "signals_named {h} s" and ?N = "signals_named (set hs) s"
  have N: "signals_named (set (h # hs)) s = ?N \<union> ?D" by (auto simp: signals_named_def)
  have issued: "issued (handles s) h" using Cons.prems(3) by simp
  show ?case
  proof (rule raise_signals_step [OF Cons.prems(1-3) raise_signal_suspended [OF Cons.prems(1,2) issued Cons.prems(4), of "set hs"]])
    fix s' :: "'w bio_ctx"
    assume inv: "sched_inv_gen Vs Vm cur run s'" and hs: "\<forall>h \<in> set hs. issued (handles s') h"
      and s': "awaited c s' = ?A - ?D \<and> signals_named (set hs) s' = ?N - ?D \<and>
        (if ?A \<inter> ?D = {} then suspended c 1 s' else if (1::int) = 1 then runnable c s' else suspended c (1 - 1) s')"
    show "safe (raise_signals hs s') (\<lambda>s''. if ?A \<inter> signals_named (set (h # hs)) s = {} then suspended c 1 s'' else runnable c s'')"
    proof (cases "?A \<inter> ?D = {}")
      case True
      then have *: "(?A - ?D) \<inter> (?N - ?D) = {} \<longleftrightarrow> ?A \<inter> (?N \<union> ?D) = {}" by blast
      have **: "awaited c s' = ?A - ?D" "signals_named (set hs) s' = ?N - ?D" "suspended c 1 s'" using s' True by auto
      from Cons.IH [OF inv Cons.prems(2) hs **(3), unfolded **(1,2) *] show ?thesis by (simp only: N)
    next
      case False
      then have "runnable c s'" "?A \<inter> (?N \<union> ?D) \<noteq> {}" using s' by auto
      with raise_signals_runnable [OF inv Cons.prems(2) hs] show ?thesis by (simp only: N if_False)
    qed
  qed
qed

end
