(* ===== verification/Owned.thy ===== *)
theory Owned
  imports Objects
begin

text \<open>
  Objects that are reached through their handle only (timers, mailboxes, buffers,
  loggers, files, sockets): the live handles with the tag of the component and
  the objects of its store correspond one to one.
\<close>

definition owned :: "bio_tag \<Rightarrow> handle_table \<Rightarrow> 'o store \<Rightarrow> bool" where
  "owned t ht st \<longleftrightarrow> (\<exists>N. dom N = dom (map_of st) \<and> named t (lookup_handle ht) N id)"

lemma owned_make:
  assumes "owned t ht st" "made ht h p t ht'" "map_of st p = None" "p \<noteq> NULL"
  shows "owned t ht' (put p x st)"
proof -
  obtain N where N: "dom N = dom (map_of st)" "named t (lookup_handle ht) N id" using assms(1) by (auto simp: owned_def)
  have "N p = None" using N(1) assms(3) by (metis domIff)
  then have "named t (lookup_handle ht') (N(p \<mapsto> h)) id" by (rule named_made_new [OF N(2) assms(2) _ assms(4)]) simp
  moreover have "dom (N(p \<mapsto> h)) = dom (map_of (put p x st))" using N(1) by simp
  ultimately show ?thesis unfolding owned_def by blast
qed

lemma owned_close:
  assumes "owned t ht st" "closed ht h p t ht'"
  shows "owned t ht' (del p st)"
proof -
  obtain N where N: "dom N = dom (map_of st)" "named t (lookup_handle ht) N id" using assms(1) by (auto simp: owned_def)
  have "named t (lookup_handle ht') (N(p := None)) id" by (rule named_closed_remove [OF N(2) assms(2)])
  moreover have "dom (N(p := None)) = dom (map_of (del p st))" using N(1) by simp
  ultimately show ?thesis unfolding owned_def by blast
qed

lemma owned_put: "map_of st p = Some y \<Longrightarrow> owned t ht (put p x st) = owned t ht st"
  by (simp add: owned_def insert_absorb domI)

lemma owned_frame:
  assumes "\<And>h p. lookup_handle ht' h = Some (p, t) \<longleftrightarrow> lookup_handle ht h = Some (p, t)"
  shows "owned t ht' st = owned t ht st"
  by (simp add: owned_def named_cong [OF assms])

lemma owned_table_frame: "table_frame T ht ht' \<Longrightarrow> t \<notin> T \<Longrightarrow> owned t ht' st = owned t ht st"
  by (rule owned_frame) (simp add: table_frame_def)

lemma owned_made: "made ht h p t' ht' \<Longrightarrow> t' \<noteq> t \<Longrightarrow> owned t ht' st = owned t ht st"
  by (rule owned_table_frame [OF made_frame [where T = "{t'}"]]) auto

lemma owned_closed: "closed ht h p t' ht' \<Longrightarrow> t' \<noteq> t \<Longrightarrow> owned t ht' st = owned t ht st"
  by (rule owned_table_frame [OF closed_frame [where T = "{t'}"]]) auto

lemma owned_object:
  assumes "owned t ht st" "lookup_handle ht h = Some (p, t)"
  shows "\<exists>x. map_of st p = Some x" "p \<noteq> NULL"
proof -
  obtain N where N: "dom N = dom (map_of st)" "named t (lookup_handle ht) N id" using assms(1) by (auto simp: owned_def)
  obtain y where y: "N p = Some y" using named_object [OF N(2) assms(2)] by auto
  show "p \<noteq> NULL" by (rule named_neq_NULL [OF N(2) y])
  show "\<exists>x. map_of st p = Some x" using y N(1) by (metis domD domI)
qed

lemma owned_unique:
  assumes "owned t ht st" "lookup_handle ht h = Some (p, t)" "lookup_handle ht k = Some (p, t)"
  shows "k = h"
proof -
  obtain N where N: "named t (lookup_handle ht) N id" using assms(1) by (auto simp: owned_def)
  from named_object [OF N assms(2)] named_object [OF N assms(3)] show ?thesis by auto
qed

text \<open>What \<open>bio_resolve_handle\<close> finds: nothing, or the object.\<close>

lemma owned_resolve:
  assumes "owned t ht st" "handle_inv ht" "issued ht h"
  obtains (dead) "bio_resolve_handle h t ht = NULL" "\<nexists>p. lookup_handle ht h = Some (p, t)"
  | (live) p x where "bio_resolve_handle h t ht = p" "p \<noteq> NULL" "lookup_handle ht h = Some (p, t)" "map_of st p = Some x"
proof (cases "\<exists>p. lookup_handle ht h = Some (p, t)")
  case True
  then obtain p where p: "lookup_handle ht h = Some (p, t)" by blast
  obtain x where x: "map_of st p = Some x" using owned_object(1) [OF assms(1) p] by blast
  show thesis
    by (rule live [OF _ owned_object(2) [OF assms(1) p] p x]) (simp add: resolve_lookup [OF assms(2,3)] p)
next
  case False
  then show thesis using assms(2,3) by (intro dead) (auto simp: resolve_lookup split: option.splits)
qed

lemma resolve_live:
  assumes "handle_inv ht" "issued ht h" "bio_resolve_handle h t ht = p" "p \<noteq> NULL"
  shows "lookup_handle ht h = Some (p, t)"
  using assms by (auto simp: resolve_lookup split: option.splits if_splits)

lemma made_resolve: "made ht h p t ht' \<Longrightarrow> bio_resolve_handle h t ht' = p"
  by (simp add: made_def resolve_lookup)

lemma closed_resolve: "closed ht h p t ht' \<Longrightarrow> handle_inv ht \<Longrightarrow> bio_resolve_handle h t' ht' = NULL"
  using lookup_issued [of ht h] by (simp add: closed_def resolve_lookup)

end
