(* ===== verification/Running.thy ===== *)
theory Running
  imports Prelude
begin

text \<open>
  Code that may wait in a loop: its result is \<open>None\<close> when it never returns, and
  otherwise the outcome of theory \<open>Prelude\<close>.
\<close>

type_synonym 'a run = "'a outcome option"

definition lift :: "'a outcome \<Rightarrow> 'a run" where
  "lift m = Some m"

definition ret :: "'a \<Rightarrow> 'a run" where
  "ret x = Some (Inr x)"

definition obind :: "'a run \<Rightarrow> ('a \<Rightarrow> 'b run) \<Rightarrow> 'b run" where
  "obind m f = Option.bind m (\<lambda>r. case r of Inl e \<Rightarrow> Some (Inl e) | Inr x \<Rightarrow> f x)"

lemma obind_simps [simp]:
  "obind None f = None" "obind (Some (Inl e)) f = Some (Inl e)" "obind (Some (Inr x)) f = f x"
  "obind (ret x) f = f x" "obind (lift (Inr x)) f = f x" "obind (lift (Inl e)) f = Some (Inl e)"
  by (simp_all add: obind_def ret_def lift_def)

lemma obind_cong [fundef_cong]:
  "m = m' \<Longrightarrow> (\<And>x. m' = Some (Inr x) \<Longrightarrow> f x = g x) \<Longrightarrow> obind m f = obind m' g"
  by (cases m') (auto simp: obind_def split: sum.split)

lemma obind_mono [partial_function_mono]:
  assumes "mono_option B" "\<And>y. mono_option (\<lambda>f. C y f)"
  shows "mono_option (\<lambda>f. obind (B f) (\<lambda>y. C y f))"
  unfolding obind_def
proof (rule bind_mono [OF assms(1)])
  show "mono_option (\<lambda>f. case y of Inl e \<Rightarrow> Some (Inl e) | Inr x \<Rightarrow> C x f)" for y
    using assms(2) by (cases y) (simp_all add: option.const_mono)
qed

lemma ret_eq [simp]: "ret x = ret y \<longleftrightarrow> x = y" "ret x = Some r \<longleftrightarrow> r = Inr x" "Some r = ret x \<longleftrightarrow> r = Inr x"
  by (auto simp: ret_def)

text \<open>\<open>runs m Q\<close>: if the code returns, it did so safely and with a result in \<open>Q\<close>.\<close>

definition runs :: "'a run \<Rightarrow> ('a \<Rightarrow> bool) \<Rightarrow> bool" where
  "runs m Q \<longleftrightarrow> (\<forall>r. m = Some r \<longrightarrow> safe r Q)"

lemma runs_simps [simp]:
  "runs None Q" "runs (Some r) Q = safe r Q" "runs (ret x) Q = Q x" "runs (lift m) Q = safe m Q"
  by (simp_all add: runs_def ret_def lift_def)

lemma runs_obind [simp]: "runs (obind m f) Q = runs m (\<lambda>x. runs (f x) Q)"
  by (cases m) (auto simp: obind_def runs_def split: sum.split)

lemma runs_mono: "runs m P \<Longrightarrow> (\<And>x. P x \<Longrightarrow> Q x) \<Longrightarrow> runs m Q"
  by (auto simp: runs_def intro: safe_mono)

lemma runs_bind: "runs m P \<Longrightarrow> (\<And>x. P x \<Longrightarrow> runs (f x) Q) \<Longrightarrow> runs (obind m f) Q"
  by (auto intro: runs_mono)

lemma runs_lift: "safe m P \<Longrightarrow> (\<And>x. P x \<Longrightarrow> runs (f x) Q) \<Longrightarrow> runs (obind (lift m) f) Q"
  by (auto intro: safe_mono)

end
