(* ===== verification/Service.thy ===== *)
theory Service
  imports WaitProtocol Mailbox Owned Running
begin

text \<open>
  Services (\<open>src/src/service.c\<close>, the macros of \<open>src/include/bio/service.h\<close> and the
  sending macro of \<open>src/include/bio/mailbox.h\<close>): a coroutine with a mailbox, and
  synchronous calls to it that can be cancelled.
\<close>

section \<open>Model\<close>

datatype bio_call_status = BIO_CALL_OK | BIO_CALL_CANCELLED | BIO_CALL_TARGET_DEAD

record bio_service_msg_base =
  bio__ack_signal :: bio_handle
  bio__cancel_signal :: bio_handle

record bio_service_options =
  coro_daemon :: bool
  mailbox_capacity :: "32 word"

abbreviation set_service_datas :: "bio_service_data store \<Rightarrow> 'w bio_ctx \<Rightarrow> 'w bio_ctx" where
  "set_service_datas d s \<equiv> s\<lparr>rest := (rest s)\<lparr>service_datas := d\<rparr>\<rparr>"

text \<open>
  The coroutine of a service. \<open>call entry data\<close> runs the entry point of the service,
  application code that gets the address of the service data.
\<close>

definition bio_service_wrapper :: "(addr \<Rightarrow> addr \<Rightarrow> 'w bio_ctx \<Rightarrow> 'w bio_ctx run) \<Rightarrow> addr \<Rightarrow> 'w bio_ctx \<Rightarrow> 'w bio_ctx run" where
  "bio_service_wrapper call p s =
    obind (lift (deref (service_datas (rest s)) p)) (\<lambda>service_data.
    let mailbox = svd_mailbox service_data in
    obind (lift (bio_raise_signal (svd_ready_signal service_data) s)) (\<lambda>(_, s).
    obind (lift (deref (service_datas (rest s)) p)) (\<lambda>service_data.
    obind (call (svd_entry service_data) p s) (\<lambda>s.
    lift (bio__mailbox_close mailbox s)))))"

text \<open>The function pointer \<open>bio_service_wrapper\<close>.\<close>

definition bio_service_wrapper_fn :: addr where
  "bio_service_wrapper_fn = 2"

text \<open>The service data live on the caller's stack until the function returns.\<close>

definition bio__service_start ::
    "('w \<Rightarrow> int \<times> 'w) \<Rightarrow> (addr \<Rightarrow> 'w \<Rightarrow> 'w) \<Rightarrow> (addr \<Rightarrow> 'w bio_ctx \<Rightarrow> 'w bio_ctx outcome) \<Rightarrow> addr \<Rightarrow> nat \<Rightarrow> bio_service_options option \<Rightarrow>
     addr \<Rightarrow> addr list \<Rightarrow> 'w bio_ctx \<Rightarrow> (bio_service \<times> 'w bio_ctx) outcome" where
  "bio__service_start clk mco_create mco_yield self msg_size service_options entry args s =
    (let options = (case service_options of None \<Rightarrow> \<lparr>coro_daemon = False, mailbox_capacity = 0\<rparr> | Some opts \<Rightarrow> opts);
         capacity = (if mailbox_capacity options > 0 then mailbox_capacity options else 4) in
     rbind (bio__mailbox_open msg_size capacity s) (\<lambda>(mailbox, s).
     rbind (bio_make_signal self s) (\<lambda>(ready_signal, s).
     let p = bio_malloc s;
         service_data = \<lparr>svd_mailbox = mailbox, svd_ready_signal = ready_signal, svd_entry = entry, svd_args = args\<rparr>;
         s = set_service_datas (put p service_data (service_datas (rest s))) s in
     rbind (bio_spawn_ex clk mco_create bio_service_wrapper_fn p (coro_daemon options) s) (\<lambda>(coro, s).
     rbind (bio_wait_for_one_signal mco_yield self ready_signal s) (\<lambda>s.
     Inr (\<lparr>svc_coro = coro, svc_mailbox = mailbox\<rparr>, set_service_datas (del p (service_datas (rest s))) s))))))"

definition bio__service_get_info :: "addr \<Rightarrow> 'w bio_ctx \<Rightarrow> (bio_handle \<times> addr list) outcome" where
  "bio__service_get_info p s =
    rbind (deref (service_datas (rest s)) p) (\<lambda>service_data. Inr (svd_mailbox service_data, svd_args service_data))"

definition bio__service_stop ::
    "(addr \<Rightarrow> 'w bio_ctx \<Rightarrow> 'w bio_ctx outcome) \<Rightarrow> addr \<Rightarrow> bio_handle \<Rightarrow> bio_handle \<Rightarrow> 'w bio_ctx \<Rightarrow> 'w bio_ctx outcome" where
  "bio__service_stop mco_yield self coro mailbox s =
    rbind (bio__mailbox_close mailbox s) (\<lambda>s.
    rbind (get_coro_state coro s) (\<lambda>st.
    if st \<noteq> BIO_CORO_DEAD then bio_join mco_yield self coro s else Inr s))"

text \<open>
  The loop of \<open>bio__service_call\<close> that tries to deliver the message, and the part
  from there to the decision on the result.
\<close>

partial_function (option) service_send ::
    "(addr \<Rightarrow> 'w bio_ctx \<Rightarrow> 'w bio_ctx outcome) \<Rightarrow> addr \<Rightarrow> bio_handle \<Rightarrow> bio_handle \<Rightarrow> bio_handle \<Rightarrow> byte list \<Rightarrow> 'w bio_ctx \<Rightarrow> 'w bio_ctx run" where
  "service_send mco_yield self cancel_signal monitor_signal mailbox msg s =
    (if \<not> (bio_handle_compare cancel_signal BIO_INVALID_HANDLE \<noteq> 0 \<and> bio_check_signal cancel_signal s)
        \<and> \<not> bio_check_signal monitor_signal s
     then obind (lift (bio__mailbox_send mailbox msg s)) (\<lambda>r.
          if fst r then ret (snd r)
          else obind (lift (mco_yield self (snd r))) (service_send mco_yield self cancel_signal monitor_signal mailbox msg))
     else ret s)"

definition service_status :: "bio_handle \<Rightarrow> bio_handle \<Rightarrow> 'w bio_ctx \<Rightarrow> bio_call_status" where
  "service_status ack_signal cancel_signal s =
    (if bio_check_signal ack_signal s then BIO_CALL_OK
     else if bio_handle_compare cancel_signal BIO_INVALID_HANDLE \<noteq> 0 \<and> bio_check_signal cancel_signal s then BIO_CALL_CANCELLED
     else BIO_CALL_TARGET_DEAD)"

definition service_await ::
    "(addr \<Rightarrow> 'w bio_ctx \<Rightarrow> 'w bio_ctx outcome) \<Rightarrow> addr \<Rightarrow> bio_handle \<Rightarrow> bio_handle \<Rightarrow> bio_handle \<Rightarrow> bio_handle \<Rightarrow> byte list \<Rightarrow>
     'w bio_ctx \<Rightarrow> (bio_call_status \<times> 'w bio_ctx) run" where
  "service_await mco_yield self ack_signal monitor_signal cancel_signal mailbox msg s =
    obind (service_send mco_yield self cancel_signal monitor_signal mailbox msg s) (\<lambda>s.
    obind (lift (bio_wait_for_signals mco_yield self [ack_signal, monitor_signal, cancel_signal] False s)) (\<lambda>s.
    ret (service_status ack_signal cancel_signal s, s)))"

definition service_cleanup :: "bio_handle \<Rightarrow> bio_handle \<Rightarrow> bio_handle \<Rightarrow> 'w bio_ctx \<Rightarrow> 'w bio_ctx outcome" where
  "service_cleanup monitor monitor_signal ack_signal s =
    rbind (bio_unmonitor monitor s) (\<lambda>s.
    rbind (bio_raise_signal monitor_signal s) (\<lambda>(_, s).
    rbind (bio_raise_signal ack_signal s) (\<lambda>(_, s). Inr s)))"

text \<open>
  \<open>msg base\<close> are the bytes of the message when its \<open>bio__service_msg_base\<close> holds \<open>base\<close>.
\<close>

definition bio__service_call ::
    "(addr \<Rightarrow> 'w bio_ctx \<Rightarrow> 'w bio_ctx outcome) \<Rightarrow> addr \<Rightarrow> bio_handle \<Rightarrow> bio_handle \<Rightarrow> (bio_service_msg_base \<Rightarrow> byte list) \<Rightarrow> bio_handle \<Rightarrow>
     'w bio_ctx \<Rightarrow> (bio_call_status \<times> 'w bio_ctx) run" where
  "bio__service_call mco_yield self coro mailbox msg cancel_signal s =
    obind (lift (get_coro_state coro s)) (\<lambda>st.
    if st = BIO_CORO_DEAD then ret (BIO_CALL_TARGET_DEAD, s)
    else
      obind (lift (bio_make_signal self s)) (\<lambda>(ack_signal, s).
      let data = msg \<lparr>bio__ack_signal = ack_signal, bio__cancel_signal = cancel_signal\<rparr> in
      obind (lift (bio_make_signal self s)) (\<lambda>(monitor_signal, s).
      obind (lift (bio_monitor coro monitor_signal s)) (\<lambda>(monitor, s).
      obind (service_await mco_yield self ack_signal monitor_signal cancel_signal mailbox data s) (\<lambda>(status, s).
      obind (lift (service_cleanup monitor monitor_signal ack_signal s)) (\<lambda>s. ret (status, s)))))))"

definition bio__service_is_call_cancelled :: "bio_service_msg_base \<Rightarrow> 'w bio_ctx \<Rightarrow> bool" where
  "bio__service_is_call_cancelled base s =
    (bio_handle_compare (bio__cancel_signal base) BIO_INVALID_HANDLE \<noteq> 0 \<and> bio_check_signal (bio__cancel_signal base) s)"

definition bio__service_begin_response :: "bio_service_msg_base \<Rightarrow> 'w bio_ctx \<Rightarrow> bool" where
  "bio__service_begin_response base s =
    (bio_handle_compare (bio__ack_signal base) BIO_INVALID_HANDLE \<noteq> 0 \<and> \<not> bio__service_is_call_cancelled base s)"

text \<open>\<open>bio_respond(msg) { block }\<close>.\<close>

definition bio_respond :: "('w bio_ctx \<Rightarrow> 'w bio_ctx outcome) \<Rightarrow> bio_service_msg_base \<Rightarrow> 'w bio_ctx \<Rightarrow> 'w bio_ctx outcome" where
  "bio_respond block base s =
    (if bio__service_begin_response base s
     then rbind (block s) (\<lambda>s. rbind (bio_raise_signal (bio__ack_signal base) s) (\<lambda>(_, s). Inr s))
     else Inr s)"

text \<open>\<open>bio_wait_and_send_message\<close> of the mailboxes; \<open>bio_notify_service\<close> is one use of it.\<close>

partial_function (option) bio_wait_and_send_message ::
    "(addr \<Rightarrow> 'w bio_ctx \<Rightarrow> 'w bio_ctx outcome) \<Rightarrow> addr \<Rightarrow> ('w bio_ctx \<Rightarrow> bool outcome) \<Rightarrow> bio_handle \<Rightarrow> byte list \<Rightarrow> 'w bio_ctx \<Rightarrow> 'w bio_ctx run" where
  "bio_wait_and_send_message mco_yield self condition mailbox msg s =
    (if bio__mailbox_is_open mailbox s then
       obind (lift (condition s)) (\<lambda>c.
       if c then
         obind (lift (bio__mailbox_send mailbox msg s)) (\<lambda>r.
         if fst r then ret (snd r)
         else obind (lift (mco_yield self (snd r))) (bio_wait_and_send_message mco_yield self condition mailbox msg))
       else ret s)
     else ret s)"

definition bio_notify_service ::
    "(addr \<Rightarrow> 'w bio_ctx \<Rightarrow> 'w bio_ctx outcome) \<Rightarrow> addr \<Rightarrow> bio_service \<Rightarrow> byte list \<Rightarrow> bool \<Rightarrow> 'w bio_ctx \<Rightarrow> 'w bio_ctx run" where
  "bio_notify_service mco_yield self service msg retry_condition =
    bio_wait_and_send_message mco_yield self
      (\<lambda>s. rbind (get_coro_state (svc_coro service) s) (\<lambda>st. Inr (st \<noteq> BIO_CORO_DEAD \<and> retry_condition)))
      (svc_mailbox service) msg"

section \<open>What a caller relies on\<close>

text \<open>
  The caller's context: its own coroutine runs, and messages to the mailbox have
  \<open>n\<close> bytes. A context switch keeps all this and never forgets a handle; a coroutine
  that waits for signals is only resumed when one of them has been raised.
\<close>

definition call_inv :: "addr \<Rightarrow> bio_handle \<Rightarrow> nat \<Rightarrow> 'w bio_ctx \<Rightarrow> bool" where
  "call_inv self mailbox n s \<longleftrightarrow> (\<exists>cur K. sched_inv cur (Some self) s \<and> mailbox_inv K s \<and> K mailbox = n)"

definition awaited_handles :: "addr \<Rightarrow> 'w bio_ctx \<Rightarrow> bio_handle set" where
  "awaited_handles self s = {h. \<exists>p. lookup_handle (handles s) h = Some (p, BIO_SIGNAL_HANDLE) \<and> p \<in> awaited self s}"

text \<open>A signal of the coroutine \<open>self\<close>: it is raised, or a wait of \<open>self\<close> blocks on it.\<close>

definition mine :: "addr \<Rightarrow> bio_handle \<Rightarrow> 'w bio_ctx \<Rightarrow> bool" where
  "mine self h s \<longleftrightarrow> bio_check_signal h s \<or> blocks_on self s h"

definition sig_kept :: "'w bio_ctx \<Rightarrow> 'w bio_ctx \<Rightarrow> bool" where
  "sig_kept s s' \<longleftrightarrow> (\<forall>h. issued (handles s) h \<longrightarrow> issued (handles s') h \<and> (\<forall>self. mine self h s \<longrightarrow> mine self h s'))"

definition waits :: "addr \<Rightarrow> 'w bio_ctx \<Rightarrow> bool" where
  "waits self s \<longleftrightarrow> (\<exists>k. map_of (coros s) self = Some k \<and> 0 < num_blocking_signals k)"

definition yield_ok :: "(addr \<Rightarrow> 'w bio_ctx \<Rightarrow> 'w bio_ctx outcome) \<Rightarrow> addr \<Rightarrow> bio_handle \<Rightarrow> nat \<Rightarrow> bool" where
  "yield_ok mco_yield self mailbox n \<longleftrightarrow> (\<forall>s. call_inv self mailbox n s \<longrightarrow>
     safe (mco_yield self s) (\<lambda>s'. call_inv self mailbox n s' \<and> sig_kept s s'
       \<and> (waits self s \<longrightarrow> (\<exists>h \<in> awaited_handles self s. bio_check_signal h s'))))"

lemma yield_okD:
  assumes "yield_ok mco_yield self mailbox n" "call_inv self mailbox n s"
  shows "safe (mco_yield self s) (\<lambda>s'. call_inv self mailbox n s' \<and> sig_kept s s'
       \<and> (waits self s \<longrightarrow> (\<exists>h \<in> awaited_handles self s. bio_check_signal h s')))"
  using assms by (simp add: yield_ok_def)

lemma call_inv_frame:
  assumes "call_inv self mailbox n s" "\<And>cur. sched_inv cur (Some self) s \<Longrightarrow> sched_inv cur (Some self) s'" "sched_frame s s'"
  shows "call_inv self mailbox n s'"
  using assms mailbox_inv_frame(1) [OF _ assms(3)] unfolding call_inv_def by blast

lemma awaited_handles_prepare:
  assumes inv: "sched_inv cur (Some self) s" and hs: "\<forall>h \<in> set hs. issued (handles s) h"
    and r: "wait_prepare self hs wait_all s = Inr (True, s')"
  shows "awaited_handles self s' \<subseteq> set hs"
proof
  fix h assume "h \<in> awaited_handles self s'"
  then obtain p where p: "lookup_handle (handles s') h = Some (p, BIO_SIGNAL_HANDLE)" "p \<in> awaited self s'" by (auto simp: awaited_handles_def)
  have e: "handles s' = handles s" using wait_prepare_safe [OF inv hs, of wait_all] by (simp add: r)
  from p(2) obtain k where k: "k \<in> set hs" "blocks_on self s k" "p = bio_resolve_handle k BIO_SIGNAL_HANDLE (handles s)"
    by (auto simp: wait_prepare_awaited [OF inv hs r])
  note G = graph_okD [OF sched_invD(2) [OF inv]]
  have np: "p \<noteq> NULL" using named_object [OF G(3) p(1) [unfolded e]] named_neq_NULL [OF G(3)] by blast
  have "lookup_handle (handles s) k = Some (p, BIO_SIGNAL_HANDLE)"
    using k hs np by (auto simp: resolve_lookup [OF G(1)] split: option.splits if_splits)
  then show "h \<in> set hs" using named_object [OF G(3) p(1) [unfolded e]] named_object [OF G(3)] k(1) by fastforce
qed

section \<open>Signals keep their owner\<close>

lemma sig_kept_refl [simp]: "sig_kept s s"
  by (simp add: sig_kept_def)

lemma sig_kept_trans: "sig_kept a b \<Longrightarrow> sig_kept b c \<Longrightarrow> sig_kept a c"
  by (simp add: sig_kept_def)

lemma sig_keptD: "sig_kept s s' \<Longrightarrow> issued (handles s) h \<Longrightarrow> issued (handles s') h"
  "sig_kept s s' \<Longrightarrow> issued (handles s) h \<Longrightarrow> mine self h s \<Longrightarrow> mine self h s'"
  by (auto simp: sig_kept_def)

lemma sig_keptI:
  assumes G: "graph_ok Vs Vm s" and hi: "handle_inv (handles s')"
    and i: "\<And>h. issued (handles s) h \<Longrightarrow> issued (handles s') h"
    and l: "\<And>h p. issued (handles s) h \<Longrightarrow> lookup_handle (handles s') h = Some (p, BIO_SIGNAL_HANDLE) \<Longrightarrow>
        lookup_handle (handles s) h = Some (p, BIO_SIGNAL_HANDLE)
        \<and> (\<forall>g. map_of (signals s) p = Some g \<longrightarrow> (\<exists>g'. map_of (signals s') p = Some g' \<and> sig_owner g' = sig_owner g))"
  shows "sig_kept s s'"
  unfolding sig_kept_def
proof (intro allI impI conjI)
  fix h self assume h: "issued (handles s) h" and m: "mine self h s"
  note hs = graph_okD(1) [OF G]
  show "mine self h s'"
  proof (cases "\<exists>p. lookup_handle (handles s') h = Some (p, BIO_SIGNAL_HANDLE)")
    case False
    then show ?thesis using i [OF h] hi by (auto simp: mine_def bio_check_signal_def resolve_lookup split: option.splits)
  next
    case True
    then obtain p where p: "lookup_handle (handles s') h = Some (p, BIO_SIGNAL_HANDLE)" by blast
    then have q: "lookup_handle (handles s) h = Some (p, BIO_SIGNAL_HANDLE)" using l [OF h] by blast
    have r: "bio_resolve_handle h BIO_SIGNAL_HANDLE (handles s) = p" "bio_resolve_handle h BIO_SIGNAL_HANDLE (handles s') = p"
      using p q h i [OF h] hi hs by (simp_all add: resolve_lookup)
    obtain g where g: "map_of (signals s) p = Some g" using named_object [OF graph_okD(3) [OF G] q] by blast
    have "p \<noteq> NULL" using named_neq_NULL [OF graph_okD(3) [OF G] g] .
    then have "sig_owner g = self" using m r(1) g by (auto simp: mine_def bio_check_signal_def blocks_on_def)
    with l [OF h p] g show ?thesis by (auto simp: mine_def blocks_on_def r(2))
  qed
qed (use i in blast)

lemma raise_kept:
  assumes inv: "sched_inv_gen Vs Vm cur run s" and V: "emptied Vs" and h: "issued (handles s) h"
  shows "safe (bio_raise_signal h s) (\<lambda>(_, s'). sig_kept s s')"
proof (cases "\<exists>p. lookup_handle (handles s) h = Some (p, BIO_SIGNAL_HANDLE)")
  case False
  then show ?thesis using raise_signal_dead [OF sched_inv_handles [OF inv] h] by simp
next
  case True
  then obtain p where p: "lookup_handle (handles s) h = Some (p, BIO_SIGNAL_HANDLE)" by blast
  note G = sched_invD(2) [OF inv]
  from named_object [OF graph_okD(3) [OF G] p] obtain g where g: "map_of (signals s) p = Some g" "sig_handle g = h" by auto
  obtain k where k: "map_of (coros s) (sig_owner g) = Some k" using sig_owner_live [OF G V g(1)] by blast
  have "sig_kept s (raised_ctx p g k ht s)" if c: "closed (handles s) h p BIO_SIGNAL_HANDLE ht" for ht
  proof (rule sig_keptI [OF G], goal_cases)
    case (3 j q)
    then have j: "lookup_handle (handles s) j = Some (q, BIO_SIGNAL_HANDLE)" "j \<noteq> h"
      using c by (auto simp: raised_ctx_def closed_def split: if_splits)
    then have "q \<noteq> p" using named_object [OF graph_okD(3) [OF G] j(1)] g by auto
    then show ?case using j(1) by (auto simp: raised_ctx_def)
  qed (use c in \<open>auto simp: raised_ctx_def closed_def\<close>)
  then show ?thesis
    unfolding raise_signal_live [OF G p g(1) k]
    using close_safe [OF graph_okD(1) [OF G] p] by (auto elim!: safe_mono)
qed

lemma make_kept:
  assumes inv: "sched_inv_gen Vs Vm cur run s" and c: "map_of (coros s) self \<noteq> None" "self \<noteq> NULL"
  shows "safe (bio_make_signal self s) (\<lambda>(h, s'). sig_kept s s' \<and> mine self h s')"
proof -
  note G = sched_invD(2) [OF inv]
  obtain k where k: "map_of (coros s) self = Some k" using c(1) by blast
  note fresh = bio_malloc_fresh [OF sched_invD(1) [OF inv]]
  have post: "sig_kept s s' \<and> mine self h s'"
    if m: "made (handles s) h (bio_malloc s) BIO_SIGNAL_HANDLE ht"
      and s': "handles s' = ht" "map_of (signals s') = (map_of (signals s))(bio_malloc s \<mapsto> g)" "sig_owner g = self" for h ht s' g
  proof
    show "sig_kept s s'"
    proof (rule sig_keptI [OF G], goal_cases)
      case (3 j q)
      then have "lookup_handle (handles s) j = Some (q, BIO_SIGNAL_HANDLE)" using m by (auto simp: made_def s'(1) split: if_splits)
      moreover from this have "q \<noteq> bio_malloc s" using named_object [OF graph_okD(3) [OF G], of j q] fresh(3) by auto
      ultimately show ?case by (auto simp: s'(2))
    qed (use m in \<open>auto simp: made_def s'(1)\<close>)
    show "mine self h s'" using made_resolve [OF m] by (simp add: mine_def blocks_on_def s')
  qed
  have new: "sig_kept s s' \<and> mine self h s'"
    if m: "made (handles s) h (bio_malloc s) BIO_SIGNAL_HANDLE ht"
      and "s' = s\<lparr>handles := ht, signals := put (bio_malloc s) \<lparr>sig_owner = self, sig_handle = h, sig_wait_counter = w\<rparr> (signals s), coros := cs\<rparr>" for h ht w cs s'
    using post [OF m, of s' "\<lparr>sig_owner = self, sig_handle = h, sig_wait_counter = w\<rparr>"] that(2) by simp
  show ?thesis
    using c(2) k make_safe [OF graph_okD(1) [OF G], of "bio_malloc s" BIO_SIGNAL_HANDLE]
    by (auto simp: bio_make_signal_def check32_def Let_def elim!: safe_mono dest: new [OF _ refl])
qed

lemma monitor_kept:
  assumes inv: "sched_inv_gen Vs Vm cur run s" and V: "emptied Vs" and h: "issued (handles s) coro" "issued (handles s) signal"
  shows "safe (bio_monitor coro signal s) (\<lambda>(h, s'). sig_kept s s')"
proof -
  note G = sched_invD(2) [OF inv]
  let ?c = "bio_resolve_handle coro BIO_CORO_HANDLE (handles s)" and ?p = "bio_resolve_handle signal BIO_SIGNAL_HANDLE (handles s)"
  have R: "safe (rbind (bio_raise_signal signal s) (\<lambda>(_, s). Inr (BIO_INVALID_HANDLE, s))) (\<lambda>(h, s'). sig_kept s s')"
    using raise_kept [OF inv V h(2)] by (auto elim!: safe_mono)
  have post: "sig_kept s s'" if m: "made (handles s) h q BIO_MONITOR_HANDLE ht" and s': "handles s' = ht" "signals s' = signals s" for h q ht s'
  proof (rule sig_keptI [OF G], goal_cases)
    case (3 j q)
    then show ?case using m by (auto simp: made_def s' split: if_splits)
  qed (use m in \<open>auto simp: made_def s'\<close>)
  show ?thesis
  proof (cases "?c \<noteq> NULL \<and> ?p \<noteq> NULL")
    case False
    then show ?thesis using R by (auto simp: bio_monitor_def)
  next
    case True
    obtain g where g: "map_of (signals s) ?p = Some g" using resolve_signal [OF G h(2)] True by blast
    obtain k where k: "map_of (coros s) ?c = Some k"
      using resolve_named [OF graph_okD(1) [OF G] h(1) graph_okD(2) [OF G]] True by blast
    show ?thesis
    proof (cases "sig_owner g = ?c")
      case same: True
      then show ?thesis using R True g by (simp add: bio_monitor_def)
    next
      case other: False
      then show ?thesis
        using True g k by (auto simp: bio_monitor_def Let_def intro!: safe_mono [OF make_safe [OF graph_okD(1) [OF G]]] post)
    qed
  qed
qed

lemma sig_kept_cong: "handles s' = handles t \<Longrightarrow> signals s' = signals t \<Longrightarrow> sig_kept s t \<Longrightarrow> sig_kept s s'"
  by (simp add: sig_kept_def mine_def bio_check_signal_def blocks_on_def)

lemma send_kept:
  assumes inv: "sched_inv_gen Vs Vm cur run s" and V: "emptied Vs" and mb: "mailbox_inv K s"
    and h: "issued (handles s) h" and data: "length data = K h"
  shows "safe (bio__mailbox_send h data s) (\<lambda>(ok, s'). sig_kept s s')"
  using mb sched_inv_handles [OF inv] h
proof (cases rule: mailbox_cases)
  case closed
  then show ?thesis by (simp add: bio__mailbox_send_def)
next
  case (open_ p m)
  show ?thesis
  proof (cases "mb_write m - mb_read m < mb_capacity m")
    case False
    then show ?thesis using open_ by (simp add: bio__mailbox_send_def)
  next
    case True
    then obtain m' where m': "ring_send data m = Inr m'" "mb_signal m' = mb_signal m" using ring_send_ok [OF open_(6) True data] by blast
    let ?s1 = "s\<lparr>mailboxes := put p m' (mailboxes s)\<rparr>"
    have inv1: "sched_inv_gen Vs Vm cur run ?s1" using inv by simp
    have iss: "issued (handles ?s1) (mb_signal m')" using open_(7) m'(2) by simp
    have R: "safe (bio_raise_signal (mb_signal m') ?s1) (\<lambda>(_, s'). sig_kept s s' \<and> map_of (mailboxes s') p = Some m')"
      by (rule safe_mono [OF safe_conj [OF raise_kept [OF inv1 V iss] raise_signal_safe [OF inv1 V iss]]])
        (auto simp: sched_frame_def sig_kept_def mine_def bio_check_signal_def blocks_on_def)
    have k1: "sig_kept s ?s1" by (rule sig_kept_cong [OF _ _ sig_kept_refl]) simp_all
    have "safe (rbind (bio_raise_signal (mb_signal m') ?s1) (\<lambda>(_, s). rbind (deref (mailboxes s) p) (\<lambda>mailbox.
        Inr (True, s\<lparr>mailboxes := put p (mailbox\<lparr>mb_signal := BIO_INVALID_HANDLE\<rparr>) (mailboxes s)\<rparr>)))) (\<lambda>(ok, s'). sig_kept s s')"
    proof (rule safe_bind [OF R], goal_cases)
      case (1 x)
      then obtain w s2 where x: "x = (w, s2)" "sig_kept s s2" "map_of (mailboxes s2) p = Some m'" by (cases x) auto
      then show ?case by (auto intro: sig_kept_cong [OF _ _ x(2)])
    qed
    then show ?thesis
      using open_ True m'(1) k1 by (auto simp: bio__mailbox_send_def Let_def)
  qed
qed

lemma prepare_kept:
  assumes inv: "sched_inv_gen Vs Vm cur (Some self) s" and hs: "\<forall>h \<in> set hs. issued (handles s) h"
    and r: "wait_prepare self hs wait_all s = Inr (b, s')"
  shows "sig_kept s s'" "b = wait_suspends self hs wait_all s"
proof -
  note G = sched_invD(2) [OF inv]
  obtain k where k: "map_of (coros s) self = Some k" using running_coro [OF inv] by blast
  have self: "self \<noteq> NULL" using named_neq_NULL [OF graph_okD(2) [OF G] k] .
  have w: "wait_counter k + 1 \<le> INT32_MAX \<and> - INT32_MAX - 1 \<le> wait_counter k + 1"
    using r self k by (auto simp: wait_prepare_def rbind_eq_Inr)
  obtain ss cs where e: "wait_prepare self hs wait_all s = Inr (wait_suspends self hs wait_all s, s\<lparr>signals := ss, coros := cs\<rparr>)"
      "map_of ss = mark_signals self (wait_counter k + 1) hs s"
    using wait_prepare_result [OF G hs k w refl] by blast
  then have s': "b = wait_suspends self hs wait_all s" "s' = s\<lparr>signals := ss, coros := cs\<rparr>" using r by simp_all
  then show "b = wait_suspends self hs wait_all s" by blast
  show "sig_kept s s'"
    by (rule sig_keptI [OF G]) (use graph_okD(1) [OF G] e(2) in \<open>auto simp: s'(2) mark_signals_def\<close>)
qed

section \<open>A call ends for a reason\<close>

lemma call_invE:
  assumes "call_inv self mailbox n s"
  obtains cur K k where "sched_inv cur (Some self) s" "mailbox_inv K s" "K mailbox = n" "map_of (coros s) self = Some k" "self \<noteq> NULL"
proof -
  obtain cur K where I: "sched_inv cur (Some self) s" "mailbox_inv K s" "K mailbox = n" using assms by (auto simp: call_inv_def)
  obtain k where k: "map_of (coros s) self = Some k" using running_coro [OF I(1)] by blast
  show thesis by (rule that [OF I k]) (use named_neq_NULL [OF graph_okD(2) [OF sched_invD(2) [OF I(1)]] k] in simp)
qed

lemma lookup_invalid [simp]: "lookup_handle ht BIO_INVALID_HANDLE = None"
  by (simp add: lookup_handle_def BIO_INVALID_HANDLE_def)

text \<open>Why a wait for any of some signals ends.\<close>

lemma wait_any_reason:
  assumes inv: "call_inv self mailbox n s" and y: "yield_ok mco_yield self mailbox n" and hs: "\<forall>h \<in> set hs. issued (handles s) h"
  shows "safe (bio_wait_for_signals mco_yield self hs False s) (\<lambda>s'. call_inv self mailbox n s' \<and> sig_kept s s'
    \<and> ((\<exists>h \<in> set hs. h \<noteq> BIO_INVALID_HANDLE \<and> bio_check_signal h s')
      \<or> (\<forall>h \<in> set hs. \<not> blocks_on self s h) \<and> handles s' = handles s))"
proof -
  obtain cur K k where I: "sched_inv cur (Some self) s" "mailbox_inv K s" "K mailbox = n" using inv by (rule call_invE)
  have W: "safe (wait_prepare self hs False s) (\<lambda>(b, s1). wait_prepare self hs False s = Inr (b, s1) \<and> call_inv self mailbox n s1 \<and> handles s1 = handles s)"
  proof (cases "wait_prepare self hs False s")
    case (Inl e)
    then show ?thesis using wait_prepare_safe [OF I(1) hs, of False] by simp
  next
    case (Inr x)
    then show ?thesis
      using wait_prepare_safe [OF I(1) hs, of False] I(2,3) mailbox_inv_frame(1) [OF I(2)]
      by (cases x) (auto simp: call_inv_def)
  qed
  show ?thesis
    unfolding bio_wait_for_signals_def
  proof (rule safe_bind [OF W], goal_cases)
    case (1 x)
    then obtain b s1 where x: "x = (b, s1)" and r: "wait_prepare self hs False s = Inr (b, s1)" and s1: "call_inv self mailbox n s1" "handles s1 = handles s"
      by (cases x) auto
    note P = prepare_kept [OF I(1) hs r]
    show ?case
    proof (cases b)
      case False
      then have "\<not> wait_suspends self hs False s" using P(2) by simp
      then have "(\<exists>h \<in> set hs. h \<noteq> BIO_INVALID_HANDLE \<and> bio_check_signal h s1) \<or> (\<forall>h \<in> set hs. \<not> blocks_on self s h)"
        using s1(2) by (auto simp: wait_suspends_def already_raised_def bio_check_signal_def)
      then show ?thesis using False s1 P(1) by (auto simp: x)
    next
      case True
      then have r': "wait_prepare self hs False s = Inr (True, s1)" using r by simp
      obtain k where "map_of (coros s1) self = Some (k\<lparr>wait_counter := wait_counter k + 1, num_blocking_signals := wait_blockers self hs False s\<rparr>)"
        using wait_prepare_Inr [OF I(1) hs r'] by (metis fun_upd_same)
      then have wt: "waits self s1" by (simp add: waits_def wait_blockers_def)
      have sub: "h \<in> set hs \<and> h \<noteq> BIO_INVALID_HANDLE" if "h \<in> awaited_handles self s1" for h
        using awaited_handles_prepare [OF I(1) hs r'] that by (auto simp: awaited_handles_def)
      have "safe (mco_yield self s1) (\<lambda>s'. call_inv self mailbox n s' \<and> sig_kept s s' \<and> (\<exists>h \<in> set hs. h \<noteq> BIO_INVALID_HANDLE \<and> bio_check_signal h s'))"
        by (rule safe_mono [OF yield_okD [OF y s1(1)]]) (use wt sub sig_kept_trans [OF P(1)] in blast)
      then show ?thesis using True by (auto simp: x elim!: safe_mono)
    qed
  qed
qed

lemma send_step:
  assumes inv: "call_inv self mailbox n s" and mb: "issued (handles s) mailbox" and msg: "length msg = n"
  shows "safe (bio__mailbox_send mailbox msg s) (\<lambda>(ok, s'). call_inv self mailbox n s' \<and> sig_kept s s')"
proof -
  obtain cur K k where I: "sched_inv cur (Some self) s" "mailbox_inv K s" "K mailbox = n" using inv by (rule call_invE)
  have d: "length msg = K mailbox" using msg I(3) by simp
  show ?thesis
    by (rule safe_mono [OF safe_conj [OF send_safe [OF I(1) emptied_simps(1) I(2) mb d] send_kept [OF I(1) emptied_simps(1) I(2) mb d]]])
      (use I(3) in \<open>auto simp: call_inv_def\<close>)
qed

lemma service_send_runs:
  assumes "service_send mco_yield self cancel_signal monitor_signal mailbox msg s = Some r"
    and "call_inv self mailbox n s" "yield_ok mco_yield self mailbox n" "issued (handles s) mailbox" "length msg = n"
  shows "safe r (\<lambda>s'. call_inv self mailbox n s' \<and> sig_kept s s')"
  using assms
proof (induction rule: service_send.raw_induct [rotated, consumes 1, case_names step])
  case (step loop mco_yield self cancel_signal monitor_signal mailbox msg s r)
  let ?Q = "\<lambda>s'. call_inv self mailbox n s' \<and> sig_kept s s'"
  have "runs (obind (lift (bio__mailbox_send mailbox msg s)) (\<lambda>x. if fst x then ret (snd x)
      else obind (lift (mco_yield self (snd x))) (loop mco_yield self cancel_signal monitor_signal mailbox msg))) ?Q"
  proof (rule runs_lift [OF send_step [OF step.prems(1,3,4)]], goal_cases)
    case (1 x)
    then obtain ok s1 where x: "x = (ok, s1)" and s1: "call_inv self mailbox n s1" "sig_kept s s1" by (cases x) auto
    have again: "runs (loop mco_yield self cancel_signal monitor_signal mailbox msg s2) ?Q" if s2: "call_inv self mailbox n s2" "sig_kept s1 s2" for s2
      unfolding runs_def
    proof (intro allI impI)
      fix r' assume "loop mco_yield self cancel_signal monitor_signal mailbox msg s2 = Some r'"
      from step.IH [OF this s2(1) step.prems(2) _ step.prems(4)] sig_keptD(1) [OF sig_kept_trans [OF s1(2) s2(2)] step.prems(3)]
      show "safe r' ?Q" using sig_kept_trans [OF sig_kept_trans [OF s1(2) s2(2)]] by (auto elim!: safe_mono)
    qed
    have "runs (obind (lift (mco_yield self s1)) (loop mco_yield self cancel_signal monitor_signal mailbox msg)) ?Q"
      by (rule runs_lift [OF yield_okD [OF step.prems(2) s1(1)]]) (use again in blast)
    then show ?case using s1 by (simp add: x)
  qed
  moreover have "?Q s" using step.prems(1) by simp
  ultimately show ?case using step.hyps by (auto simp: runs_def ret_def split: if_splits)
qed

text \<open>
  A call that reports the service's death has seen the signal of its monitor; one
  that reports a cancellation has seen the cancel signal, and one that reports
  success the acknowledgement.
\<close>

lemma service_await_runs:
  assumes inv: "call_inv self mailbox n s" and y: "yield_ok mco_yield self mailbox n" and msg: "length msg = n"
    and iss: "issued (handles s) mailbox" "issued (handles s) ack" "issued (handles s) mon" "issued (handles s) cancel"
    and mine: "mine self ack s" "mine self mon s"
  shows "runs (service_await mco_yield self ack mon cancel mailbox msg s) (\<lambda>(status, s'). call_inv self mailbox n s' \<and> sig_kept s s'
    \<and> (case status of BIO_CALL_OK \<Rightarrow> bio_check_signal ack s'
       | BIO_CALL_CANCELLED \<Rightarrow> cancel \<noteq> BIO_INVALID_HANDLE \<and> bio_check_signal cancel s'
       | BIO_CALL_TARGET_DEAD \<Rightarrow> bio_check_signal mon s'))"
proof -
  have S: "runs (service_send mco_yield self cancel mon mailbox msg s) (\<lambda>s1. call_inv self mailbox n s1 \<and> sig_kept s s1)"
    unfolding runs_def using service_send_runs [OF _ inv y iss(1) msg] by blast
  show ?thesis
    unfolding service_await_def
  proof (rule runs_bind [OF S], goal_cases)
    case (1 s1)
    then have s1: "call_inv self mailbox n s1" "sig_kept s s1" by auto
    have i1: "\<forall>h \<in> set [ack, mon, cancel]. issued (handles s1) h" using iss sig_keptD(1) [OF s1(2)] by simp
    have m1: "mine self mon s1" using sig_keptD(2) [OF s1(2) iss(3) mine(2)] .
    show ?case
    proof (rule runs_lift [OF wait_any_reason [OF s1(1) y i1]], goal_cases)
      case (1 s2)
      have "bio_check_signal mon s2" if "\<not> bio_check_signal ack s2" "cancel = BIO_INVALID_HANDLE \<or> \<not> bio_check_signal cancel s2"
      proof (cases "\<exists>h \<in> set [ack, mon, cancel]. h \<noteq> BIO_INVALID_HANDLE \<and> bio_check_signal h s2")
        case True
        then show ?thesis using that by auto
      next
        case False
        then have "\<not> blocks_on self s1 mon" "handles s2 = handles s1" using 1 by auto
        then show ?thesis using m1 by (simp add: mine_def bio_check_signal_def)
      qed
      then show ?case using 1 sig_kept_trans [OF s1(2)] by (auto simp: service_status_def)
    qed
  qed
qed

section \<open>A call leaves nothing behind\<close>

lemma raise_keeps_dead:
  assumes inv: "sched_inv_gen Vs Vm cur run s" and V: "emptied Vs" and h: "issued (handles s) h"
  shows "safe (bio_raise_signal h s) (\<lambda>(_, s'). \<forall>k t. issued (handles s) k \<longrightarrow> bio_resolve_handle k t (handles s) = NULL \<longrightarrow> bio_resolve_handle k t (handles s') = NULL)"
proof (cases "\<exists>p. lookup_handle (handles s) h = Some (p, BIO_SIGNAL_HANDLE)")
  case False
  then show ?thesis using raise_signal_dead [OF sched_inv_handles [OF inv] h] by simp
next
  case True
  then obtain p where p: "lookup_handle (handles s) h = Some (p, BIO_SIGNAL_HANDLE)" by blast
  note G = sched_invD(2) [OF inv]
  from named_object [OF graph_okD(3) [OF G] p] obtain g where g: "map_of (signals s) p = Some g" by auto
  obtain k where k: "map_of (coros s) (sig_owner g) = Some k" using sig_owner_live [OF G V g] by blast
  have "bio_resolve_handle j t (handles (raised_ctx p g k ht s)) = NULL"
    if "closed (handles s) h p BIO_SIGNAL_HANDLE ht" "issued (handles s) j" "bio_resolve_handle j t (handles s) = NULL" for j t ht
    using that graph_okD(1) [OF G] by (auto simp: raised_ctx_def resolve_lookup closed_def)
  then show ?thesis
    unfolding raise_signal_live [OF G p g k]
    using close_safe [OF graph_okD(1) [OF G] p] by (auto elim!: safe_mono)
qed

lemma raise_cleanup:
  assumes "sched_inv cur run s" "issued (handles s) h"
  shows "safe (bio_raise_signal h s) (\<lambda>(_, s'). sched_inv cur run s' \<and> sched_frame s s' \<and> bio_check_signal h s'
    \<and> (\<forall>k t. issued (handles s) k \<longrightarrow> bio_resolve_handle k t (handles s) = NULL \<longrightarrow> bio_resolve_handle k t (handles s') = NULL))"
  by (rule safe_mono [OF safe_conj [OF raise_signal_safe [OF assms(1) emptied_simps(1) assms(2)] raise_keeps_dead [OF assms(1) emptied_simps(1) assms(2)]]])
    auto

lemma service_cleanup_safe:
  assumes inv: "sched_inv cur run s" and iss: "issued (handles s) monitor" "issued (handles s) mon" "issued (handles s) ack"
  shows "safe (service_cleanup monitor mon ack s) (\<lambda>s'. sched_inv cur run s' \<and> sched_frame s s'
    \<and> bio_resolve_handle monitor BIO_MONITOR_HANDLE (handles s') = NULL \<and> bio_check_signal mon s' \<and> bio_check_signal ack s')"
  unfolding service_cleanup_def
proof (rule safe_bind [OF unmonitor_safe [OF inv emptied_simps(1) iss(1)]], goal_cases)
  case (1 s1)
  then have s1: "sched_inv cur run s1" "sched_frame s s1" "bio_resolve_handle monitor BIO_MONITOR_HANDLE (handles s1) = NULL" by auto
  have i1: "issued (handles s1) monitor" "issued (handles s1) mon" "issued (handles s1) ack" using iss sched_frame_issued [OF s1(2)] by auto
  show ?case
  proof (rule safe_bind [OF raise_cleanup [OF s1(1) i1(2)]], goal_cases)
    case (1 x)
    then obtain w s2 where x: "x = (w, s2)" and s2: "sched_inv cur run s2" "sched_frame s1 s2" "bio_check_signal mon s2"
      "bio_resolve_handle monitor BIO_MONITOR_HANDLE (handles s2) = NULL" using s1(3) i1(1) by (cases x) auto
    have i2: "issued (handles s2) monitor" "issued (handles s2) mon" "issued (handles s2) ack" using i1 sched_frame_issued [OF s2(2)] by auto
    have "safe (bio_raise_signal ack s2) (\<lambda>(_, s'). sched_inv cur run s' \<and> sched_frame s s'
        \<and> bio_resolve_handle monitor BIO_MONITOR_HANDLE (handles s') = NULL \<and> bio_check_signal mon s' \<and> bio_check_signal ack s')"
      by (rule safe_mono [OF raise_cleanup [OF s2(1) i2(3)]])
        (use s2 i2 sched_frame_trans [OF sched_frame_trans [OF s1(2) s2(2)]] in \<open>auto simp: bio_check_signal_def\<close>)
    then show ?case by (auto simp: x elim!: safe_mono)
  qed
qed

lemma unmonitor_kept:
  assumes inv: "sched_inv_gen Vs Vm cur run s" and V: "emptied Vm" and h: "issued (handles s) h"
  shows "safe (bio_unmonitor h s) (sig_kept s)"
proof (cases "\<exists>p. lookup_handle (handles s) h = Some (p, BIO_MONITOR_HANDLE)")
  case False
  then show ?thesis using close_none [OF sched_inv_handles [OF inv] h] by (simp add: bio_unmonitor_def)
next
  case True
  then obtain p where p: "lookup_handle (handles s) h = Some (p, BIO_MONITOR_HANDLE)" by blast
  note G = sched_invD(2) [OF inv]
  have "sig_kept s s'" if c: "closed (handles s) h p BIO_MONITOR_HANDLE ht" and s': "handles s' = ht" "signals s' = signals s" for ht s'
  proof (rule sig_keptI [OF G], goal_cases)
    case (3 j q)
    then show ?case using c by (auto simp: closed_def s' split: if_splits)
  qed (use c in \<open>auto simp: closed_def s'\<close>)
  then show ?thesis
    unfolding bio_unmonitor_def by (intro safe_bind [OF close_safe [OF graph_okD(1) [OF G] p]]) (auto simp: Let_def)
qed

lemma cleanup_kept:
  assumes inv: "sched_inv cur run s" and iss: "issued (handles s) monitor" "issued (handles s) mon" "issued (handles s) ack"
  shows "safe (service_cleanup monitor mon ack s) (\<lambda>s'. sched_inv cur run s' \<and> sched_frame s s' \<and> sig_kept s s')"
  unfolding service_cleanup_def
proof (rule safe_bind [OF safe_conj [OF unmonitor_safe [OF inv emptied_simps(1) iss(1)] unmonitor_kept [OF inv emptied_simps(1) iss(1)]]], goal_cases)
  case (1 s1)
  then have s1: "sched_inv cur run s1" "sched_frame s s1" "sig_kept s s1" by auto
  have raise: "safe (bio_raise_signal h t) (\<lambda>(_, t'). sched_inv cur run t' \<and> sched_frame t t' \<and> sig_kept t t')"
    if "sched_inv cur run t" "issued (handles t) h" for h t
    by (rule safe_mono [OF safe_conj [OF raise_signal_safe [OF that(1) emptied_simps(1) that(2)] raise_kept [OF that(1) emptied_simps(1) that(2)]]]) auto
  show ?case
  proof (rule safe_bind [OF raise [OF s1(1) sig_keptD(1) [OF s1(3) iss(2)]]], goal_cases)
    case (1 x)
    then obtain w s2 where x: "x = (w, s2)" and s2: "sched_inv cur run s2" "sched_frame s1 s2" "sig_kept s1 s2" by (cases x) auto
    show ?case
      unfolding x prod.case
      by (rule safe_bind [OF raise [OF s2(1) sig_keptD(1) [OF sig_kept_trans [OF s1(3) s2(3)] iss(3)]]])
        (use sched_frame_trans [OF sched_frame_trans [OF s1(2) s2(2)]] sig_kept_trans [OF sig_kept_trans [OF s1(3) s2(3)]] in auto)
  qed
qed

lemma get_state_safe:
  assumes "sched_inv_gen Vs Vm cur run s" "issued (handles s) coro"
  shows "\<exists>st. get_coro_state coro s = Inr st"
  using resolve_named [OF graph_okD(1) [OF sched_invD(2) [OF assms(1)]] assms(2) graph_okD(2) [OF sched_invD(2) [OF assms(1)]]]
  by (auto simp: get_coro_state_def Let_def)

lemma svc_make_signal:
  assumes "call_inv self mailbox n s"
  shows "safe (bio_make_signal self s) (\<lambda>(h, s'). call_inv self mailbox n s' \<and> sig_kept s s' \<and> mine self h s' \<and> issued (handles s') h)"
proof -
  obtain cur K k where J: "sched_inv cur (Some self) s" "mailbox_inv K s" "K mailbox = n" "map_of (coros s) self = Some k" "self \<noteq> NULL"
    using assms by (rule call_invE)
  have c: "map_of (coros s) self \<noteq> None" using J(4) by simp
  have S: "safe (bio_make_signal self s) (\<lambda>(h, s'). sched_inv cur (Some self) s' \<and> sched_frame s s' \<and> issued (handles s') h)"
    by (rule safe_mono [OF make_signal_safe [OF J(1)]]) (use c in auto)
  show ?thesis
    by (rule safe_mono [OF safe_conj [OF make_kept [OF J(1) c J(5)] S]])
      (use J(2,3) mailbox_inv_frame(1) [OF J(2)] in \<open>auto simp: call_inv_def\<close>)
qed

lemma svc_monitor:
  assumes "call_inv self mailbox n s" "issued (handles s) coro" "issued (handles s) mon"
  shows "safe (bio_monitor coro mon s) (\<lambda>(m, s'). call_inv self mailbox n s' \<and> sig_kept s s' \<and> issued (handles s') m)"
proof -
  obtain cur K k where J: "sched_inv cur (Some self) s" "mailbox_inv K s" "K mailbox = n" using assms(1) by (rule call_invE)
  show ?thesis
    by (rule safe_mono [OF safe_conj [OF monitor_safe [OF J(1) emptied_simps(1) refl assms(2,3)] monitor_kept [OF J(1) emptied_simps(1) assms(2,3)]]])
      (use J(3) mailbox_inv_frame(1) [OF J(2)] in \<open>auto simp: call_inv_def\<close>)
qed

lemma svc_cleanup:
  assumes "call_inv self mailbox n s" "issued (handles s) monitor" "issued (handles s) mon" "issued (handles s) ack"
  shows "safe (service_cleanup monitor mon ack s) (\<lambda>s'. call_inv self mailbox n s' \<and> sig_kept s s')"
proof -
  obtain cur K k where J: "sched_inv cur (Some self) s" "mailbox_inv K s" "K mailbox = n" using assms(1) by (rule call_invE)
  show ?thesis
    by (rule safe_mono [OF cleanup_kept [OF J(1) assms(2-4)]]) (use J(3) mailbox_inv_frame(1) [OF J(2)] in \<open>auto simp: call_inv_def\<close>)
qed

text \<open>The whole call is memory safe, for every behaviour of the other coroutines.\<close>

lemma service_call_runs:
  assumes inv: "call_inv self mailbox n s" and y: "yield_ok mco_yield self mailbox n" and msg: "\<And>base. length (msg base) = n"
    and iss: "issued (handles s) mailbox" "issued (handles s) coro" "issued (handles s) cancel"
  shows "runs (bio__service_call mco_yield self coro mailbox msg cancel s) (\<lambda>(status, s'). call_inv self mailbox n s' \<and> sig_kept s s')"
proof -
  obtain cur K k where I: "sched_inv cur (Some self) s" using inv by (rule call_invE)
  obtain st where st: "get_coro_state coro s = Inr st" using get_state_safe [OF I iss(2)] by blast
  show ?thesis
  proof (cases "st = BIO_CORO_DEAD")
    case True
    then show ?thesis using inv by (simp add: bio__service_call_def st)
  next
    case False
    show ?thesis
      unfolding bio__service_call_def st obind_simps if_not_P [OF False] Let_def
    proof (rule runs_lift [OF svc_make_signal [OF inv]], goal_cases)
      case (1 x)
      then obtain ack s1 where x: "x = (ack, s1)" and s1: "call_inv self mailbox n s1" "sig_kept s s1" "mine self ack s1" "issued (handles s1) ack" by (cases x) auto
      show ?case
        unfolding x prod.case
      proof (rule runs_lift [OF svc_make_signal [OF s1(1)]], goal_cases)
        case (1 x)
        then obtain mon s2 where x: "x = (mon, s2)" and s2: "call_inv self mailbox n s2" "sig_kept s1 s2" "mine self mon s2" "issued (handles s2) mon" by (cases x) auto
        have i2: "issued (handles s2) h" if "issued (handles s) h" for h using that sig_keptD(1) [OF s1(2)] sig_keptD(1) [OF s2(2)] by blast
        have a2: "mine self ack s2" "issued (handles s2) ack" using sig_keptD [OF s2(2) s1(4)] s1(3) by auto
        show ?case
          unfolding x prod.case
        proof (rule runs_lift [OF svc_monitor [OF s2(1) i2 [OF iss(2)] s2(4)]], goal_cases)
          case (1 x)
          then obtain m s3 where x: "x = (m, s3)" and s3: "call_inv self mailbox n s3" "sig_kept s2 s3" "issued (handles s3) m" by (cases x) auto
          note D = sig_keptD [OF s3(2)]
          have A: "runs (service_await mco_yield self ack mon cancel mailbox (msg \<lparr>bio__ack_signal = ack, bio__cancel_signal = cancel\<rparr>) s3)
              (\<lambda>(status, s'). call_inv self mailbox n s' \<and> sig_kept s3 s')"
            by (rule runs_mono [OF service_await_runs [OF s3(1) y msg D(1) [OF i2 [OF iss(1)]] D(1) [OF a2(2)] D(1) [OF s2(4)] D(1) [OF i2 [OF iss(3)]]
                  D(2) [OF a2(2,1)] D(2) [OF s2(4,3)]]]) auto
          show ?case
            unfolding x prod.case
          proof (rule runs_bind [OF A], goal_cases)
            case (1 x)
            then obtain status s4 where x: "x = (status, s4)" and s4: "call_inv self mailbox n s4" "sig_kept s3 s4" by (cases x) auto
            have k4: "sig_kept s s4" using sig_kept_trans [OF sig_kept_trans [OF sig_kept_trans [OF s1(2) s2(2)] s3(2)] s4(2)] .
            note D4 = sig_keptD(1) [OF s4(2)]
            show ?case
              unfolding x prod.case
              by (rule runs_lift [OF svc_cleanup [OF s4(1) D4 [OF s3(3)] D4 [OF D(1) [OF s2(4)]] D4 [OF D(1) [OF a2(2)]]]])
                (use sig_kept_trans [OF k4] in auto)
          qed
        qed
      qed
    qed
  qed
qed

end
