(* ===== verification/Cls.thy ===== *)
theory Cls
  imports Scheduler
begin

text \<open>
  Coroutine-local storage (\<open>bio_get_cls\<close> of \<open>src/src/scheduler.c\<close>): a hash table per
  coroutine from descriptions (compared by address) to blocks of data.
\<close>

section \<open>The hash function\<close>

unbundle bit_operations_syntax

definition bio_splittable64 :: "64 word \<Rightarrow> 64 word" where
  "bio_splittable64 x =
    (let x = x XOR drop_bit 30 x;
         x = x * 0xbf58476d1ce4e5b9;
         x = x XOR drop_bit 27 x;
         x = x * 0x94d049bb133111eb;
         x = x XOR drop_bit 31 x in x)"

text \<open>A xor with a shifted copy can be undone bit by bit, from the top.\<close>

lemma xorshift_inj:
  fixes x y :: "64 word"
  assumes "0 < k" "x XOR drop_bit k x = y XOR drop_bit k y"
  shows "x = y"
proof -
  have "bit x n = bit y n" for n
  proof (induction "64 - n" arbitrary: n rule: less_induct)
    case less
    show ?case
    proof (cases "n < 64")
      case True
      have "bit (x XOR drop_bit k x) n = bit (y XOR drop_bit k y) n" using assms(2) by simp
      moreover have "bit x (n + k) = bit y (n + k)"
      proof (cases "n + k < 64")
        case True
        then show ?thesis using less assms(1) by simp
      next
        case False
        then show ?thesis by (simp add: impossible_bit)
      qed
      ultimately show ?thesis by (auto simp: bit_xor_iff bit_drop_bit_eq add.commute)
    next
      case False
      then show ?thesis by (simp add: impossible_bit)
    qed
  qed
  then show ?thesis by (simp add: bit_eq_iff)
qed

lemma mult_inj:
  fixes x y c d :: "64 word"
  assumes "d * c = 1" "x * c = y * c"
  shows "x = y"
proof -
  have "x = x * (d * c)" by (simp add: assms(1))
  also have "\<dots> = y * (d * c)" using assms(2) by (metis mult.commute mult.left_commute)
  finally show ?thesis by (simp add: assms(1))
qed

text \<open>Different descriptions never have the same hash value.\<close>

lemma splittable64_inj: "inj bio_splittable64"
proof (rule injI)
  fix x y
  assume e: "bio_splittable64 x = bio_splittable64 y"
  have 1: "(0x96de1b173f119089 :: 64 word) * 0xbf58476d1ce4e5b9 = 1" by simp
  have 2: "(0x319642b2d24d8ec3 :: 64 word) * 0x94d049bb133111eb = 1" by simp
  define f g where "f z = z XOR drop_bit 30 z" and "g z = (z :: 64 word) * 0xbf58476d1ce4e5b9" for z :: "64 word"
  define p q where "p z = z XOR drop_bit 27 z" and "q z = (z :: 64 word) * 0x94d049bb133111eb" for z :: "64 word"
  have "q (p (g (f x))) XOR drop_bit 31 (q (p (g (f x)))) = q (p (g (f y))) XOR drop_bit 31 (q (p (g (f y))))"
    using e by (simp add: bio_splittable64_def Let_def f_def g_def p_def q_def)
  then have "q (p (g (f x))) = q (p (g (f y)))" by (rule xorshift_inj [rotated]) simp
  then have "p (g (f x)) = p (g (f y))" unfolding q_def by (rule mult_inj [OF 2])
  then have "g (f x) = g (f y)" unfolding p_def by (rule xorshift_inj [rotated]) simp
  then have "f x = f y" unfolding g_def by (rule mult_inj [OF 1])
  then show "x = y" unfolding f_def by (rule xorshift_inj [rotated]) simp
qed

section \<open>Model\<close>

text \<open>The search of a bucket for the entry of a description.\<close>

fun find_cls :: "addr \<Rightarrow> bio_cls_entry list \<Rightarrow> addr option" where
  "find_cls spec [] = None"
| "find_cls spec (e # es) = (if cls_spec e = spec then Some (cls_data e) else find_cls spec es)"

definition cls_bucket_index :: "int \<Rightarrow> addr \<Rightarrow> int" where
  "cls_bucket_index num_buckets spec =
    sint (ucast (bio_splittable64 (word_of_nat spec) AND (word_of_int num_buckets - 1)) :: 32 word)"

definition bucket_at :: "'a list \<Rightarrow> int \<Rightarrow> 'a outcome" where
  "bucket_at bs i = (if 0 \<le> i \<and> i < int (length bs) then Inr (bs ! nat i) else Inl DanglingPointer)"

text \<open>
  \<open>init spec\<close> is the \<open>init\<close> function pointer of the description: application code,
  \<open>None\<close> for \<open>NULL\<close>. The buckets are looked up again after it has run.
\<close>

definition bio_get_cls ::
    "(addr \<Rightarrow> (addr \<Rightarrow> 'w bio_ctx \<Rightarrow> 'w bio_ctx outcome) option) \<Rightarrow> addr \<Rightarrow> addr \<Rightarrow> 'w bio_ctx \<Rightarrow> (addr \<times> 'w bio_ctx) outcome" where
  "bio_get_cls init self spec s =
    (if self \<noteq> NULL then
       rbind (deref (coros s) self) (\<lambda>coro.
       let num_buckets = num_cls_buckets s;
           buckets = (case cls_buckets coro of None \<Rightarrow> replicate (nat num_buckets) [] | Some bs \<Rightarrow> bs);
           s = s\<lparr>coros := put self (coro\<lparr>cls_buckets := Some buckets\<rparr>) (coros s)\<rparr>;
           i = cls_bucket_index num_buckets spec in
       rbind (bucket_at buckets i) (\<lambda>bucket.
       case find_cls spec bucket of
         Some data \<Rightarrow> Inr (data, s)
       | None \<Rightarrow>
           (let data = bio_malloc s in
            rbind (case init spec of None \<Rightarrow> Inr s | Some f \<Rightarrow> f data s) (\<lambda>s.
            rbind (deref (coros s) self) (\<lambda>coro.
            case cls_buckets coro of
              None \<Rightarrow> Inl DanglingPointer
            | Some buckets \<Rightarrow>
                rbind (bucket_at buckets i) (\<lambda>bucket.
                let buckets = buckets[nat i := bucket @ [\<lparr>cls_spec = spec, cls_data = data\<rparr>]] in
                Inr (data, s\<lparr>coros := put self (coro\<lparr>cls_buckets := Some buckets\<rparr>) (coros s)\<rparr>)))))))
     else Inr (NULL, s))"

section \<open>A coroutine's storage is a map\<close>

text \<open>The number of buckets is a power of two, as \<open>bio_scheduler_init\<close> makes it.\<close>

definition buckets_ok :: "int \<Rightarrow> bool" where
  "buckets_ok nb \<longleftrightarrow> (\<exists>k < 31. nb = 2 ^ k)"

lemma bucket_index_bound:
  assumes "buckets_ok nb"
  shows "0 \<le> cls_bucket_index nb spec" "cls_bucket_index nb spec < nb"
proof -
  obtain k where k: "k < 31" "nb = 2 ^ k" using assms by (auto simp: buckets_ok_def)
  let ?h = "bio_splittable64 (word_of_nat spec)"
  have m: "word_of_int nb - 1 = (mask k :: 64 word)" by (simp add: k mask_eq_decr_exp)
  have u: "uint (?h AND (word_of_int nb - 1)) = take_bit k (uint ?h)"
    unfolding m by (simp add: unsigned_take_bit_eq flip: take_bit_eq_mask)
  have b: "0 \<le> take_bit k (uint ?h)" "take_bit k (uint ?h) < 2 ^ k" by simp_all
  have "(2 :: int) ^ k \<le> 2 ^ 30" "(2 :: int) ^ 30 < 2 ^ 31" using k(1) by (intro power_increasing) auto
  then have lt: "take_bit k (uint ?h) < 2 ^ 31" using b(2) by linarith
  have "sint (ucast (?h AND (word_of_int nb - 1)) :: 32 word) = signed_take_bit 31 (take_bit 32 (take_bit k (uint ?h)))"
    by (simp add: sint_uint unsigned_ucast_eq u)
  also have "take_bit 32 (take_bit k (uint ?h)) = take_bit k (uint ?h)" using b(1) lt by (intro take_bit_int_eq_self) auto
  also have "signed_take_bit 31 \<dots> = \<dots>"
    by (rule signed_take_bit_int_eq_self [OF order_trans [OF _ b(1)] lt]) simp
  finally show "0 \<le> cls_bucket_index nb spec" "cls_bucket_index nb spec < nb"
    using b k(2) by (simp_all add: cls_bucket_index_def)
qed

definition cls_ok :: "int \<Rightarrow> bio_coro_impl \<Rightarrow> bool" where
  "cls_ok nb k \<longleftrightarrow> (case cls_buckets k of None \<Rightarrow> True | Some bs \<Rightarrow> int (length bs) = nb)"

text \<open>The block a coroutine has for a description, if any.\<close>

definition cls_lookup :: "int \<Rightarrow> bio_coro_impl \<Rightarrow> addr \<Rightarrow> addr option" where
  "cls_lookup nb k spec =
    (case cls_buckets k of None \<Rightarrow> None | Some bs \<Rightarrow> find_cls spec (bs ! nat (cls_bucket_index nb spec)))"

lemma find_cls_append: "find_cls spec (es @ [e]) = (case find_cls spec es of Some d \<Rightarrow> Some d | None \<Rightarrow> find_cls spec [e])"
  by (induction es) auto

lemma get_cls_found:
  assumes "buckets_ok (num_cls_buckets s)" "map_of (coros s) self = Some k" "self \<noteq> NULL" "cls_ok (num_cls_buckets s) k"
    "cls_lookup (num_cls_buckets s) k spec = Some d"
  shows "bio_get_cls init self spec s = Inr (d, s)"
proof -
  obtain bs where bs: "cls_buckets k = Some bs" using assms(5) by (auto simp: cls_lookup_def split: option.splits)
  note b = bucket_index_bound [OF assms(1), of spec]
  have at: "bucket_at bs (cls_bucket_index (num_cls_buckets s) spec) = Inr (bs ! nat (cls_bucket_index (num_cls_buckets s) spec))"
    using b bs assms(4) by (simp add: bucket_at_def cls_ok_def)
  have "k\<lparr>cls_buckets := Some bs\<rparr> = k" using bs by simp
  then have "s\<lparr>coros := put self (k\<lparr>cls_buckets := Some bs\<rparr>) (coros s)\<rparr> = s" using assms(2) by simp
  with assms bs at show ?thesis by (simp add: bio_get_cls_def Let_def cls_lookup_def)
qed

lemma get_cls_new:
  assumes "buckets_ok (num_cls_buckets s)" "map_of (coros s) self = Some k" "self \<noteq> NULL" "cls_ok (num_cls_buckets s) k"
    "cls_lookup (num_cls_buckets s) k spec = None" "init spec = None"
  shows "\<exists>s' k' d. bio_get_cls init self spec s = Inr (d, s') \<and> map_of (coros s') = (map_of (coros s))(self \<mapsto> k')
    \<and> s' = s\<lparr>coros := coros s'\<rparr> \<and> cls_ok (num_cls_buckets s) k' \<and> k'\<lparr>cls_buckets := cls_buckets k\<rparr> = k
    \<and> cls_lookup (num_cls_buckets s) k' = (cls_lookup (num_cls_buckets s) k)(spec \<mapsto> d)"
proof -
  let ?nb = "num_cls_buckets s" and ?i = "cls_bucket_index (num_cls_buckets s) spec"
  define bs where "bs = (case cls_buckets k of None \<Rightarrow> replicate (nat ?nb) [] | Some bs \<Rightarrow> bs)"
  note b = bucket_index_bound [OF assms(1)]
  have len: "int (length bs) = ?nb" using assms(1,4) by (auto simp: bs_def cls_ok_def buckets_ok_def split: option.splits)
  have lk: "find_cls sp (bs ! nat (cls_bucket_index ?nb sp)) = cls_lookup ?nb k sp" for sp
    using b [of sp] len by (cases "cls_buckets k") (auto simp: bs_def cls_lookup_def)
  have at: "bucket_at bs ?i = Inr (bs ! nat ?i)" using b [of spec] len by (simp add: bucket_at_def)
  have none: "find_cls spec (bs ! nat ?i) = None" using lk assms(5) by simp
  define s1 where "s1 = s\<lparr>coros := put self (k\<lparr>cls_buckets := Some bs\<rparr>) (coros s)\<rparr>"
  define d where "d = bio_malloc s1"
  define bs' where "bs' = bs[nat ?i := (bs ! nat ?i) @ [\<lparr>cls_spec = spec, cls_data = d\<rparr>]]"
  define k' where "k' = k\<lparr>cls_buckets := Some bs'\<rparr>"
  define s' where "s' = s\<lparr>coros := put self k' (put self (k\<lparr>cls_buckets := Some bs\<rparr>) (coros s))\<rparr>"
  have r: "bio_get_cls init self spec s = Inr (d, s')"
    using assms(2,3,6) at none
    by (simp add: bio_get_cls_def Let_def bs_def [symmetric] s1_def [symmetric] d_def [symmetric])
      (simp add: s1_def s'_def k'_def bs'_def)
  have lk': "cls_lookup ?nb k' = (cls_lookup ?nb k)(spec \<mapsto> d)"
  proof
    fix sp
    have "bs' ! nat (cls_bucket_index ?nb sp) = (if cls_bucket_index ?nb sp = ?i then (bs ! nat ?i) @ [\<lparr>cls_spec = spec, cls_data = d\<rparr>]
        else bs ! nat (cls_bucket_index ?nb sp))"
      using b [of sp] b [of spec] len by (simp add: bs'_def nth_list_update eq_nat_nat_iff)
    moreover have "cls_lookup ?nb k' sp = find_cls sp (bs' ! nat (cls_bucket_index ?nb sp))"
      by (simp add: cls_lookup_def k'_def)
    ultimately show "cls_lookup ?nb k' sp = ((cls_lookup ?nb k)(spec \<mapsto> d)) sp"
      using lk [of sp] none by (auto simp: find_cls_append split: option.splits)
  qed
  show ?thesis
    using r lk' len by (intro exI [of _ s'] exI [of _ k'] exI [of _ d]) (simp add: s'_def k'_def cls_ok_def bs'_def)
qed

end
