(* ===== verification/Format.thy ===== *)
theory Format
  imports Context
begin

text \<open>
  Growing format buffers: \<open>bio_vfmt\<close> and \<open>bio_fmt\<close> of \<open>src/src/internal.h\<close>. What the
  format string and its arguments expand to is a parameter: \<open>Some str\<close>, or \<open>None\<close>
  when the C library reports an encoding error.
\<close>

abbreviation NUL :: char where
  "NUL \<equiv> CHR 0x00"

text \<open>
  \<open>vsnprintf(ptr, len, ...)\<close>: at most \<open>len - 1\<close> characters and a terminator are written;
  with \<open>len\<close> zero nothing is.
\<close>

definition vsnprintf :: "char list option \<Rightarrow> int \<Rightarrow> string \<Rightarrow> char list option outcome" where
  "vsnprintf mem n str =
    (if n = 0 then Inr mem
     else case mem of
            None \<Rightarrow> Inl DanglingPointer
          | Some cs \<Rightarrow>
              let out = take (nat n - 1) str @ [NUL] in
              if length out \<le> length cs then Inr (Some (out @ drop (length out) cs)) else Inl DanglingPointer)"

definition bio_vfmt :: "string option \<Rightarrow> bio_fmt_buf \<Rightarrow> (int \<times> bio_fmt_buf) outcome" where
  "bio_vfmt formatted buf =
    (case formatted of
       None \<Rightarrow> Inr (-1, buf)
     | Some str \<Rightarrow>
         let num_chars = int (length str) in
         rbind (vsnprintf (fmt_mem buf) (fmt_len buf) str) (\<lambda>mem.
         rbind (if num_chars \<ge> fmt_len buf then
                  rbind (check32 (num_chars + 1)) (\<lambda>n.
                  rbind (vsnprintf (Some (replicate (nat n) NUL)) n str) (\<lambda>mem.
                  Inr (\<lparr>fmt_mem = mem, fmt_len = n\<rparr>)))
                else Inr (buf\<lparr>fmt_mem := mem\<rparr>)) (\<lambda>buf.
         case fmt_mem buf of
           None \<Rightarrow> Inl DanglingPointer
         | Some cs \<Rightarrow> rbind (aset cs (nat num_chars) NUL) (\<lambda>cs. Inr (num_chars, buf\<lparr>fmt_mem := Some cs\<rparr>)))))"

definition bio_fmt :: "string option \<Rightarrow> bio_fmt_buf \<Rightarrow> (int \<times> bio_fmt_buf) outcome" where
  "bio_fmt formatted buf = bio_vfmt formatted buf"

section \<open>A format buffer holds the whole text\<close>

definition fmt_ok :: "bio_fmt_buf \<Rightarrow> bool" where
  "fmt_ok buf \<longleftrightarrow> (case fmt_mem buf of None \<Rightarrow> fmt_len buf = 0 | Some cs \<Rightarrow> 0 < fmt_len buf \<and> int (length cs) = fmt_len buf)"

text \<open>The C string at the start of the buffer.\<close>

definition fmt_string :: "bio_fmt_buf \<Rightarrow> string option" where
  "fmt_string buf = map_option (takeWhile (\<lambda>c. c \<noteq> NUL)) (fmt_mem buf)"

lemma takeWhile_NUL: "NUL \<notin> set str \<Longrightarrow> takeWhile (\<lambda>c. c \<noteq> NUL) (str @ NUL # cs) = str"
  by (induction str) auto

lemma vsnprintf_ok:
  assumes "fmt_ok buf"
  shows "\<exists>mem. vsnprintf (fmt_mem buf) (fmt_len buf) str = Inr mem"
proof (cases "fmt_mem buf")
  case (Some cs)
  then have n: "nat (fmt_len buf) = length cs" "cs \<noteq> []" using assms by (auto simp: fmt_ok_def)
  then have "length (take (nat (fmt_len buf) - 1) str @ [NUL]) \<le> length cs" by (cases cs) simp_all
  then show ?thesis by (simp add: vsnprintf_def Some Let_def)
qed (use assms in \<open>simp add: vsnprintf_def fmt_ok_def\<close>)

lemma vfmt_grow:
  assumes "fmt_ok buf" "fmt_len buf \<le> int (length str)" "int (length str) < INT32_MAX"
  shows "bio_vfmt (Some str) buf = Inr (int (length str), \<lparr>fmt_mem = Some (str @ [NUL]), fmt_len = int (length str) + 1\<rparr>)"
proof -
  obtain mem where m: "vsnprintf (fmt_mem buf) (fmt_len buf) str = Inr mem" using vsnprintf_ok [OF assms(1)] by blast
  have c: "check32 (int (length str) + 1) = Inr (int (length str) + 1)" using assms(3) by (simp add: check32_def INT32_MAX_def)
  have n: "nat (int (length str) + 1) = Suc (length str)" by simp
  have v: "vsnprintf (Some (replicate (Suc (length str)) NUL)) (int (length str) + 1) str = Inr (Some (str @ [NUL]))"
    unfolding vsnprintf_def Let_def n by simp
  show ?thesis
    unfolding bio_vfmt_def option.case Let_def m rbind_simps if_P [OF assms(2)] c n v
    by (simp add: aset_def list_update_append)
qed

lemma vfmt_fits:
  assumes "fmt_ok buf" "int (length str) < fmt_len buf"
  shows "\<exists>cs. bio_vfmt (Some str) buf = Inr (int (length str), buf\<lparr>fmt_mem := Some (str @ NUL # cs)\<rparr>)
    \<and> Suc (length str + length cs) = nat (fmt_len buf)"
proof -
  obtain m where m: "fmt_mem buf = Some m" "int (length m) = fmt_len buf" using assms by (auto simp: fmt_ok_def split: option.splits)
  have "take (nat (fmt_len buf) - 1) str = str" using assms(2) by simp
  then have "vsnprintf (fmt_mem buf) (fmt_len buf) str = Inr (Some (str @ NUL # drop (Suc (length str)) m))"
    using assms(2) m by (auto simp: vsnprintf_def Let_def)
  then show ?thesis
    using assms(2) m by (auto simp: bio_vfmt_def Let_def aset_def list_update_append intro!: exI [of _ "drop (Suc (length str)) m"])
qed

text \<open>
  The result is the length of the text, the buffer holds the text and its
  terminator, and it never gets smaller.
\<close>

lemma vfmt_holds:
  assumes "fmt_ok buf" "int (length str) < INT32_MAX" "NUL \<notin> set str"
  shows "\<exists>buf'. bio_vfmt (Some str) buf = Inr (int (length str), buf') \<and> fmt_ok buf' \<and> fmt_string buf' = Some str
    \<and> int (length str) < fmt_len buf' \<and> fmt_len buf \<le> fmt_len buf'"
proof (cases "fmt_len buf \<le> int (length str)")
  case True
  then show ?thesis
    using vfmt_grow [OF assms(1) True assms(2)] takeWhile_NUL [OF assms(3), of "[]"]
    by (auto simp: fmt_ok_def fmt_string_def)
next
  case False
  then obtain cs where "bio_vfmt (Some str) buf = Inr (int (length str), buf\<lparr>fmt_mem := Some (str @ NUL # cs)\<rparr>)"
      "Suc (length str + length cs) = nat (fmt_len buf)" using vfmt_fits [OF assms(1), of str] by auto
  then show ?thesis
    using False takeWhile_NUL [OF assms(3), of cs] by (auto simp: fmt_ok_def fmt_string_def)
qed

end
