(* ===== verification/Logging.thy ===== *)
theory Logging
  imports Service Cls Format
begin

text \<open>
  Logging (\<open>src/src/logging.c\<close>): every logger is a service in a daemon coroutine; a
  message is formatted once and a copy of it is sent to every logger whose level
  allows it.
\<close>

section \<open>Model\<close>

record bio_log_ctx =
  log_coro :: bio_handle
  log_level :: bio_log_level
  log_line :: int
  log_file :: string

record bio_log_service_msg =
  svc_msg_ctx :: bio_log_ctx
  svc_msg_ptr :: addr

text \<open>
  How a message is laid out in the bytes of a mailbox: \<open>enc\<close> and \<open>dec\<close>, with the size
  \<open>sizeof(bio_log_service_msg_t)\<close>.
\<close>

record log_layout =
  enc :: "bio_log_service_msg \<Rightarrow> byte list"
  dec :: "byte list \<Rightarrow> bio_log_service_msg"
  log_msg_size :: nat

abbreviation set_log_strings :: "string store \<Rightarrow> 'w bio_ctx \<Rightarrow> 'w bio_ctx" where
  "set_log_strings x s \<equiv> s\<lparr>rest := (rest s)\<lparr>log_strings := x\<rparr>\<rparr>"

abbreviation set_log_bufs :: "bio_fmt_buf store \<Rightarrow> 'w bio_ctx \<Rightarrow> 'w bio_ctx" where
  "set_log_bufs x s \<equiv> s\<lparr>rest := (rest s)\<lparr>log_bufs := x\<rparr>\<rparr>"

abbreviation set_loggers :: "addr list \<Rightarrow> 'w bio_ctx \<Rightarrow> 'w bio_ctx" where
  "set_loggers x s \<equiv> s\<lparr>rest := (rest s)\<lparr>loggers := x\<rparr>\<rparr>"

abbreviation set_logger_impls :: "bio_logger_impl store \<Rightarrow> 'w bio_ctx \<Rightarrow> 'w bio_ctx" where
  "set_logger_impls x s \<equiv> s\<lparr>rest := (rest s)\<lparr>logger_impls := x\<rparr>\<rparr>"

text \<open>
  What a log function does: its address, its user data, the context (\<open>None\<close> for
  \<open>NULL\<close>) and the message. It may wait.
\<close>

type_synonym 'w log_call = "addr \<Rightarrow> addr \<Rightarrow> bio_log_ctx option \<Rightarrow> string \<Rightarrow> 'w bio_ctx \<Rightarrow> 'w bio_ctx run"

text \<open>The loop of \<open>bio_log_service_entry\<close>.\<close>

partial_function (option) log_service_loop ::
    "log_layout \<Rightarrow> 'w log_call \<Rightarrow> (addr \<Rightarrow> 'w bio_ctx \<Rightarrow> 'w bio_ctx outcome) \<Rightarrow> addr \<Rightarrow> bio_handle \<Rightarrow> addr \<Rightarrow> addr \<Rightarrow> 'w bio_ctx \<Rightarrow> 'w bio_ctx run" where
  "log_service_loop Y call mco_yield self mailbox log_fn data s =
    obind (lift (bio__mailbox_recv mco_yield self mailbox (log_msg_size Y) s)) (\<lambda>r.
    case fst r of
      None \<Rightarrow> ret (snd r)
    | Some bytes \<Rightarrow>
        if svc_msg_ptr (dec Y bytes) = NULL then call log_fn data None '''' (snd r)
        else
          obind (lift (deref (log_strings (rest (snd r))) (svc_msg_ptr (dec Y bytes)))) (\<lambda>str.
          obind (call log_fn data (Some (svc_msg_ctx (dec Y bytes))) str (snd r)) (\<lambda>s.
          log_service_loop Y call mco_yield self mailbox log_fn data
            (set_log_strings (del (svc_msg_ptr (dec Y bytes)) (log_strings (rest s))) s))))"

definition bio_log_service_entry ::
    "log_layout \<Rightarrow> 'w log_call \<Rightarrow> (addr \<Rightarrow> 'w bio_ctx \<Rightarrow> 'w bio_ctx outcome) \<Rightarrow> addr \<Rightarrow> addr \<Rightarrow> 'w bio_ctx \<Rightarrow> 'w bio_ctx run" where
  "bio_log_service_entry Y call mco_yield self p s =
    obind (lift (bio__service_get_info p s)) (\<lambda>(mailbox, args).
    case args of
      [log_fn, data] \<Rightarrow> log_service_loop Y call mco_yield self mailbox log_fn data s
    | _ \<Rightarrow> lift (Inl DanglingPointer))"

text \<open>The function pointer \<open>bio_log_service_entry\<close>, and the address of the static \<open>bio_logging_cls\<close>.\<close>

definition bio_log_service_entry_fn :: addr where
  "bio_log_service_entry_fn = 4"

definition bio_logging_cls :: addr where
  "bio_logging_cls = 5"

definition is_separator :: "char \<Rightarrow> bool" where
  "is_separator ch \<longleftrightarrow> ch = CHR ''/'' \<or> ch = CHR 0x5C"

text \<open>The loop of \<open>bio_logging_init\<close>: the first \<open>n\<close> characters are still to be looked at, \<open>i = n - 1\<close>.\<close>

fun prefix_scan :: "string \<Rightarrow> nat \<Rightarrow> int \<Rightarrow> int \<times> int" where
  "prefix_scan filename 0 depth = (-1, depth)"
| "prefix_scan filename (Suc i) depth =
    (let depth = (if is_separator (filename ! i) then depth - 1 else depth) in
     if depth = 0 then (int i, depth) else prefix_scan filename i depth)"

text \<open>\<open>current_filename[i]\<close> of a C string, which is readable up to its terminator.\<close>

definition string_at :: "string \<Rightarrow> int \<Rightarrow> char outcome" where
  "string_at str i =
    (if 0 \<le> i \<and> i < int (length str) then Inr (str ! nat i)
     else if i = int (length str) then Inr NUL else Inl DanglingPointer)"

definition bio_logging_init :: "string option \<Rightarrow> int \<Rightarrow> 'w bio_ctx \<Rightarrow> 'w bio_ctx outcome" where
  "bio_logging_init current_filename current_depth_in_project s =
    (let s = s\<lparr>rest := (rest s)\<lparr>loggers := [], log_filename := current_filename, log_depth := current_depth_in_project\<rparr>\<rparr> in
     rbind (check32 (current_depth_in_project + 1)) (\<lambda>depth.
     case current_filename of
       None \<Rightarrow> Inr s
     | Some filename \<Rightarrow>
         let (i, depth) = prefix_scan filename (length filename) depth in
         rbind (string_at filename i) (\<lambda>ch.
         let i = (if is_separator ch then i + 1 else i) in
         Inr (if depth = 0 \<and> i \<ge> 0 then s\<lparr>rest := (rest s)\<lparr>log_prefix_len := i\<rparr>\<rparr> else s))))"

text \<open>\<open>bio_notify_service\<close> on the service of a logger.\<close>

definition notify_logger ::
    "log_layout \<Rightarrow> (addr \<Rightarrow> 'w bio_ctx \<Rightarrow> 'w bio_ctx outcome) \<Rightarrow> addr \<Rightarrow> bio_service \<Rightarrow> bio_log_service_msg \<Rightarrow> 'w bio_ctx \<Rightarrow> 'w bio_ctx run" where
  "notify_logger Y mco_yield self service msg s = bio_notify_service mco_yield self service (enc Y msg) True s"

text \<open>\<open>bio_log_service_msg_t service_msg = { 0 }\<close>.\<close>

definition zero_msg :: bio_log_service_msg where
  "zero_msg = \<lparr>svc_msg_ctx = \<lparr>log_coro = BIO_INVALID_HANDLE, log_level = BIO_LOG_LEVEL_TRACE, log_line = 0, log_file = ''''\<rparr>, svc_msg_ptr = NULL\<rparr>"

definition bio_remove_logger ::
    "log_layout \<Rightarrow> (addr \<Rightarrow> 'w bio_ctx \<Rightarrow> 'w bio_ctx outcome) \<Rightarrow> addr \<Rightarrow> bio_handle \<Rightarrow> 'w bio_ctx \<Rightarrow> 'w bio_ctx run" where
  "bio_remove_logger Y mco_yield self logger s =
    obind (lift (bio_close_handle logger BIO_LOGGER_HANDLE (handles s))) (\<lambda>(p, ht).
    let s = s\<lparr>handles := ht\<rparr> in
    if p \<noteq> NULL then
      obind (lift (deref (logger_impls (rest s)) p)) (\<lambda>impl.
      obind (notify_logger Y mco_yield self (logger_service impl) zero_msg s) (\<lambda>s.
      ret (set_logger_impls (del p (logger_impls (rest s))) (set_loggers (remove1 p (loggers (rest s))) s))))
    else ret s)"

partial_function (option) bio_logging_cleanup ::
    "log_layout \<Rightarrow> (addr \<Rightarrow> 'w bio_ctx \<Rightarrow> 'w bio_ctx outcome) \<Rightarrow> addr \<Rightarrow> 'w bio_ctx \<Rightarrow> 'w bio_ctx run" where
  "bio_logging_cleanup Y mco_yield self s =
    (case loggers (rest s) of
       [] \<Rightarrow> ret s
     | p # ps \<Rightarrow>
         obind (lift (deref (logger_impls (rest s)) p)) (\<lambda>logger.
         obind (bio_remove_logger Y mco_yield self (logger_handle logger) s) (bio_logging_cleanup Y mco_yield self)))"

definition bio_add_logger ::
    "log_layout \<Rightarrow> ('w \<Rightarrow> int \<times> 'w) \<Rightarrow> (addr \<Rightarrow> 'w \<Rightarrow> 'w) \<Rightarrow> (addr \<Rightarrow> 'w bio_ctx \<Rightarrow> 'w bio_ctx outcome) \<Rightarrow> addr \<Rightarrow> bio_log_level \<Rightarrow> addr \<Rightarrow> addr \<Rightarrow>
     'w bio_ctx \<Rightarrow> (bio_handle \<times> 'w bio_ctx) outcome" where
  "bio_add_logger Y clk mco_create mco_yield self level log_fn data s =
    (let p = bio_malloc s;
         uninit = \<lparr>logger_handle = BIO_INVALID_HANDLE, min_level = level, logger_service = \<lparr>svc_coro = BIO_INVALID_HANDLE, svc_mailbox = BIO_INVALID_HANDLE\<rparr>\<rparr>;
         s = set_logger_impls (put p uninit (logger_impls (rest s))) s in
     rbind (bio__service_start clk mco_create mco_yield self (log_msg_size Y) (Some \<lparr>coro_daemon = True, mailbox_capacity = 16\<rparr>)
       bio_log_service_entry_fn [log_fn, data] s) (\<lambda>(service, s).
     rbind (bio_make_handle p BIO_LOGGER_HANDLE (handles s)) (\<lambda>(h, ht).
     let s = s\<lparr>handles := ht\<rparr>;
         s = set_logger_impls (put p \<lparr>logger_handle = h, min_level = level, logger_service = service\<rparr> (logger_impls (rest s))) s in
     Inr (h, set_loggers (loggers (rest s) @ [p]) s))))"

definition bio_set_min_log_level :: "bio_handle \<Rightarrow> bio_log_level \<Rightarrow> 'w bio_ctx \<Rightarrow> 'w bio_ctx outcome" where
  "bio_set_min_log_level logger level s =
    (let p = bio_resolve_handle logger BIO_LOGGER_HANDLE (handles s) in
     if p \<noteq> NULL then
       rbind (deref (logger_impls (rest s)) p) (\<lambda>impl.
       Inr (set_logger_impls (put p (impl\<lparr>min_level := level\<rparr>) (logger_impls (rest s))) s))
     else Inr s)"

definition bio_init_logging_cls :: "addr \<Rightarrow> 'w bio_ctx \<Rightarrow> 'w bio_ctx outcome" where
  "bio_init_logging_cls p s = Inr (set_log_bufs (put p \<lparr>fmt_mem = None, fmt_len = 0\<rparr> (log_bufs (rest s))) s)"

definition bio_cleanup_logging_cls :: "addr \<Rightarrow> 'w bio_ctx \<Rightarrow> 'w bio_ctx outcome" where
  "bio_cleanup_logging_cls p s =
    rbind (deref (log_bufs (rest s)) p) (\<lambda>_. Inr (set_log_bufs (del p (log_bufs (rest s))) s))"

text \<open>The \<open>init\<close> member of the coroutine-local storage of the logging system.\<close>

definition logging_cls_init :: "addr \<Rightarrow> (addr \<Rightarrow> 'w bio_ctx \<Rightarrow> 'w bio_ctx outcome) option" where
  "logging_cls_init spec = (if spec = bio_logging_cls then Some bio_init_logging_cls else None)"

definition level_value :: "bio_log_level \<Rightarrow> int" where
  "level_value l = (case l of BIO_LOG_LEVEL_TRACE \<Rightarrow> 0 | BIO_LOG_LEVEL_DEBUG \<Rightarrow> 1 | BIO_LOG_LEVEL_INFO \<Rightarrow> 2
     | BIO_LOG_LEVEL_WARN \<Rightarrow> 3 | BIO_LOG_LEVEL_ERROR \<Rightarrow> 4 | BIO_LOG_LEVEL_FATAL \<Rightarrow> 5)"

text \<open>The shortening of the file name in \<open>bio_vlog\<close>.\<close>

definition shorten_filename :: "string option \<Rightarrow> 'w bio_ctx \<Rightarrow> string" where
  "shorten_filename filename s =
    (let filename = (case filename of None \<Rightarrow> ''<unknown>'' | Some f \<Rightarrow> f);
         n = log_prefix_len (rest s) in
     case log_filename (rest s) of
       None \<Rightarrow> filename
     | Some current \<Rightarrow>
         if n > 0 \<and> int (length filename) \<ge> n \<and> take (nat n) filename = take (nat n) current
         then drop (nat n) filename else filename)"

text \<open>
  The formatting in \<open>bio_vlog\<close>, in the buffer of the running coroutine: the address
  of its storage and the length of the message, or nothing on a format error.
\<close>

definition vlog_format :: "addr \<Rightarrow> string option \<Rightarrow> 'w bio_ctx \<Rightarrow> ((addr \<times> int) option \<times> 'w bio_ctx) outcome" where
  "vlog_format self formatted s =
    rbind (bio_get_cls logging_cls_init self bio_logging_cls s) (\<lambda>(cls, s).
    rbind (deref (log_bufs (rest s)) cls) (\<lambda>buf.
    rbind (bio_vfmt formatted buf) (\<lambda>(msg_len, buf).
    let s = set_log_bufs (put cls buf (log_bufs (rest s))) s in
    Inr (if msg_len < 0 then None else Some (cls, msg_len), s))))"

text \<open>The copy of the message that a logger gets, and its sending.\<close>

definition vlog_send ::
    "log_layout \<Rightarrow> (addr \<Rightarrow> 'w bio_ctx \<Rightarrow> 'w bio_ctx outcome) \<Rightarrow> addr \<Rightarrow> bio_log_ctx \<Rightarrow> addr \<times> int \<Rightarrow> bio_service \<Rightarrow> 'w bio_ctx \<Rightarrow> 'w bio_ctx run" where
  "vlog_send Y mco_yield self ctx msg service s =
    obind (lift (get_coro_state (svc_coro service) s)) (\<lambda>st.
    if st \<noteq> BIO_CORO_DEAD then
      obind (lift (deref (log_bufs (rest s)) (fst msg))) (\<lambda>buf.
      case fmt_mem buf of
        None \<Rightarrow> lift (Inl DanglingPointer)
      | Some cs \<Rightarrow>
          let p = bio_malloc s;
              s = set_log_strings (put p (take (nat (snd msg)) cs) (log_strings (rest s))) s in
          notify_logger Y mco_yield self service \<lparr>svc_msg_ctx = ctx, svc_msg_ptr = p\<rparr> s)
    else ret s)"

text \<open>\<open>itr->next\<close>: the logger that follows \<open>p\<close> in the list, \<open>None\<close> at its end.\<close>

fun next_link :: "addr \<Rightarrow> addr list \<Rightarrow> addr option" where
  "next_link p [] = None"
| "next_link p (x # xs) = (if x = p then (case xs of [] \<Rightarrow> None | y # _ \<Rightarrow> Some y) else next_link p xs)"

text \<open>The loop of \<open>bio_vlog\<close>; the next link is saved before the message is sent.\<close>

partial_function (option) vlog_loop ::
    "log_layout \<Rightarrow> (addr \<Rightarrow> 'w bio_ctx \<Rightarrow> 'w bio_ctx outcome) \<Rightarrow> addr \<Rightarrow> bio_log_ctx \<Rightarrow> string option \<Rightarrow> addr option \<Rightarrow> (addr \<times> int) option \<Rightarrow>
     'w bio_ctx \<Rightarrow> 'w bio_ctx run" where
  "vlog_loop Y mco_yield self ctx formatted itr msg s =
    (case itr of
       None \<Rightarrow> ret s
     | Some p \<Rightarrow>
         obind (lift (deref (logger_impls (rest s)) p)) (\<lambda>logger.
         let nxt = next_link p (loggers (rest s)) in
         if level_value (log_level ctx) \<ge> level_value (min_level logger) then
           obind (case msg of None \<Rightarrow> lift (vlog_format self formatted s) | Some m \<Rightarrow> ret (Some m, s)) (\<lambda>r.
           case fst r of
             None \<Rightarrow> ret (snd r)
           | Some m \<Rightarrow> obind (vlog_send Y mco_yield self ctx m (logger_service logger) (snd r))
                         (vlog_loop Y mco_yield self ctx formatted nxt (Some m)))
         else vlog_loop Y mco_yield self ctx formatted nxt msg s))"

definition bio_vlog ::
    "log_layout \<Rightarrow> (addr \<Rightarrow> 'w bio_ctx \<Rightarrow> 'w bio_ctx outcome) \<Rightarrow> addr \<Rightarrow> bio_log_level \<Rightarrow> string option \<Rightarrow> int \<Rightarrow> string option \<Rightarrow>
     'w bio_ctx \<Rightarrow> 'w bio_ctx run" where
  "bio_vlog Y mco_yield self level filename line formatted s =
    obind (lift (bio_current_coro self s)) (\<lambda>coro.
    let ctx = \<lparr>log_coro = coro, log_level = level, log_line = line, log_file = shorten_filename filename s\<rparr> in
    vlog_loop Y mco_yield self ctx formatted (case loggers (rest s) of [] \<Rightarrow> None | p # _ \<Rightarrow> Some p) None s)"

section \<open>Shortening file names\<close>

abbreviation separators :: "string \<Rightarrow> nat" where
  "separators str \<equiv> length (filter is_separator str)"

lemma separators_take: "n < length str \<Longrightarrow> separators (take (Suc n) str) = separators (take n str) + (if is_separator (str ! n) then 1 else 0)"
  by (simp add: take_Suc_conv_app_nth)

text \<open>With too few separators the scan runs past the start; with enough it stops at the one it looks for.\<close>

lemma prefix_scan_short:
  "n \<le> length str \<Longrightarrow> int (separators (take n str)) < depth \<Longrightarrow> fst (prefix_scan str n depth) = -1"
proof (induction n arbitrary: depth)
  case (Suc n)
  then show ?case using separators_take [of n str] by (auto simp: Let_def)
qed simp

lemma prefix_scan_finds:
  assumes "is_separator c" "k \<le> length rel"
  shows "prefix_scan (root @ c # rel) (Suc (length root) + k) (int (separators (take k rel)) + 1) = (int (length root), 0)"
  using assms(2)
proof (induction k)
  case 0
  then show ?case using assms(1) by (simp add: Let_def)
next
  case (Suc k)
  have n: "(root @ c # rel) ! (Suc (length root) + k) = rel ! k" by (simp add: nth_append)
  have t: "int (separators (take (Suc k) rel)) + 1 =
      (if is_separator (rel ! k) then int (separators (take k rel)) + 1 + 1 else int (separators (take k rel)) + 1)"
    using separators_take [of k rel] Suc.prems by simp
  have IH: "prefix_scan (root @ c # rel) (Suc (length root) + k) (int (separators (take k rel)) + 1) = (int (length root), 0)"
    using Suc by simp
  show ?case unfolding add_Suc_right prefix_scan.simps(2) n t Let_def using IH by (auto simp: add.commute simp del: prefix_scan.simps)
qed

lemma logging_init_prefix:
  assumes "is_separator c" "int (separators rel) < INT32_MAX"
  shows "\<exists>s'. bio_logging_init (Some (root @ c # rel)) (int (separators rel)) s = Inr s'
    \<and> log_prefix_len (rest s') = int (Suc (length root)) \<and> log_filename (rest s') = Some (root @ c # rel)"
proof -
  have scan: "prefix_scan (root @ c # rel) (length (root @ c # rel)) (int (separators rel) + 1) = (int (length root), 0)"
    using prefix_scan_finds [OF assms(1), of "length rel" rel root] by simp
  have "check32 (int (separators rel) + 1) = Inr (int (separators rel) + 1)" using assms(2) by (simp add: check32_def INT32_MAX_def)
  note chk = this
  have "string_at (root @ c # rel) (int (length root)) = Inr c" by (simp add: string_at_def)
  then show ?thesis unfolding bio_logging_init_def Let_def chk rbind_simps option.case scan prod.case using assms(1) by simp
qed

lemma logging_init_outside:
  assumes "int (separators str) \<le> depth" "depth < INT32_MAX"
  shows "bio_logging_init (Some str) depth s = Inl DanglingPointer"
proof -
  obtain d where "prefix_scan str (length str) (depth + 1) = (-1, d)"
    using prefix_scan_short [of "length str" str "depth + 1"] assms(1) by (cases "prefix_scan str (length str) (depth + 1)") auto
  note scan = this
  have chk: "check32 (depth + 1) = Inr (depth + 1)" using assms by (simp add: check32_def INT32_MAX_def)
  show ?thesis unfolding bio_logging_init_def Let_def chk rbind_simps option.case scan prod.case by (simp add: string_at_def)
qed

lemma prefix_scan_bounds:
  "n \<le> length str \<Longrightarrow> 0 < depth \<Longrightarrow> depth \<le> int (separators (take n str)) \<Longrightarrow>
   0 \<le> fst (prefix_scan str n depth) \<and> fst (prefix_scan str n depth) < int n"
proof (induction n arbitrary: depth)
  case (Suc n)
  let ?d = "if is_separator (str ! n) then depth - 1 else depth"
  have t: "int (separators (take (Suc n) str)) = int (separators (take n str)) + (if is_separator (str ! n) then 1 else 0)"
    using separators_take [of n str] Suc.prems(1) by simp
  show ?case
  proof (cases "?d = 0")
    case True
    then show ?thesis by (simp add: Let_def)
  next
    case False
    have "0 < ?d" "?d \<le> int (separators (take n str))" using False Suc.prems(2,3) t by (auto split: if_splits)
    with Suc.IH [of ?d] Suc.prems(1) False show ?thesis by (simp only: prefix_scan.simps Let_def if_False) simp
  qed
qed simp

end
