(* ===== verification/Exit.thy ===== *)
theory Exit
  imports EventLoop
begin

text \<open>
  Waiting for the end of the program (\<open>src/src/bio.c\<close>): coroutines that wait in
  \<open>bio_wait_for_exit\<close> become daemons and are told why the program ends.
\<close>

section \<open>Model\<close>

abbreviation set_exit_infos :: "bio_exit_info store \<Rightarrow> 'w bio_ctx \<Rightarrow> 'w bio_ctx" where
  "set_exit_infos xs s \<equiv> s\<lparr>rest := (rest s)\<lparr>exit_infos := xs\<rparr>\<rparr>"

abbreviation set_exit_handlers :: "addr bio_array \<Rightarrow> 'w bio_ctx \<Rightarrow> 'w bio_ctx" where
  "set_exit_handlers a s \<equiv> s\<lparr>rest := (rest s)\<lparr>exit_handlers := a\<rparr>\<rparr>"

text \<open>The loop of \<open>bio_dispatch_exit_signal\<close> over the handlers with the given indices.\<close>

fun dispatch_handlers :: "bio_exit_reason \<Rightarrow> nat list \<Rightarrow> 'w bio_ctx \<Rightarrow> 'w bio_ctx outcome" where
  "dispatch_handlers reason [] s = Inr s"
| "dispatch_handlers reason (i # is) s =
    rbind (array_get (exit_handlers (rest s)) i) (\<lambda>p.
    rbind (deref (exit_infos (rest s)) p) (\<lambda>info.
    let s = set_exit_infos (put p (info\<lparr>exit_reason := reason\<rparr>) (exit_infos (rest s))) s in
    rbind (bio_raise_signal (exit_signal info) s) (\<lambda>(_, s). dispatch_handlers reason is s)))"

text \<open>\<open>unblock\<close> is \<open>bio_platform_unblock_exit_signal\<close> of the platform layer.\<close>

definition bio_dispatch_exit_signal :: "('w \<Rightarrow> 'w) \<Rightarrow> bio_exit_reason \<Rightarrow> 'w bio_ctx \<Rightarrow> 'w bio_ctx outcome" where
  "bio_dispatch_exit_signal unblock reason s =
    (let num_handlers = bio_array_len (exit_handlers (rest s)) in
     rbind (dispatch_handlers reason [0..<num_handlers] s) (\<lambda>s.
     let s = set_exit_handlers (bio_array_clear (exit_handlers (rest s))) s in
     Inr (if num_handlers > 0 then s\<lparr>world := unblock (world s)\<rparr> else s)))"

definition bio_handle_exit_signal :: "('w \<Rightarrow> 'w) \<Rightarrow> 'w bio_ctx \<Rightarrow> 'w bio_ctx outcome" where
  "bio_handle_exit_signal unblock s = bio_dispatch_exit_signal unblock BIO_EXIT_OS_REQUEST s"

definition bio_is_terminating :: "'w bio_ctx \<Rightarrow> bool" where
  "bio_is_terminating s = is_terminating s"

text \<open>
  \<open>bio_wait_for_exit\<close> up to the wait: the handler is the address of a variable on
  the caller's stack, so it lives until the function returns. \<open>block\<close> is
  \<open>bio_platform_block_exit_signal\<close>.
\<close>

definition exit_register :: "('w bio_ctx \<Rightarrow> 'w bio_ctx outcome) \<Rightarrow> addr \<Rightarrow> 'w bio_ctx \<Rightarrow> (bio_handle \<times> addr \<times> 'w bio_ctx) outcome" where
  "exit_register block self s =
    rbind (if bio_array_len (exit_handlers (rest s)) = 0 then block s else Inr s) (\<lambda>s.
    rbind (bio_make_signal self s) (\<lambda>(signal, s).
    let p = bio_malloc s;
        s = set_exit_infos (put p \<lparr>exit_signal = signal, exit_reason = BIO_EXIT_OS_REQUEST\<rparr> (exit_infos (rest s))) s;
        s = set_exit_handlers (bio_array_push (exit_handlers (rest s)) p) s in
    rbind (daemonize self s) (\<lambda>s. Inr (signal, p, s))))"

definition bio_wait_for_exit ::
    "('w bio_ctx \<Rightarrow> 'w bio_ctx outcome) \<Rightarrow> (addr \<Rightarrow> 'w bio_ctx \<Rightarrow> 'w bio_ctx outcome) \<Rightarrow> addr \<Rightarrow> 'w bio_ctx \<Rightarrow> (bio_exit_reason \<times> 'w bio_ctx) outcome" where
  "bio_wait_for_exit block mco_yield self s =
    (if self \<noteq> NULL \<and> \<not> is_terminating s then
       rbind (exit_register block self s) (\<lambda>(signal, p, s).
       rbind (bio_wait_for_one_signal mco_yield self signal s) (\<lambda>s.
       rbind (deref (exit_infos (rest s)) p) (\<lambda>info.
       Inr (exit_reason info, set_exit_infos (del p (exit_infos (rest s))) s))))
     else Inr (BIO_EXIT_TERMINATE, s))"

section \<open>Every waiting coroutine is told\<close>

definition exit_ok :: "'w bio_ctx \<Rightarrow> bool" where
  "exit_ok s \<longleftrightarrow> array_inv (exit_handlers (rest s))
   \<and> (\<forall>p \<in> set (array_list (exit_handlers (rest s))). \<exists>x. map_of (exit_infos (rest s)) p = Some x \<and> issued (handles s) (exit_signal x))"

text \<open>The coroutine that registered \<open>p\<close> knows the reason and is no longer blocked by its signal.\<close>

definition told :: "bio_exit_reason \<Rightarrow> 'w bio_ctx \<Rightarrow> addr \<Rightarrow> bool" where
  "told reason s p \<longleftrightarrow> (\<exists>x. map_of (exit_infos (rest s)) p = Some x \<and> exit_reason x = reason \<and> bio_check_signal (exit_signal x) s)"

text \<open>No handle is forgotten and no raised signal becomes unraised.\<close>

definition raised_kept :: "'w bio_ctx \<Rightarrow> 'w bio_ctx \<Rightarrow> bool" where
  "raised_kept s s' \<longleftrightarrow> (\<forall>k. issued (handles s) k \<longrightarrow> issued (handles s') k \<and> (bio_check_signal k s \<longrightarrow> bio_check_signal k s'))"

lemma raised_kept_refl [simp]: "raised_kept s s"
  by (simp add: raised_kept_def)

lemma raised_kept_trans: "raised_kept a b \<Longrightarrow> raised_kept b c \<Longrightarrow> raised_kept a c"
  by (simp add: raised_kept_def)

lemma raised_kept_eq: "handles s' = handles s \<Longrightarrow> raised_kept s s'"
  by (simp add: raised_kept_def bio_check_signal_def)

text \<open>The objects of the exit handlers are the only ones that change.\<close>

definition exit_frame :: "'w bio_ctx \<Rightarrow> 'w bio_ctx \<Rightarrow> bool" where
  "exit_frame s s' \<longleftrightarrow> raised_kept s s' \<and> (rest s')\<lparr>exit_infos := [], exit_handlers := None\<rparr> = (rest s)\<lparr>exit_infos := [], exit_handlers := None\<rparr>"

lemma exit_frame_trans: "exit_frame a b \<Longrightarrow> exit_frame b c \<Longrightarrow> exit_frame a c"
  unfolding exit_frame_def by (metis raised_kept_trans)

lemma exit_frameD:
  assumes "exit_frame s s'"
  shows "io_reqs (rest s') = io_reqs (rest s)" "plat (rest s') = plat (rest s)"
  using assms [unfolded exit_frame_def, THEN conjunct2, THEN arg_cong, of io_reqs]
    assms [unfolded exit_frame_def, THEN conjunct2, THEN arg_cong, of plat] by simp_all

definition exit_step :: "bio_exit_reason \<Rightarrow> addr list \<Rightarrow> addr option \<Rightarrow> 'w bio_ctx \<Rightarrow> 'w bio_ctx \<Rightarrow> bool" where
  "exit_step reason cur run s s' \<longleftrightarrow> loop_inv cur run s' \<and> exit_ok s'
   \<and> exit_handlers (rest s') = exit_handlers (rest s) \<and> current_ready_coros s' = current_ready_coros s \<and> is_terminating s' = is_terminating s
   \<and> exit_frame s s' \<and> world s' = world s
   \<and> (\<forall>p \<in> set (array_list (exit_handlers (rest s))). told reason s p \<longrightarrow> told reason s' p)"

lemma exit_step_trans: "exit_step reason cur run a b \<Longrightarrow> exit_step reason cur run b c \<Longrightarrow> exit_step reason cur run a c"
  unfolding exit_step_def using exit_frame_trans [of a b c] by simp

lemma told_simps [simp]:
  "told reason (set_exit_handlers a s) p = told reason s p" "told reason (s\<lparr>world := w\<rparr>) p = told reason s p"
  by (simp_all add: told_def bio_check_signal_def)

lemma exit_ok_world [simp]: "exit_ok (s\<lparr>world := w\<rparr>) = exit_ok s"
  by (simp add: exit_ok_def)

lemma dispatch_one:
  assumes inv: "loop_inv cur run s" and ok: "exit_ok s" and p: "p \<in> set (array_list (exit_handlers (rest s)))"
    and x: "map_of (exit_infos (rest s)) p = Some x"
  shows "safe (bio_raise_signal (exit_signal x) (set_exit_infos (put p (x\<lparr>exit_reason := reason\<rparr>) (exit_infos (rest s))) s))
    (\<lambda>(_, s'). exit_step reason cur run s s' \<and> told reason s' p)"
proof -
  let ?s = "set_exit_infos (put p (x\<lparr>exit_reason := reason\<rparr>) (exit_infos (rest s))) s"
  have I: "sched_inv cur run ?s" "timer_inv ?s" using inv by (simp_all add: loop_inv_def timer_inv_def timers_of_def)
  have iss: "issued (handles ?s) (exit_signal y)" if "q \<in> set (array_list (exit_handlers (rest s)))" "map_of (exit_infos (rest s)) q = Some y" for q y
    using ok that by (auto simp: exit_ok_def)
  note R = safe_conj [OF raise_signal_safe [OF I(1) emptied_simps(1) iss [OF p x]] raise_keeps_raised [OF I(1) emptied_simps(1) iss [OF p x]]]
  have post: "exit_step reason cur run s s' \<and> told reason s' p"
    if "sched_inv cur run s'" and fr: "sched_frame ?s s'" and c: "bio_check_signal (exit_signal x) s'"
      and k: "\<forall>k. issued (handles ?s) k \<longrightarrow> bio_check_signal k ?s \<longrightarrow> bio_check_signal k s'" for s'
  proof -
    have r: "rest s' = rest ?s" "current_ready_coros s' = current_ready_coros s" "is_terminating s' = is_terminating s" "world s' = world s"
      using fr by (simp_all add: sched_frame_def)
    have "raised_kept s s'" using k sched_frame_issued [OF fr] by (auto simp: raised_kept_def bio_check_signal_def)
    then have ef: "exit_frame s s'" by (simp add: exit_frame_def r)
    have k': "bio_check_signal h s' " if "issued (handles s) h" "bio_check_signal h s" for h
      using k that by (simp add: bio_check_signal_def)
    have "told reason s' q" if "q \<in> set (array_list (exit_handlers (rest s)))" "told reason s q" for q
      using that iss [of q] k' c by (auto simp: told_def r)
    moreover have "exit_ok s'" using ok p x sched_frame_issued [OF fr] by (auto simp: exit_ok_def r)
    ultimately show ?thesis
      using that(1) timer_inv_frame [OF I(2) fr] c ef by (auto simp: exit_step_def told_def loop_inv_def r)
  qed
  show ?thesis by (rule safe_mono [OF R]) (use post in auto)
qed

lemma dispatch_handlers_safe:
  assumes "loop_inv cur run s" "exit_ok s" "set is \<subseteq> {..<bio_array_len (exit_handlers (rest s))}"
  shows "safe (dispatch_handlers reason is s) (\<lambda>s'. exit_step reason cur run s s'
    \<and> (\<forall>i \<in> set is. told reason s' (array_list (exit_handlers (rest s)) ! i)))"
  using assms
proof (induction "is" arbitrary: s)
  case Nil
  then show ?case by (simp add: exit_step_def exit_frame_def)
next
  case (Cons i "is")
  let ?A = "exit_handlers (rest s)"
  have i: "i < bio_array_len ?A" "array_inv ?A" using Cons.prems by (auto simp: exit_ok_def)
  then have g: "array_get ?A i = Inr (array_list ?A ! i)" by simp
  have p: "array_list ?A ! i \<in> set (array_list ?A)" using i by simp
  then obtain x where x: "map_of (exit_infos (rest s)) (array_list ?A ! i) = Some x" using Cons.prems(2) by (auto simp: exit_ok_def)
  show ?case
    unfolding dispatch_handlers.simps g rbind_simps deref_Some [OF x] Let_def
  proof (rule safe_bind [OF dispatch_one [OF Cons.prems(1,2) p x]], goal_cases)
    case (1 y)
    then obtain b s1 where y: "y = (b, s1)" and s1: "exit_step reason cur run s s1" "told reason s1 (array_list ?A ! i)" by (cases y) auto
    have pre: "loop_inv cur run s1" "exit_ok s1" "set is \<subseteq> {..<bio_array_len (exit_handlers (rest s1))}" "exit_handlers (rest s1) = ?A"
      using s1(1) Cons.prems(3) by (auto simp: exit_step_def)
    show ?case
      unfolding y prod.case
      by (rule safe_mono [OF Cons.IH [OF pre(1-3)]]) (use s1 p pre(4) exit_step_trans [OF s1(1)] in \<open>auto simp: exit_step_def\<close>)
  qed
qed

lemma dispatch_safe:
  assumes "loop_inv cur run s" "exit_ok s"
  shows "safe (bio_dispatch_exit_signal unblock reason s) (\<lambda>s'. loop_inv cur run s' \<and> exit_ok s' \<and> is_terminating s' = is_terminating s
    \<and> current_ready_coros s' = current_ready_coros s \<and> array_list (exit_handlers (rest s')) = [] \<and> exit_frame s s'
    \<and> (\<exists>b. world s' = (if b then unblock (world s) else world s))
    \<and> (\<forall>p \<in> set (array_list (exit_handlers (rest s))). told reason s' p))"
proof -
  let ?A = "exit_handlers (rest s)"
  have A: "array_inv ?A" using assms(2) by (simp add: exit_ok_def)
  have all: "(\<forall>i \<in> set [0..<bio_array_len ?A]. told reason s' (array_list ?A ! i)) \<longleftrightarrow> (\<forall>p \<in> set (array_list ?A). told reason s' p)" for s' :: "'a bio_ctx"
    using A by (auto simp: set_conv_nth)
  show ?thesis
    unfolding bio_dispatch_exit_signal_def Let_def
  proof (rule safe_bind [OF dispatch_handlers_safe [OF assms, of "[0..<bio_array_len ?A]" reason]], goal_cases)
    case (2 x)
    then have "exit_step reason cur run s x" "\<forall>p \<in> set (array_list ?A). told reason x p" unfolding all by auto
    moreover from this have "exit_ok (set_exit_handlers (bio_array_clear (exit_handlers (rest x))) x)"
      using A by (simp add: exit_step_def exit_ok_def)
    moreover have "exit_frame x (x\<lparr>rest := (rest x)\<lparr>exit_handlers := a\<rparr>, world := w\<rparr>)" "exit_frame x (x\<lparr>rest := (rest x)\<lparr>exit_handlers := a\<rparr>\<rparr>)" for a w
      by (simp_all add: exit_frame_def raised_kept_eq)
    ultimately show ?case using exit_frame_trans [of s x] by (auto simp: exit_step_def)
  qed auto
qed

section \<open>Registering\<close>

text \<open>
  A coroutine that registers is a daemon from then on, and its handler is the
  last one of the list.
\<close>

lemma exit_register_safe:
  assumes inv: "loop_inv cur (Some self) s" and ok: "exit_ok s" and self: "self \<noteq> NULL"
    and block: "\<And>s. loop_inv cur (Some self) s \<Longrightarrow> exit_ok s \<Longrightarrow> safe (block s) (\<lambda>s'. loop_inv cur (Some self) s' \<and> exit_ok s'
      \<and> array_list (exit_handlers (rest s')) = array_list (exit_handlers (rest s)) \<and> exit_infos (rest s') = exit_infos (rest s))"
  shows "safe (exit_register block self s) (\<lambda>(signal, p, s'). loop_inv cur (Some self) s' \<and> exit_ok s'
    \<and> array_list (exit_handlers (rest s')) = array_list (exit_handlers (rest s)) @ [p]
    \<and> map_of (exit_infos (rest s')) = (map_of (exit_infos (rest s)))(p \<mapsto> \<lparr>exit_signal = signal, exit_reason = BIO_EXIT_OS_REQUEST\<rparr>)
    \<and> map_of (exit_infos (rest s)) p = None
    \<and> (\<exists>k. map_of (coros s') self = Some k \<and> daemon k))"
proof -
  let ?P = "\<lambda>s'. loop_inv cur (Some self) s' \<and> exit_ok s'
      \<and> array_list (exit_handlers (rest s')) = array_list (exit_handlers (rest s)) \<and> exit_infos (rest s') = exit_infos (rest s)"
  have B: "safe (if bio_array_len (exit_handlers (rest s)) = 0 then block s else Inr s) ?P"
    using block [OF inv ok] inv ok by simp
  show ?thesis
    unfolding exit_register_def
  proof (rule safe_bind [OF B], goal_cases)
    case (1 s1)
    then have s1: "loop_inv cur (Some self) s1" "exit_ok s1"
      and e1: "array_list (exit_handlers (rest s1)) = array_list (exit_handlers (rest s))" "exit_infos (rest s1) = exit_infos (rest s)" by auto
    have I1: "sched_inv cur (Some self) s1" "timer_inv s1" using s1(1) by (simp_all add: loop_inv_def)
    have c1: "map_of (coros s1) self \<noteq> None" using running_coro [OF I1(1)] by (metis option.distinct(1))
    show ?case
    proof (rule safe_bind [OF make_signal_safe [OF I1(1) c1]], simp, goal_cases)
      case (1 x)
      then obtain h s2 where x: "x = (h, s2)" and s2: "sched_inv cur (Some self) s2" "sched_frame s1 s2" "issued (handles s2) h" by (cases x) auto
      have L2: "loop_inv cur (Some self) s2" using s2(1) timer_inv_frame [OF I1(2) s2(2)] by (simp add: loop_inv_def)
      have r2: "rest s2 = rest s1" using s2(2) by (simp add: sched_frame_def)
      let ?p = "bio_malloc s2"
      let ?i = "\<lparr>exit_signal = h, exit_reason = BIO_EXIT_OS_REQUEST\<rparr>"
      let ?s3 = "s2\<lparr>rest := (rest s2)\<lparr>exit_infos := put ?p ?i (exit_infos (rest s2)), exit_handlers := bio_array_push (exit_handlers (rest s2)) ?p\<rparr>\<rparr>"
      have fresh: "map_of (exit_infos (rest s2)) ?p = None" using bio_malloc_fresh(7) [OF sched_invD(1) [OF s2(1)]] .
      have L3: "loop_inv cur (Some self) ?s3" using L2 by simp
      have ok3: "exit_ok ?s3"
        using s1(2) s2(3) fresh sched_frame_issued [OF s2(2)] by (auto simp: exit_ok_def r2)
      have c2: "map_of (coros s2) self \<noteq> None" using running_coro [OF s2(1)] by (metis option.distinct(1))
      then have c3: "map_of (coros ?s3) self \<noteq> None" by simp
      have dm: "safe (daemonize self ?s3) (\<lambda>s'. \<exists>k. map_of (coros s') self = Some k \<and> daemon k)"
        using c2 by (auto simp: daemonize_def)
      have A: "array_inv (exit_handlers (rest s1))" using s1(2) by (simp add: exit_ok_def)
      have post: "exit_ok s' \<and> array_list (exit_handlers (rest s')) = array_list (exit_handlers (rest s)) @ [?p]
          \<and> map_of (exit_infos (rest s')) = (map_of (exit_infos (rest s)))(?p \<mapsto> ?i) \<and> map_of (exit_infos (rest s)) ?p = None"
        if "others_kept ?s3 s'" for s'
      proof -
        have r: "rest s' = rest ?s3" using that by (simp add: others_kept_def)
        moreover have "issued (handles s') h" using others_kept_issued [OF that, of h] s2(3) by simp
        ultimately have "exit_ok s'" using ok3 others_kept_issued [OF that] by (auto simp: exit_ok_def r2)
        moreover have "map_of (exit_infos (rest s)) ?p = None" using fresh e1(2) by (simp add: r2)
        ultimately show ?thesis using A e1 by (simp add: r r2)
      qed
      have "safe (daemonize self ?s3) (\<lambda>s'. loop_inv cur (Some self) s' \<and> exit_ok s'
          \<and> array_list (exit_handlers (rest s')) = array_list (exit_handlers (rest s)) @ [?p]
          \<and> map_of (exit_infos (rest s')) = (map_of (exit_infos (rest s)))(?p \<mapsto> ?i)
          \<and> map_of (exit_infos (rest s)) ?p = None \<and> (\<exists>k. map_of (coros s') self = Some k \<and> daemon k))"
      proof (rule safe_mono [OF safe_conj [OF daemonize_safe [OF L3 c3] dm]], goal_cases)
        case (1 y)
        then have "others_kept ?s3 y" "loop_inv cur (Some self) y" "\<exists>k. map_of (coros y) self = Some k \<and> daemon k" by blast+
        with post show ?case by blast
      qed
      then show ?case unfolding x prod.case Let_def by simp
    qed
  qed
qed

end
