(* ===== verification/Errors.thy ===== *)
theory Errors
  imports HandleTable
begin

text \<open>
  Error values: \<open>bio_error_t\<close> of \<open>src/include/bio/bio.h\<close>, the core errors of
  \<open>src/src/bio.c\<close> and the \<open>errno\<close> errors of the Linux platform layer
  (\<open>src/src/linux/platform.c\<close>, \<open>src/src/linux/common.h\<close>).
  An error out-parameter is \<open>None\<close> for the null pointer and otherwise the content of
  the struct it points to; a function that may fail returns it updated.
\<close>

datatype bio_core_error_code = BIO_NO_ERROR | BIO_ERROR_INVALID_ARGUMENT | BIO_ERROR_NOT_SUPPORTED

definition core_error_value :: "bio_core_error_code \<Rightarrow> int" where
  "core_error_value c = (case c of BIO_NO_ERROR \<Rightarrow> 0 | BIO_ERROR_INVALID_ARGUMENT \<Rightarrow> 1 | BIO_ERROR_NOT_SUPPORTED \<Rightarrow> 2)"

text \<open>The formatting functions an error may carry.\<close>

datatype strerror_fn = NULL_STRERROR | CORE_STRERROR | FORMAT_ERRNO | USER_STRERROR nat

record bio_error =
  err_tag :: bio_tag
  err_strerror :: strerror_fn
  err_code :: int
  err_file :: string
  err_line :: int

text \<open>An error out-parameter, and the place that reports an error (\<open>__FILE__\<close>, \<open>__LINE__\<close>).\<close>

type_synonym error_ptr = "bio_error option"
type_synonym location = "string \<times> int"

definition bio_core_strerror :: "int \<Rightarrow> string" where
  "bio_core_strerror code =
    (if code = core_error_value BIO_NO_ERROR then ''No error''
     else if code = core_error_value BIO_ERROR_INVALID_ARGUMENT then ''Invalid argument''
     else if code = core_error_value BIO_ERROR_NOT_SUPPORTED then ''Operation is not supported''
     else ''Unknown error'')"

definition bio_set_core_error :: "location \<Rightarrow> error_ptr \<Rightarrow> bio_core_error_code \<Rightarrow> error_ptr" where
  "bio_set_core_error loc error code =
    (case error of
       None \<Rightarrow> None
     | Some e \<Rightarrow> Some (e\<lparr>err_tag := BIO_CORE_ERROR, err_code := core_error_value code,
                         err_strerror := CORE_STRERROR, err_file := fst loc, err_line := snd loc\<rparr>))"

definition bio_set_errno :: "location \<Rightarrow> error_ptr \<Rightarrow> int \<Rightarrow> error_ptr" where
  "bio_set_errno loc error code =
    (case error of
       None \<Rightarrow> None
     | Some e \<Rightarrow> Some (e\<lparr>err_tag := BIO_PLATFORM_ERROR, err_code := code,
                         err_strerror := FORMAT_ERRNO, err_file := fst loc, err_line := snd loc\<rparr>))"

text \<open>The result of a system call: a count or a negated error number.\<close>

definition bio_result_to_size :: "location \<Rightarrow> int \<Rightarrow> error_ptr \<Rightarrow> nat \<times> error_ptr" where
  "bio_result_to_size loc result error =
    (if result \<ge> 0 then (nat result, error) else (0, bio_set_errno loc error (- result)))"

definition bio_result_to_bool :: "location \<Rightarrow> int \<Rightarrow> error_ptr \<Rightarrow> bool \<times> error_ptr" where
  "bio_result_to_bool loc result error =
    (if result \<ge> 0 then (True, error) else (False, bio_set_errno loc error (- result)))"

definition bio_has_error :: "error_ptr \<Rightarrow> bool" where
  "bio_has_error error = (case error of None \<Rightarrow> False | Some e \<Rightarrow> err_tag e \<noteq> NULL_TAG)"

text \<open>\<open>fmt\<close> is the meaning of the formatting functions that are not part of the core.\<close>

definition bio_strerror :: "(strerror_fn \<Rightarrow> int \<Rightarrow> string) \<Rightarrow> error_ptr \<Rightarrow> string option" where
  "bio_strerror fmt error =
    (case error of
       None \<Rightarrow> None
     | Some e \<Rightarrow> if err_tag e \<noteq> NULL_TAG
                 then Some (if err_strerror e = CORE_STRERROR then bio_core_strerror (err_code e)
                            else fmt (err_strerror e) (err_code e))
                 else None)"

definition bio_clear_error :: "error_ptr \<Rightarrow> error_ptr" where
  "bio_clear_error error = (case error of None \<Rightarrow> None | Some e \<Rightarrow> Some (e\<lparr>err_tag := NULL_TAG\<rparr>))"

lemma has_error_core [simp]: "bio_has_error (bio_set_core_error loc error code) \<longleftrightarrow> error \<noteq> None"
  by (cases error) (simp_all add: bio_has_error_def bio_set_core_error_def)

lemma has_error_errno [simp]: "bio_has_error (bio_set_errno loc error code) \<longleftrightarrow> error \<noteq> None"
  by (cases error) (simp_all add: bio_has_error_def bio_set_errno_def)

lemma has_error_clear [simp]: "\<not> bio_has_error (bio_clear_error error)"
  by (cases error) (simp_all add: bio_has_error_def bio_clear_error_def)

text \<open>A reported core error is formatted by the text that belongs to its code.\<close>

lemma strerror_core:
  "bio_strerror fmt (bio_set_core_error loc (Some e) code) =
    Some (case code of BIO_NO_ERROR \<Rightarrow> ''No error'' | BIO_ERROR_INVALID_ARGUMENT \<Rightarrow> ''Invalid argument''
          | BIO_ERROR_NOT_SUPPORTED \<Rightarrow> ''Operation is not supported'')"
  by (cases code) (simp_all add: bio_strerror_def bio_set_core_error_def bio_core_strerror_def core_error_value_def)

lemma result_to_size_neg [simp]: "result < 0 \<Longrightarrow> bio_result_to_size loc result error = (0, bio_set_errno loc error (- result))"
  by (simp add: bio_result_to_size_def)

lemma result_to_size_nonneg [simp]: "0 \<le> result \<Longrightarrow> bio_result_to_size loc result error = (nat result, error)"
  by (simp add: bio_result_to_size_def)

end
