(* ===== verification/Uring.thy ===== *)
theory Uring
  imports Exit Errors Pow2 Running
begin

text \<open>
  The Linux platform layer (\<open>src/src/linux/platform.c\<close>): requests to the kernel go
  through an \<open>io_uring\<close>, their completions raise the signals of the coroutines that
  wait for them. liburing and the kernel are the parameter \<open>'w uring\<close>: what they do
  is a change of the \<open>world\<close>.
\<close>

section \<open>Model\<close>

text \<open>
  Socket addresses of the C library: \<open>sockaddr_in\<close> and \<open>sockaddr_in6\<close> with the port in
  network byte order and the address, \<open>sockaddr_un\<close> with its path.
\<close>

datatype sockaddr = SOCKADDR_IN "byte list" "byte list" | SOCKADDR_IN6 "byte list" "byte list" | SOCKADDR_UN "byte list"

text \<open>The operations that are submitted to the ring, with the arguments of \<open>io_uring_prep_*\<close>.\<close>

datatype io_op =
    OP_READ int nat int
  | OP_WRITE int "byte list" int
  | OP_OPEN string "32 word" "32 word"
  | OP_FSYNC int
  | OP_CLOSE int
  | OP_STATX int
  | OP_SOCKET int "32 word"
  | OP_BIND int sockaddr nat
  | OP_LISTEN int int
  | OP_ACCEPT int
  | OP_CONNECT int sockaddr nat
  | OP_SHUTDOWN int
  | OP_SEND int "byte list"
  | OP_RECV int nat
  | OP_READ_SIGINFO int
  | OP_READ_EVENT int
  | OP_FUTEX_WAIT "32 word"

text \<open>
  The user data of a request: \<open>NULL\<close>, the address of \<open>BIO_SIGNAL_POLL_DATA\<close>, or the
  address of a \<open>bio_io_req_t\<close>.
\<close>

datatype sqe_data = NO_DATA | BIO_SIGNAL_POLL_DATA | REQUEST addr

text \<open>A completion, with what the kernel has stored into memory of the caller.\<close>

record io_uring_cqe =
  cqe_data :: sqe_data
  cqe_res :: int
  cqe_flags :: "32 word"
  cqe_bytes :: "byte list"
  cqe_stx_size :: nat

record 'w uring =
  io_uring_get_sqe :: "'w \<Rightarrow> 'w option"
  io_uring_prep :: "io_op \<Rightarrow> sqe_data \<Rightarrow> 'w \<Rightarrow> 'w"
  io_uring_submit_and_get_events :: "'w \<Rightarrow> 'w"
  io_uring_submit_and_wait :: "'w \<Rightarrow> 'w"
  io_uring_submit_and_wait_timeout :: "int \<Rightarrow> int \<Rightarrow> 'w \<Rightarrow> bool \<times> int \<times> 'w"
  cq_head :: "'w \<Rightarrow> 32 word"
  cq_entry :: "32 word \<Rightarrow> 'w \<Rightarrow> io_uring_cqe option"
  io_uring_cq_advance :: "32 word \<Rightarrow> 'w \<Rightarrow> 'w"
  block_signals :: "'w \<Rightarrow> 'w"
  block_all_signals :: "'w \<Rightarrow> 'w"
  restore_signals :: "'w \<Rightarrow> 'w"
  futex_wake :: "'w \<Rightarrow> 'w"
  write_eventfd :: "int \<Rightarrow> 'w \<Rightarrow> 'w"
  clock_gettime :: "'w \<Rightarrow> int \<times> int \<times> 'w"
  make_signalfd :: "'w \<Rightarrow> int \<times> 'w"
  make_eventfd :: "'w \<Rightarrow> int \<times> 'w"
  io_uring_queue_init :: "32 word \<Rightarrow> 'w \<Rightarrow> int \<times> 'w"
  supports_bind :: "'w \<Rightarrow> bool"
  supports_listen :: "'w \<Rightarrow> bool"
  supports_futex_wait :: "'w \<Rightarrow> bool"
  close_fd :: "int \<Rightarrow> 'w \<Rightarrow> 'w"
  io_uring_queue_exit :: "'w \<Rightarrow> 'w"
  bind_syscall :: "int \<Rightarrow> sockaddr \<Rightarrow> nat \<Rightarrow> 'w \<Rightarrow> int \<times> int \<times> 'w"
  listen_syscall :: "int \<Rightarrow> int \<Rightarrow> 'w \<Rightarrow> int \<times> int \<times> 'w"

abbreviation set_platform :: "bio_platform \<Rightarrow> 'w bio_ctx \<Rightarrow> 'w bio_ctx" where
  "set_platform p s \<equiv> s\<lparr>rest := (rest s)\<lparr>plat := p\<rparr>\<rparr>"

abbreviation set_io_reqs :: "bio_io_req store \<Rightarrow> 'w bio_ctx \<Rightarrow> 'w bio_ctx" where
  "set_io_reqs rs s \<equiv> s\<lparr>rest := (rest s)\<lparr>io_reqs := rs\<rparr>\<rparr>"

text \<open>
  The end of \<open>bio_platform_poll_signal\<close>, once it has a submission entry.
\<close>

definition poll_submit :: "'w uring \<Rightarrow> 'w bio_ctx \<Rightarrow> 'w bio_ctx" where
  "poll_submit U s =
    (let p = plat (rest s) in
     set_platform (p\<lparr>signal_polled := True\<rparr>)
       (s\<lparr>world := io_uring_prep U (OP_READ_SIGINFO (signal_fd p)) BIO_SIGNAL_POLL_DATA (world s)\<rparr>))"

text \<open>What \<open>bio_drain_io_completions\<close> does with the completion of a request.\<close>

definition complete_request :: "io_uring_cqe \<Rightarrow> addr \<Rightarrow> 'w bio_ctx \<Rightarrow> 'w bio_ctx outcome" where
  "complete_request cqe p s =
    rbind (deref (io_reqs (rest s)) p) (\<lambda>req.
    let s = set_io_reqs (put p (req\<lparr>req_res := cqe_res cqe, req_flags := cqe_flags cqe, req_buf := cqe_bytes cqe,
                                    req_stx_size := cqe_stx_size cqe\<rparr>) (io_reqs (rest s))) s in
    rbind (bio_raise_signal (req_signal req) s) (\<lambda>(_, s). Inr s))"

text \<open>
  \<open>bio_acquire_io_req\<close>, \<open>bio_platform_poll_signal\<close> and \<open>bio_drain_io_completions\<close> call each
  other. \<open>Acquire\<close> is the loop of the first, \<open>Poll\<close> the second, \<open>Drain head i\<close> the loop of the
  third when it has come to the completion number \<open>head\<close> and has seen \<open>i\<close> of them.
\<close>

datatype ring_call = Acquire | Poll | Drain "32 word" "32 word"

partial_function (option) ring_run :: "'w uring \<Rightarrow> ring_call \<Rightarrow> 'w bio_ctx \<Rightarrow> 'w bio_ctx run" where
  "ring_run U c s =
    (case c of
       Acquire \<Rightarrow>
         (case io_uring_get_sqe U (world s) of
            Some w \<Rightarrow> ret (s\<lparr>world := w\<rparr>)
          | None \<Rightarrow>
              let s = s\<lparr>world := io_uring_submit_and_get_events U (world s)\<rparr> in
              obind (ring_run U (Drain (cq_head U (world s)) 0) s) (ring_run U Acquire))
     | Poll \<Rightarrow>
         if signal_polled (plat (rest s)) then ret s
         else obind (ring_run U Acquire s) (\<lambda>s. ret (poll_submit U s))
     | Drain head i \<Rightarrow>
         (case cq_entry U head (world s) of
            None \<Rightarrow> ret (s\<lparr>world := io_uring_cq_advance U i (world s)\<rparr>)
          | Some cqe \<Rightarrow>
              (case cqe_data cqe of
                 BIO_SIGNAL_POLL_DATA \<Rightarrow>
                   let s = set_platform ((plat (rest s))\<lparr>signal_polled := False\<rparr>) s in
                   obind (ring_run U Poll s) (\<lambda>s.
                   obind (lift (bio_handle_exit_signal (restore_signals U) s)) (ring_run U (Drain (head + 1) (i + 1))))
               | REQUEST p \<Rightarrow> obind (lift (complete_request cqe p s)) (ring_run U (Drain (head + 1) (i + 1)))
               | NO_DATA \<Rightarrow> ring_run U (Drain (head + 1) (i + 1)) s)))"

definition bio_acquire_io_req :: "'w uring \<Rightarrow> 'w bio_ctx \<Rightarrow> 'w bio_ctx run" where
  "bio_acquire_io_req U = ring_run U Acquire"

definition bio_platform_poll_signal :: "'w uring \<Rightarrow> 'w bio_ctx \<Rightarrow> 'w bio_ctx run" where
  "bio_platform_poll_signal U = ring_run U Poll"

definition bio_drain_io_completions :: "'w uring \<Rightarrow> 'w bio_ctx \<Rightarrow> 'w bio_ctx run" where
  "bio_drain_io_completions U s = ring_run U (Drain (cq_head U (world s)) 0) s"

definition BIO_LINUX_DEFAULT_QUEUE_SIZE :: "32 word" where
  "BIO_LINUX_DEFAULT_QUEUE_SIZE = 64"

text \<open>
  The start of the platform layer, \<open>None\<close> when the program is aborted; the
  \<open>32 word\<close> is the size that is stored in the options. The platform struct was
  zeroed by \<open>bio_init\<close>.
\<close>

definition bio_platform_init :: "'w uring \<Rightarrow> 32 word \<Rightarrow> 'w bio_ctx \<Rightarrow> (32 word \<times> 'w bio_ctx) option" where
  "bio_platform_init U opt_queue_size s =
    (let queue_size = (if opt_queue_size = 0 then BIO_LINUX_DEFAULT_QUEUE_SIZE else opt_queue_size);
         queue_size = bio_next_pow2 queue_size;
         (sfd, w) = make_signalfd U (world s);
         p = (plat (rest s))\<lparr>signal_fd := sfd\<rparr>;
         (result, w) = io_uring_queue_init U queue_size w in
     if result < 0 then None
     else
       let p = p\<lparr>has_op_bind := supports_bind U w, has_op_listen := supports_listen U w, has_op_futex_wait := supports_futex_wait U w\<rparr>;
           (p, w) = (if has_op_futex_wait p then (p\<lparr>notification_counter := 0, ack_counter := 0\<rparr>, w)
                     else (let (efd, w) = make_eventfd U w in (p\<lparr>event_fd := efd\<rparr>, w))) in
       if event_fd p < 0 then None else Some (queue_size, set_platform p (s\<lparr>world := w\<rparr>)))"

definition bio_platform_cleanup :: "'w uring \<Rightarrow> 'w bio_ctx \<Rightarrow> 'w bio_ctx" where
  "bio_platform_cleanup U s =
    (let p = plat (rest s);
         w = (if \<not> has_op_futex_wait p then close_fd U (event_fd p) (world s) else world s) in
     s\<lparr>world := close_fd U (signal_fd p) (io_uring_queue_exit U w)\<rparr>)"

definition bio_platform_update_wait :: "'w uring \<Rightarrow> int \<Rightarrow> 'w bio_ctx \<Rightarrow> 'w bio_ctx run" where
  "bio_platform_update_wait U wait_timeout_ms s =
    (if wait_timeout_ms > 0 then
       let (got_event, num_submitted, w) =
             io_uring_submit_and_wait_timeout U (wait_timeout_ms div 1000) ((wait_timeout_ms mod 1000) * 1000000) (world s) in
       obind (if got_event then bio_drain_io_completions U (s\<lparr>world := w\<rparr>) else ret (s\<lparr>world := w\<rparr>)) (\<lambda>s.
       if num_submitted \<le> 0
       then bio_drain_io_completions U (s\<lparr>world := io_uring_submit_and_get_events U (world s)\<rparr>)
       else ret s)
     else bio_drain_io_completions U (s\<lparr>world := io_uring_submit_and_wait U (world s)\<rparr>))"

definition bio_platform_update_no_wait :: "'w uring \<Rightarrow> 'w bio_ctx \<Rightarrow> 'w bio_ctx run" where
  "bio_platform_update_no_wait U s =
    bio_drain_io_completions U (s\<lparr>world := io_uring_submit_and_get_events U (world s)\<rparr>)"

text \<open>
  A worker thread may notify while the main thread waits: \<open>interfere\<close> gives the
  value of \<open>notification_counter\<close> when it is loaded after the wait.
\<close>

definition bio_platform_update ::
    "'w uring \<Rightarrow> ('w bio_ctx \<Rightarrow> 32 word) \<Rightarrow> int \<Rightarrow> bool \<Rightarrow> 'w bio_ctx \<Rightarrow> 'w bio_ctx run" where
  "bio_platform_update U interfere wait_timeout_ms notifiable s =
    (if wait_timeout_ms = 0 then bio_platform_update_no_wait U s
     else if has_op_futex_wait (plat (rest s)) then
       let counter = notification_counter (plat (rest s)) in
       if ack_counter (plat (rest s)) \<noteq> counter then
         obind (bio_platform_update_no_wait U s) (\<lambda>s. ret (set_platform ((plat (rest s))\<lparr>ack_counter := counter\<rparr>) s))
       else
         obind (if notifiable then
                  obind (bio_acquire_io_req U s) (\<lambda>s.
                  ret (s\<lparr>world := io_uring_prep U (OP_FUTEX_WAIT (ack_counter (plat (rest s)))) NO_DATA (world s)\<rparr>))
                else ret s) (\<lambda>s.
         obind (bio_platform_update_wait U wait_timeout_ms s) (\<lambda>s.
         let counter = interfere s in
         ret (set_platform ((plat (rest s))\<lparr>notification_counter := counter, ack_counter := counter\<rparr>) s)))
     else
       obind (if notifiable then
                obind (bio_acquire_io_req U s) (\<lambda>s.
                ret (s\<lparr>world := io_uring_prep U (OP_READ_EVENT (event_fd (plat (rest s)))) NO_DATA (world s)\<rparr>))
              else ret s) (bio_platform_update_wait U wait_timeout_ms))"

definition bio_platform_notify :: "'w uring \<Rightarrow> 'w bio_ctx \<Rightarrow> 'w bio_ctx" where
  "bio_platform_notify U s =
    (let p = plat (rest s) in
     if has_op_futex_wait p
     then set_platform (p\<lparr>notification_counter := notification_counter p + 1\<rparr>) (s\<lparr>world := futex_wake U (world s)\<rparr>)
     else s\<lparr>world := write_eventfd U (event_fd p) (world s)\<rparr>)"

definition bio_platform_current_time_ms :: "'w uring \<Rightarrow> 'w \<Rightarrow> int outcome \<times> 'w" where
  "bio_platform_current_time_ms U w =
    (let (tv_sec, tv_nsec, w) = clock_gettime U w in
     (rbind (check64 (tv_sec * 1000)) (\<lambda>ms. check64 (ms + tv_nsec div 1000000)), w))"

definition bio_platform_begin_create_thread_pool :: "'w uring \<Rightarrow> 'w bio_ctx \<Rightarrow> 'w bio_ctx" where
  "bio_platform_begin_create_thread_pool U s = s\<lparr>world := block_all_signals U (world s)\<rparr>"

definition bio_platform_end_create_thread_pool :: "'w uring \<Rightarrow> 'w bio_ctx \<Rightarrow> 'w bio_ctx" where
  "bio_platform_end_create_thread_pool U s = s\<lparr>world := restore_signals U (world s)\<rparr>"

text \<open>
  The first part of \<open>bio_submit_io_req\<close> fills the submission entry that the caller
  has acquired; the request lives on the caller's stack.
\<close>

definition submit_prepare :: "'w uring \<Rightarrow> addr \<Rightarrow> io_op \<Rightarrow> 'w bio_ctx \<Rightarrow> (bio_handle \<times> addr \<times> 'w bio_ctx) outcome" where
  "submit_prepare U self op s =
    rbind (bio_make_signal self s) (\<lambda>(h, s).
    let p = bio_malloc s;
        req = \<lparr>req_signal = h, req_res = 0, req_flags = 0, req_buf = [], req_stx_size = 0\<rparr> in
    Inr (h, p, set_io_reqs (put p req (io_reqs (rest s))) (s\<lparr>world := io_uring_prep U op (REQUEST p) (world s)\<rparr>)))"

definition bio_submit_io_req ::
    "'w uring \<Rightarrow> (addr \<Rightarrow> 'w bio_ctx \<Rightarrow> 'w bio_ctx outcome) \<Rightarrow> addr \<Rightarrow> io_op \<Rightarrow> 'w bio_ctx \<Rightarrow> (bio_io_req \<times> 'w bio_ctx) outcome" where
  "bio_submit_io_req U mco_yield self op s =
    rbind (submit_prepare U self op s) (\<lambda>(h, p, s).
    rbind (bio_wait_for_one_signal mco_yield self h s) (\<lambda>s.
    rbind (deref (io_reqs (rest s)) p) (\<lambda>req. Inr (req, set_io_reqs (del p (io_reqs (rest s))) s))))"

text \<open>Acquiring an entry and submitting an operation, the way every caller does it.\<close>

definition do_io ::
    "'w uring \<Rightarrow> (addr \<Rightarrow> 'w bio_ctx \<Rightarrow> 'w bio_ctx outcome) \<Rightarrow> addr \<Rightarrow> ('w bio_ctx \<Rightarrow> io_op outcome) \<Rightarrow> 'w bio_ctx \<Rightarrow> (bio_io_req \<times> 'w bio_ctx) run" where
  "do_io U mco_yield self op s =
    obind (bio_acquire_io_req U s) (\<lambda>s. lift (rbind (op s) (\<lambda>op. bio_submit_io_req U mco_yield self op s)))"

definition bio_io_close ::
    "'w uring \<Rightarrow> (addr \<Rightarrow> 'w bio_ctx \<Rightarrow> 'w bio_ctx outcome) \<Rightarrow> addr \<Rightarrow> int \<Rightarrow> 'w bio_ctx \<Rightarrow> (int \<times> 'w bio_ctx) run" where
  "bio_io_close U mco_yield self fd s =
    obind (do_io U mco_yield self (\<lambda>_. Inr (OP_CLOSE fd)) s) (\<lambda>(req, s). ret (req_res req, s))"

definition bio_platform_block_exit_signal :: "'w uring \<Rightarrow> 'w bio_ctx \<Rightarrow> 'w bio_ctx run" where
  "bio_platform_block_exit_signal U s = bio_platform_poll_signal U (s\<lparr>world := block_signals U (world s)\<rparr>)"

definition bio_platform_unblock_exit_signal :: "'w uring \<Rightarrow> 'w \<Rightarrow> 'w" where
  "bio_platform_unblock_exit_signal U w = restore_signals U w"

lemma ring_run_simps:
  "ring_run U Acquire s =
    (case io_uring_get_sqe U (world s) of
       Some w \<Rightarrow> ret (s\<lparr>world := w\<rparr>)
     | None \<Rightarrow> (let s = s\<lparr>world := io_uring_submit_and_get_events U (world s)\<rparr> in
         obind (ring_run U (Drain (cq_head U (world s)) 0) s) (ring_run U Acquire)))"
  "ring_run U Poll s =
    (if signal_polled (plat (rest s)) then ret s else obind (ring_run U Acquire s) (\<lambda>s. ret (poll_submit U s)))"
  "ring_run U (Drain head i) s =
    (case cq_entry U head (world s) of
       None \<Rightarrow> ret (s\<lparr>world := io_uring_cq_advance U i (world s)\<rparr>)
     | Some cqe \<Rightarrow>
         (case cqe_data cqe of
            BIO_SIGNAL_POLL_DATA \<Rightarrow>
              let s = set_platform ((plat (rest s))\<lparr>signal_polled := False\<rparr>) s in
              obind (ring_run U Poll s) (\<lambda>s.
              obind (lift (bio_handle_exit_signal (restore_signals U) s)) (ring_run U (Drain (head + 1) (i + 1))))
          | REQUEST p \<Rightarrow> obind (lift (complete_request cqe p s)) (ring_run U (Drain (head + 1) (i + 1)))
          | NO_DATA \<Rightarrow> ring_run U (Drain (head + 1) (i + 1)) s))"
  by (subst ring_run.simps, simp)+

section \<open>What the code relies on\<close>

text \<open>
  The documented behaviour of liburing: \<open>cqs w\<close> are the completions that were not
  consumed yet, oldest first, and \<open>room w\<close> is the number of free submission entries.
  Filling an entry and changing the signal mask touch neither; completions appear
  only when the code asks the kernel for them.
\<close>

definition same_queues :: "'w uring \<Rightarrow> ('w \<Rightarrow> io_uring_cqe list) \<Rightarrow> ('w \<Rightarrow> nat) \<Rightarrow> 'w \<Rightarrow> 'w \<Rightarrow> bool" where
  "same_queues U cqs room w w' \<longleftrightarrow> cqs w' = cqs w \<and> room w' = room w \<and> cq_head U w' = cq_head U w"

definition uring_ok :: "'w uring \<Rightarrow> ('w \<Rightarrow> io_uring_cqe list) \<Rightarrow> ('w \<Rightarrow> nat) \<Rightarrow> bool" where
  "uring_ok U cqs room \<longleftrightarrow>
     (\<forall>w i. i < length (cqs w) \<longrightarrow> cq_entry U (cq_head U w + of_nat i) w = Some (cqs w ! i))
   \<and> (\<forall>w. cq_entry U (cq_head U w + of_nat (length (cqs w))) w = None)
   \<and> (\<forall>w. 0 < room w \<longrightarrow> (\<exists>w'. io_uring_get_sqe U w = Some w' \<and> room w' = room w - 1 \<and> cqs w' = cqs w \<and> cq_head U w' = cq_head U w))
   \<and> (\<forall>op d w. same_queues U cqs room w (io_uring_prep U op d w))
   \<and> (\<forall>w. same_queues U cqs room w (restore_signals U w))
   \<and> (\<forall>w n. n \<le> length (cqs w) \<longrightarrow> cqs (io_uring_cq_advance U (of_nat n) w) = drop n (cqs w))"

lemma uring_okD:
  assumes "uring_ok U cqs room"
  shows "i < length (cqs w) \<Longrightarrow> cq_entry U (cq_head U w + of_nat i) w = Some (cqs w ! i)"
    "cq_entry U (cq_head U w + of_nat (length (cqs w))) w = None"
    "0 < room w \<Longrightarrow> \<exists>w'. io_uring_get_sqe U w = Some w' \<and> room w' = room w - 1 \<and> cqs w' = cqs w \<and> cq_head U w' = cq_head U w"
    "same_queues U cqs room w (io_uring_prep U op d w)" "same_queues U cqs room w (restore_signals U w)"
    "n \<le> length (cqs w) \<Longrightarrow> cqs (io_uring_cq_advance U (of_nat n) w) = drop n (cqs w)"
  using assms unfolding uring_ok_def by blast+

section \<open>Completions\<close>

text \<open>The invariant of the platform layer: a request remembers a signal that was issued.\<close>

definition io_inv :: "addr list \<Rightarrow> addr option \<Rightarrow> 'w bio_ctx \<Rightarrow> bool" where
  "io_inv cur run s \<longleftrightarrow> loop_inv cur run s \<and> exit_ok s
   \<and> (\<forall>p r. map_of (io_reqs (rest s)) p = Some r \<longrightarrow> issued (handles s) (req_signal r))"

text \<open>The request at \<open>p\<close> has the answer of the kernel, and its coroutine is woken.\<close>

definition answered :: "io_uring_cqe \<Rightarrow> addr \<Rightarrow> 'w bio_ctx \<Rightarrow> bool" where
  "answered c p s \<longleftrightarrow> (\<exists>r. map_of (io_reqs (rest s)) p = Some r \<and> req_res r = cqe_res c \<and> req_flags r = cqe_flags c
     \<and> req_buf r = cqe_bytes c \<and> req_stx_size r = cqe_stx_size c \<and> bio_check_signal (req_signal r) s)"

definition io_step :: "addr list \<Rightarrow> addr option \<Rightarrow> addr set \<Rightarrow> 'w bio_ctx \<Rightarrow> 'w bio_ctx \<Rightarrow> bool" where
  "io_step cur run P s s' \<longleftrightarrow> io_inv cur run s' \<and> raised_kept s s'
   \<and> current_ready_coros s' = current_ready_coros s \<and> is_terminating s' = is_terminating s
   \<and> dom (map_of (io_reqs (rest s'))) = dom (map_of (io_reqs (rest s)))
   \<and> (\<forall>q. q \<notin> P \<longrightarrow> map_of (io_reqs (rest s')) q = map_of (io_reqs (rest s)) q)"

lemma io_step_trans: "io_step cur run P a b \<Longrightarrow> io_step cur run Q b c \<Longrightarrow> io_step cur run (P \<union> Q) a c"
  by (auto simp: io_step_def intro: raised_kept_trans)

lemma io_step_refl: "io_inv cur run s \<Longrightarrow> io_step cur run {} s s"
  by (simp add: io_step_def)

lemma answered_kept:
  assumes "answered c p s" "io_step cur run P s s'" "p \<notin> P" "io_inv cur' run' s"
  shows "answered c p s'"
  using assms by (auto simp: answered_def io_step_def raised_kept_def io_inv_def)

lemma exit_ok_other:
  assumes "exit_ok s" "exit_handlers (rest s') = exit_handlers (rest s)" "exit_infos (rest s') = exit_infos (rest s)" "raised_kept s s'"
  shows "exit_ok s'"
  using assms by (auto simp: exit_ok_def raised_kept_def)

lemma complete_request_safe:
  assumes inv: "io_inv cur run s" and r: "map_of (io_reqs (rest s)) p = Some r"
  shows "safe (complete_request c p s) (\<lambda>s'. io_step cur run {p} s s' \<and> answered c p s' \<and> world s' = world s)"
proof -
  let ?r = "r\<lparr>req_res := cqe_res c, req_flags := cqe_flags c, req_buf := cqe_bytes c, req_stx_size := cqe_stx_size c\<rparr>"
  let ?s = "set_io_reqs (put p ?r (io_reqs (rest s))) s"
  have L: "loop_inv cur run s" and ok: "exit_ok s" and iss: "\<And>q x. map_of (io_reqs (rest s)) q = Some x \<Longrightarrow> issued (handles s) (req_signal x)"
    using inv by (simp_all add: io_inv_def)
  have I: "sched_inv cur run ?s" "timer_inv ?s" using L by (simp_all add: loop_inv_def timer_inv_def timers_of_def)
  have h: "issued (handles ?s) (req_signal r)" using iss [OF r] by simp
  have post: "io_step cur run {p} s s' \<and> answered c p s' \<and> world s' = world s"
    if "sched_inv cur run s'" and fr: "sched_frame ?s s'" and ck: "bio_check_signal (req_signal r) s'"
      and k: "\<forall>k. issued (handles ?s) k \<longrightarrow> bio_check_signal k ?s \<longrightarrow> bio_check_signal k s'" for s'
  proof -
    have e: "rest s' = rest ?s" "current_ready_coros s' = current_ready_coros s" "is_terminating s' = is_terminating s" "world s' = world s"
      using fr by (simp_all add: sched_frame_def)
    have rk: "raised_kept s s'" using k sched_frame_issued [OF fr] by (auto simp: raised_kept_def bio_check_signal_def)
    have "exit_ok s'" by (rule exit_ok_other [OF ok _ _ rk]) (simp_all add: e)
    moreover have "loop_inv cur run s'" using that(1) timer_inv_frame [OF I(2) fr] by (simp add: loop_inv_def)
    moreover have "issued (handles s') (req_signal x)" if "map_of (io_reqs (rest s')) q = Some x" for q x
      using that rk iss r by (auto simp: e raised_kept_def split: if_splits)
    ultimately show ?thesis using rk r ck by (auto simp: io_step_def io_inv_def answered_def e)
  qed
  show ?thesis
    unfolding complete_request_def deref_Some [OF r] rbind_simps Let_def
    by (rule safe_bind [OF safe_conj [OF raise_signal_safe [OF I(1) emptied_simps(1) h] raise_keeps_raised [OF I(1) emptied_simps(1) h]]])
      (use post in auto)
qed

lemma io_inv_other:
  fixes s s' :: "'w bio_ctx"
  assumes "io_inv cur run s" "handles s' = handles s" "exit_handlers (rest s') = exit_handlers (rest s)"
    "exit_infos (rest s') = exit_infos (rest s)" "io_reqs (rest s') = io_reqs (rest s)" "loop_inv cur run s'"
  shows "io_inv cur run s'"
  using assms exit_ok_other [OF _ assms(3,4) raised_kept_eq [OF assms(2)]] by (simp add: io_inv_def)

text \<open>A completed read of the signal descriptor: it is polled again and the exit handlers are told.\<close>

lemma poll_again:
  assumes ok: "uring_ok U cqs room" and inv: "io_inv cur run s" and room: "0 < room (world s)"
  defines "s1 \<equiv> set_platform ((plat (rest s))\<lparr>signal_polled := False\<rparr>) s"
  shows "\<exists>s2. ring_run U Poll s1 = ret s2 \<and> io_step cur run {} s s2 \<and> cqs (world s2) = cqs (world s)
    \<and> cq_head U (world s2) = cq_head U (world s) \<and> room (world s2) = room (world s) - 1"
proof -
  obtain w' where w': "io_uring_get_sqe U (world s) = Some w'" "room w' = room (world s) - 1" "cqs w' = cqs (world s)" "cq_head U w' = cq_head U (world s)"
    using uring_okD(3) [OF ok room] by blast
  have P: "ring_run U Poll s1 = ret (poll_submit U (s1\<lparr>world := w'\<rparr>))"
    by (simp add: ring_run_simps(1,2) s1_def w'(1))
  have L: "loop_inv cur run s" using inv by (simp add: io_inv_def)
  have "io_inv cur run (poll_submit U (s1\<lparr>world := w'\<rparr>))"
    by (rule io_inv_other [OF inv]) (use L in \<open>simp_all add: poll_submit_def s1_def Let_def\<close>)
  then have "io_step cur run {} s (poll_submit U (s1\<lparr>world := w'\<rparr>))"
    by (simp add: io_step_def poll_submit_def s1_def Let_def raised_kept_eq)
  then show ?thesis
    using P w' uring_okD(4) [OF ok, of w'] by (auto simp: poll_submit_def s1_def Let_def same_queues_def)
qed

lemma exit_signal_step:
  assumes ok: "uring_ok U cqs room" and inv: "io_inv cur run s"
  shows "safe (bio_handle_exit_signal (restore_signals U) s) (\<lambda>s'. io_step cur run {} s s' \<and> same_queues U cqs room (world s) (world s'))"
proof -
  have I: "loop_inv cur run s" "exit_ok s" using inv by (simp_all add: io_inv_def)
  show ?thesis
    unfolding bio_handle_exit_signal_def
  proof (rule safe_mono [OF dispatch_safe [OF I]], goal_cases)
    case (1 s')
    then have s': "loop_inv cur run s'" "exit_ok s'" "is_terminating s' = is_terminating s" "current_ready_coros s' = current_ready_coros s"
      and fr: "exit_frame s s'" and w: "\<exists>b. world s' = (if b then restore_signals U (world s) else world s)" by auto
    have "io_inv cur run s'" using s'(1,2) inv fr exit_frameD [OF fr] by (auto simp: io_inv_def exit_frame_def raised_kept_def)
    then have "io_step cur run {} s s'" using s' fr exit_frameD [OF fr] by (simp add: io_step_def exit_frame_def)
    moreover have "same_queues U cqs room (world s) (world s')" using w uring_okD(5) [OF ok, of "world s"] by (auto simp: same_queues_def)
    ultimately show ?case by blast
  qed
qed

definition requests :: "io_uring_cqe list \<Rightarrow> addr list" where
  "requests cs = concat (map (\<lambda>c. case cqe_data c of REQUEST p \<Rightarrow> [p] | _ \<Rightarrow> []) cs)"

definition polls :: "io_uring_cqe list \<Rightarrow> nat" where
  "polls cs = length (filter (\<lambda>c. cqe_data c = BIO_SIGNAL_POLL_DATA) cs)"

lemma requests_simps [simp]:
  "requests [] = []" "requests (c # cs) = (case cqe_data c of REQUEST p \<Rightarrow> p # requests cs | _ \<Rightarrow> requests cs)"
  "polls [] = 0" "polls (c # cs) = (if cqe_data c = BIO_SIGNAL_POLL_DATA then Suc (polls cs) else polls cs)"
  by (simp_all add: requests_def polls_def split: sqe_data.split)

lemma answered_request: "c \<in> set cs \<Longrightarrow> cqe_data c = REQUEST p \<Longrightarrow> p \<in> set (requests cs)"
  by (force simp: requests_def)

text \<open>
  Draining handles every completion once and consumes exactly the ones it has
  handled, and it ends; provided the ring has a free entry for each completed read
  of the signal descriptor.
\<close>

lemma drain_runs:
  assumes ok: "uring_ok U cqs room"
  shows "io_inv cur run s \<Longrightarrow> i \<le> length (cqs (world s)) \<Longrightarrow> cs = drop i (cqs (world s)) \<Longrightarrow>
    set (requests cs) \<subseteq> dom (map_of (io_reqs (rest s))) \<Longrightarrow> distinct (requests cs) \<Longrightarrow> polls cs \<le> room (world s) \<Longrightarrow>
    \<exists>r. ring_run U (Drain (cq_head U (world s) + of_nat i) (of_nat i)) s = Some r
      \<and> safe r (\<lambda>s'. io_step cur run (set (requests cs)) s s' \<and> cqs (world s') = []
          \<and> (\<forall>c \<in> set cs. \<forall>p. cqe_data c = REQUEST p \<longrightarrow> answered c p s'))"
proof (induction cs arbitrary: i s)
  case Nil
  then have i: "i = length (cqs (world s))" by simp
  have "ring_run U (Drain (cq_head U (world s) + of_nat i) (of_nat i)) s = ret (s\<lparr>world := io_uring_cq_advance U (of_nat i) (world s)\<rparr>)"
    by (subst ring_run_simps(3)) (simp add: i uring_okD(2) [OF ok])
  moreover have "io_step cur run {} s (s\<lparr>world := w\<rparr>)" for w
    using io_inv_other [OF Nil.prems(1), of "s\<lparr>world := w\<rparr>"] Nil.prems(1) by (simp add: io_step_def raised_kept_eq io_inv_def)
  ultimately show ?case using uring_okD(6) [OF ok, of i "world s"] i by (simp add: ret_def)
next
  case (Cons c cs)
  let ?h = "cq_head U (world s)"
  have i: "i < length (cqs (world s))" using Cons.prems(3) by (metis drop_all linorder_not_le list.distinct(1))
  have c: "c = cqs (world s) ! i" "cs = drop (Suc i) (cqs (world s))" using Cons.prems(3) i by (simp_all add: Cons_nth_drop_Suc [symmetric])
  have entry: "cq_entry U (?h + of_nat i) (world s) = Some c" using uring_okD(1) [OF ok i] c(1) by simp
  have next_: "?h + of_nat i + 1 = ?h + of_nat (Suc i)" "of_nat i + 1 = (of_nat (Suc i) :: 32 word)" by simp_all
  have rest: "\<exists>r. ring_run U (Drain (?h + of_nat (Suc i)) (of_nat (Suc i))) s1 = Some r
      \<and> safe r (\<lambda>s'. io_step cur run (set (requests (c # cs))) s s' \<and> cqs (world s') = []
          \<and> (\<forall>d \<in> set (c # cs). \<forall>p. cqe_data d = REQUEST p \<longrightarrow> answered d p s'))"
    if s1: "io_step cur run P s s1" "cqs (world s1) = cqs (world s)" "cq_head U (world s1) = ?h" "polls cs \<le> room (world s1)"
      and P: "P = {p. cqe_data c = REQUEST p}" "\<And>p. cqe_data c = REQUEST p \<Longrightarrow> answered c p s1" for s1 P
  proof -
    have inv1: "io_inv cur run s1" using s1(1) by (simp add: io_step_def)
    have sub: "set (requests cs) \<subseteq> dom (map_of (io_reqs (rest s1)))" "distinct (requests cs)"
      and disj: "P \<inter> set (requests cs) = {}" and un: "set (requests (c # cs)) = P \<union> set (requests cs)"
      using Cons.prems(4,5) s1(1) P(1) by (auto simp: io_step_def split: sqe_data.splits)
    have "\<exists>r. ring_run U (Drain (cq_head U (world s1) + of_nat (Suc i)) (of_nat (Suc i))) s1 = Some r
      \<and> safe r (\<lambda>s'. io_step cur run (set (requests cs)) s1 s' \<and> cqs (world s') = []
          \<and> (\<forall>c \<in> set cs. \<forall>p. cqe_data c = REQUEST p \<longrightarrow> answered c p s'))"
      by (rule Cons.IH [OF inv1 _ _ sub s1(4)]) (use c(2) i s1(2) in simp_all)
    then obtain r where r: "ring_run U (Drain (?h + of_nat (Suc i)) (of_nat (Suc i))) s1 = Some r"
      "safe r (\<lambda>s'. io_step cur run (set (requests cs)) s1 s' \<and> cqs (world s') = []
          \<and> (\<forall>c \<in> set cs. \<forall>p. cqe_data c = REQUEST p \<longrightarrow> answered c p s'))"
      unfolding s1(3) by blast
    have "safe r (\<lambda>s'. io_step cur run (set (requests (c # cs))) s s' \<and> cqs (world s') = []
          \<and> (\<forall>d \<in> set (c # cs). \<forall>p. cqe_data d = REQUEST p \<longrightarrow> answered d p s'))"
    proof (rule safe_mono [OF r(2)], goal_cases)
      case (1 s')
      then have s': "io_step cur run (set (requests cs)) s1 s'" by blast
      have "answered c p s'" if "cqe_data c = REQUEST p" for p
        using answered_kept [OF P(2) [OF that] s' _ inv1] disj P(1) that by blast
      then show ?case using 1 io_step_trans [OF s1(1) s'] unfolding un by auto
    qed
    with r(1) show ?thesis by blast
  qed
  show ?case
  proof (cases "cqe_data c")
    case NO_DATA
    have "ring_run U (Drain (?h + of_nat i) (of_nat i)) s = ring_run U (Drain (?h + of_nat (Suc i)) (of_nat (Suc i))) s"
      by (subst ring_run_simps(3)) (simp only: entry option.case NO_DATA sqe_data.case next_)
    then show ?thesis using rest [OF io_step_refl [OF Cons.prems(1)]] Cons.prems(6) NO_DATA by simp
  next
    case (REQUEST p)
    then obtain r where r: "map_of (io_reqs (rest s)) p = Some r" using Cons.prems(4) by auto
    have e: "ring_run U (Drain (?h + of_nat i) (of_nat i)) s
        = obind (lift (complete_request c p s)) (ring_run U (Drain (?h + of_nat (Suc i)) (of_nat (Suc i))))"
      by (subst ring_run_simps(3)) (simp only: entry option.case REQUEST sqe_data.case next_)
    show ?thesis
    proof (cases "complete_request c p s")
      case (Inl x)
      then show ?thesis using complete_request_safe [OF Cons.prems(1) r, of c] by (simp add: e)
    next
      case (Inr s1)
      then have s1: "io_step cur run {p} s s1" "answered c p s1" "world s1 = world s"
        using complete_request_safe [OF Cons.prems(1) r, of c] by simp_all
      show ?thesis
        unfolding e Inr obind_simps by (rule rest [OF s1(1)]) (use s1(2,3) Cons.prems(6) REQUEST in auto)
    qed
  next
    case BIO_SIGNAL_POLL_DATA
    then have room: "0 < room (world s)" "polls cs \<le> room (world s) - 1" using Cons.prems(6) by simp_all
    from poll_again [OF ok Cons.prems(1) room(1)] obtain s2 where
      s2: "ring_run U Poll (set_platform ((plat (rest s))\<lparr>signal_polled := False\<rparr>) s) = ret s2" "io_step cur run {} s s2"
        "cqs (world s2) = cqs (world s)" "cq_head U (world s2) = ?h" "room (world s2) = room (world s) - 1" by blast
    have e: "ring_run U (Drain (?h + of_nat i) (of_nat i)) s
        = obind (lift (bio_handle_exit_signal (restore_signals U) s2)) (ring_run U (Drain (?h + of_nat (Suc i)) (of_nat (Suc i))))"
      by (subst ring_run_simps(3)) (simp only: entry option.case BIO_SIGNAL_POLL_DATA sqe_data.case next_ Let_def s2(1) obind_simps)
    have X: "safe (bio_handle_exit_signal (restore_signals U) s2) (\<lambda>s'. io_step cur run {} s2 s' \<and> same_queues U cqs room (world s2) (world s'))"
      by (rule exit_signal_step [OF ok]) (use s2(2) in \<open>simp add: io_step_def\<close>)
    show ?thesis
    proof (cases "bio_handle_exit_signal (restore_signals U) s2")
      case (Inl x)
      then show ?thesis using X by (simp add: e)
    next
      case (Inr s3)
      then have s3: "io_step cur run {} s2 s3" "same_queues U cqs room (world s2) (world s3)" using X by simp_all
      have t: "io_step cur run {} s s3" using io_step_trans [OF s2(2) s3(1)] by simp
      show ?thesis
        unfolding e Inr obind_simps
        by (rule rest [OF t]) (use s3(2) s2(3-5) room(2) BIO_SIGNAL_POLL_DATA in \<open>auto simp: same_queues_def\<close>)
    qed
  qed
qed

end
