(* ===== verification/Spscq.thy ===== *)
theory Spscq
  imports Prelude
begin

text \<open>
  The queue between the main thread and a worker thread (\<open>bio_spscq_t\<close> of
  \<open>src/src/thread.c\<close>): one producer, one consumer, both running at the same
  time. Every access to a shared variable, every lock and every operation on a
  condition variable is a step of its own; the two threads' steps interleave in
  any order. The atomics are used with their default, sequentially consistent
  order.
\<close>

section \<open>Model\<close>

datatype party = Producer | Consumer

text \<open>A mutex with its owner, and the party that sleeps in \<open>cnd_wait\<close>, if any.\<close>

record bio_thread_signal =
  mtx :: "party option"
  sleeping :: bool

definition bio_thread_signal_init :: bio_thread_signal where
  "bio_thread_signal_init = \<lparr>mtx = None, sleeping = False\<rparr>"

record 'a bio_spscq =
  can_produce :: bio_thread_signal
  can_consume :: bio_thread_signal
  q_count :: int
  q_head :: "32 word"
  q_tail :: "32 word"
  q_values :: "'a option list"
  q_size :: nat

definition bio_spscq_init :: "nat \<Rightarrow> 'a bio_spscq" where
  "bio_spscq_init n =
    \<lparr>can_produce = bio_thread_signal_init, can_consume = bio_thread_signal_init,
     q_count = 0, q_head = 0, q_tail = 0, q_values = replicate n None, q_size = n\<rparr>"

text \<open>
  Where a thread is in \<open>bio_spscq_produce\<close> or \<open>bio_spscq_consume\<close>, with the values
  of its local variables. \<open>Test\<close>, \<open>Sleep\<close> and \<open>Unlock\<close> hold the mutex; \<open>Asleep\<close> is
  inside \<open>cnd_wait\<close>; \<open>Raise\<close>, \<open>Signal\<close> and \<open>Release\<close> are the steps of
  \<open>bio_thread_signal_raise\<close>.
\<close>

datatype 'a producer_pc =
    P_Idle
  | P_Load 'a bool | P_Lock 'a | P_Test 'a | P_Sleep 'a | P_Asleep 'a | P_Unlock 'a
  | P_Fetch 'a | P_Store 'a "32 word" | P_Count 'a
  | P_Raise | P_Signal | P_Release

datatype 'a consumer_pc =
    C_Idle
  | C_Load bool | C_Lock | C_Test | C_Sleep | C_Asleep | C_Unlock
  | C_Fetch | C_Read "32 word" | C_Count 'a
  | C_Raise | C_Signal | C_Release

text \<open>The queue, both threads, and the history of the items that went in and came out.\<close>

record 'a spsc =
  queue :: "'a bio_spscq"
  producer :: "'a producer_pc"
  consumer :: "'a consumer_pc"
  produced :: "'a list"
  consumed :: "'a list"

definition slot_index :: "32 word \<Rightarrow> 'a bio_spscq \<Rightarrow> nat" where
  "slot_index i q = unat (and i (word_of_nat (q_size q) - 1))"

text \<open>One step of \<open>bio_spscq_produce\<close>; \<open>None\<close> while the thread is blocked.\<close>

definition produce_step :: "'a spsc \<Rightarrow> 'a spsc outcome option" where
  "produce_step s =
    (let q = queue s in
     case producer s of
       P_Idle \<Rightarrow> None
     | P_Load item wait \<Rightarrow>
         Some (Inr (s\<lparr>producer := (if q_count q = int (q_size q) then (if \<not> wait then P_Idle else P_Lock item) else P_Fetch item)\<rparr>))
     | P_Lock item \<Rightarrow>
         (if mtx (can_produce q) = None
          then Some (Inr (s\<lparr>queue := q\<lparr>can_produce := (can_produce q)\<lparr>mtx := Some Producer\<rparr>\<rparr>, producer := P_Test item\<rparr>))
          else None)
     | P_Test item \<Rightarrow>
         Some (Inr (s\<lparr>producer := (if q_count q = int (q_size q) then P_Sleep item else P_Unlock item)\<rparr>))
     | P_Sleep item \<Rightarrow>
         Some (Inr (s\<lparr>queue := q\<lparr>can_produce := \<lparr>mtx = None, sleeping = True\<rparr>\<rparr>, producer := P_Asleep item\<rparr>))
     | P_Asleep item \<Rightarrow>
         (if \<not> sleeping (can_produce q) \<and> mtx (can_produce q) = None
          then Some (Inr (s\<lparr>queue := q\<lparr>can_produce := (can_produce q)\<lparr>mtx := Some Producer\<rparr>\<rparr>, producer := P_Test item\<rparr>))
          else None)
     | P_Unlock item \<Rightarrow>
         Some (Inr (s\<lparr>queue := q\<lparr>can_produce := (can_produce q)\<lparr>mtx := None\<rparr>\<rparr>, producer := P_Fetch item\<rparr>))
     | P_Fetch item \<Rightarrow>
         Some (Inr (s\<lparr>queue := q\<lparr>q_tail := q_tail q + 1\<rparr>, producer := P_Store item (q_tail q)\<rparr>))
     | P_Store item i \<Rightarrow>
         Some (rbind (aset (q_values q) (slot_index i q) (Some item)) (\<lambda>vs.
           Inr (s\<lparr>queue := q\<lparr>q_values := vs\<rparr>, producer := P_Count item\<rparr>)))
     | P_Count item \<Rightarrow>
         Some (Inr (s\<lparr>queue := q\<lparr>q_count := q_count q + 1\<rparr>, producer := (if q_count q = 0 then P_Raise else P_Idle),
                      produced := produced s @ [item]\<rparr>))
     | P_Raise \<Rightarrow>
         (if mtx (can_consume q) = None
          then Some (Inr (s\<lparr>queue := q\<lparr>can_consume := (can_consume q)\<lparr>mtx := Some Producer\<rparr>\<rparr>, producer := P_Signal\<rparr>))
          else None)
     | P_Signal \<Rightarrow>
         Some (Inr (s\<lparr>queue := q\<lparr>can_consume := (can_consume q)\<lparr>sleeping := False\<rparr>\<rparr>, producer := P_Release\<rparr>))
     | P_Release \<Rightarrow>
         Some (Inr (s\<lparr>queue := q\<lparr>can_consume := (can_consume q)\<lparr>mtx := None\<rparr>\<rparr>, producer := P_Idle\<rparr>)))"

definition consume_step :: "'a spsc \<Rightarrow> 'a spsc outcome option" where
  "consume_step s =
    (let q = queue s in
     case consumer s of
       C_Idle \<Rightarrow> None
     | C_Load wait \<Rightarrow>
         Some (Inr (s\<lparr>consumer := (if q_count q = 0 then (if \<not> wait then C_Idle else C_Lock) else C_Fetch)\<rparr>))
     | C_Lock \<Rightarrow>
         (if mtx (can_consume q) = None
          then Some (Inr (s\<lparr>queue := q\<lparr>can_consume := (can_consume q)\<lparr>mtx := Some Consumer\<rparr>\<rparr>, consumer := C_Test\<rparr>))
          else None)
     | C_Test \<Rightarrow> Some (Inr (s\<lparr>consumer := (if q_count q = 0 then C_Sleep else C_Unlock)\<rparr>))
     | C_Sleep \<Rightarrow>
         Some (Inr (s\<lparr>queue := q\<lparr>can_consume := \<lparr>mtx = None, sleeping = True\<rparr>\<rparr>, consumer := C_Asleep\<rparr>))
     | C_Asleep \<Rightarrow>
         (if \<not> sleeping (can_consume q) \<and> mtx (can_consume q) = None
          then Some (Inr (s\<lparr>queue := q\<lparr>can_consume := (can_consume q)\<lparr>mtx := Some Consumer\<rparr>\<rparr>, consumer := C_Test\<rparr>))
          else None)
     | C_Unlock \<Rightarrow>
         Some (Inr (s\<lparr>queue := q\<lparr>can_consume := (can_consume q)\<lparr>mtx := None\<rparr>\<rparr>, consumer := C_Fetch\<rparr>))
     | C_Fetch \<Rightarrow>
         Some (Inr (s\<lparr>queue := q\<lparr>q_head := q_head q + 1\<rparr>, consumer := C_Read (q_head q)\<rparr>))
     | C_Read i \<Rightarrow>
         Some (rbind (aget (q_values q) (slot_index i q)) (\<lambda>v.
           case v of None \<Rightarrow> Inl DanglingPointer | Some item \<Rightarrow> Inr (s\<lparr>consumer := C_Count item\<rparr>)))
     | C_Count item \<Rightarrow>
         Some (Inr (s\<lparr>queue := q\<lparr>q_count := q_count q - 1\<rparr>, consumer := (if q_count q = int (q_size q) then C_Raise else C_Idle),
                      consumed := consumed s @ [item]\<rparr>))
     | C_Raise \<Rightarrow>
         (if mtx (can_produce q) = None
          then Some (Inr (s\<lparr>queue := q\<lparr>can_produce := (can_produce q)\<lparr>mtx := Some Consumer\<rparr>\<rparr>, consumer := C_Signal\<rparr>))
          else None)
     | C_Signal \<Rightarrow>
         Some (Inr (s\<lparr>queue := q\<lparr>can_produce := (can_produce q)\<lparr>sleeping := False\<rparr>\<rparr>, consumer := C_Release\<rparr>))
     | C_Release \<Rightarrow>
         Some (Inr (s\<lparr>queue := q\<lparr>can_produce := (can_produce q)\<lparr>mtx := None\<rparr>\<rparr>, consumer := C_Idle\<rparr>)))"

text \<open>
  All interleavings: each party steps or starts its next call, and a sleeper may
  wake up without having been signalled, as \<open>cnd_wait\<close> permits.
\<close>

inductive spsc_step :: "'a spsc \<Rightarrow> 'a spsc \<Rightarrow> bool" where
  step_produce: "produce_step s = Some (Inr s') \<Longrightarrow> spsc_step s s'"
| step_consume: "consume_step s = Some (Inr s') \<Longrightarrow> spsc_step s s'"
| call_produce: "producer s = P_Idle \<Longrightarrow> spsc_step s (s\<lparr>producer := P_Load item wait\<rparr>)"
| call_consume: "consumer s = C_Idle \<Longrightarrow> spsc_step s (s\<lparr>consumer := C_Load wait\<rparr>)"
| spurious_produce: "spsc_step s (s\<lparr>queue := (queue s)\<lparr>can_produce := (can_produce (queue s))\<lparr>sleeping := False\<rparr>\<rparr>\<rparr>)"
| spurious_consume: "spsc_step s (s\<lparr>queue := (queue s)\<lparr>can_consume := (can_consume (queue s))\<lparr>sleeping := False\<rparr>\<rparr>\<rparr>)"

definition spsc_start :: "nat \<Rightarrow> 'a spsc" where
  "spsc_start n = \<lparr>queue = bio_spscq_init n, producer = P_Idle, consumer = C_Idle, produced = [], consumed = []\<rparr>"

inductive spsc_reach :: "nat \<Rightarrow> 'a spsc \<Rightarrow> bool" for n where
  reach_start: "spsc_reach n (spsc_start n)"
| reach_step: "spsc_reach n s \<Longrightarrow> spsc_step s s' \<Longrightarrow> spsc_reach n s'"

section \<open>Invariant\<close>

text \<open>How far each thread is ahead of the published numbers, and whether it has found room or an item.\<close>

fun tail_ahead :: "'a producer_pc \<Rightarrow> nat" where
  "tail_ahead (P_Store _ _) = 1" | "tail_ahead (P_Count _) = 1" | "tail_ahead _ = 0"

fun head_ahead :: "'a consumer_pc \<Rightarrow> nat" where
  "head_ahead (C_Read _) = 1" | "head_ahead (C_Count _) = 1" | "head_ahead _ = 0"

fun p_committed :: "'a producer_pc \<Rightarrow> bool" where
  "p_committed (P_Unlock _) = True" | "p_committed (P_Fetch _) = True" | "p_committed (P_Store _ _) = True"
| "p_committed (P_Count _) = True" | "p_committed _ = False"

fun c_committed :: "'a consumer_pc \<Rightarrow> bool" where
  "c_committed C_Unlock = True" | "c_committed C_Fetch = True" | "c_committed (C_Read _) = True"
| "c_committed (C_Count _) = True" | "c_committed _ = False"

text \<open>The numbers: counters, positions and what the two threads have seen.\<close>

definition count_inv :: "'a spsc \<Rightarrow> bool" where
  "count_inv s \<longleftrightarrow>
    (let q = queue s; np = length (produced s); nc = length (consumed s) in
     nc \<le> np \<and> q_count q = int np - int nc \<and> np \<le> nc + q_size q
   \<and> (p_committed (producer s) \<longrightarrow> np < nc + q_size q) \<and> (c_committed (consumer s) \<longrightarrow> nc < np)
   \<and> q_tail q = word_of_nat (np + tail_ahead (producer s)) \<and> q_head q = word_of_nat (nc + head_ahead (consumer s))
   \<and> (\<forall>item i. producer s = P_Store item i \<longrightarrow> i = word_of_nat np)
   \<and> (\<forall>i. consumer s = C_Read i \<longrightarrow> i = word_of_nat nc))"

text \<open>The slots: every published item that is not taken yet is in its place.\<close>

definition slots_inv :: "'a spsc \<Rightarrow> bool" where
  "slots_inv s \<longleftrightarrow>
    (let q = queue s; np = length (produced s); nc = length (consumed s) in
     length (q_values q) = q_size q
   \<and> (\<forall>i. nc \<le> i \<and> i < np \<longrightarrow> q_values q ! (i mod q_size q) = Some (produced s ! i))
   \<and> (\<forall>item. producer s = P_Count item \<longrightarrow> q_values q ! (np mod q_size q) = Some item)
   \<and> (\<forall>item. consumer s = C_Count item \<longrightarrow> item = produced s ! nc)
   \<and> consumed s = take nc (produced s))"

text \<open>The locks: who holds them, and that a sleeper is going to be woken.\<close>

fun p_holds :: "'a producer_pc \<Rightarrow> bool" where
  "p_holds (P_Test _) = True" | "p_holds (P_Sleep _) = True" | "p_holds (P_Unlock _) = True" | "p_holds _ = False"

fun c_holds :: "'a consumer_pc \<Rightarrow> bool" where
  "c_holds C_Test = True" | "c_holds C_Sleep = True" | "c_holds C_Unlock = True" | "c_holds _ = False"

fun p_signals :: "'a producer_pc \<Rightarrow> bool" where
  "p_signals P_Signal = True" | "p_signals P_Release = True" | "p_signals _ = False"

fun c_signals :: "'a consumer_pc \<Rightarrow> bool" where
  "c_signals C_Signal = True" | "c_signals C_Release = True" | "c_signals _ = False"

fun p_to_wake :: "'a producer_pc \<Rightarrow> bool" where
  "p_to_wake P_Raise = True" | "p_to_wake P_Signal = True" | "p_to_wake _ = False"

fun c_to_wake :: "'a consumer_pc \<Rightarrow> bool" where
  "c_to_wake C_Raise = True" | "c_to_wake C_Signal = True" | "c_to_wake _ = False"

text \<open>Asleep, or about to be: the flag is that of the condition variable.\<close>

fun p_asleep :: "'a producer_pc \<Rightarrow> bool \<Rightarrow> bool" where
  "p_asleep (P_Sleep _) b = True" | "p_asleep (P_Asleep _) b = b" | "p_asleep _ b = False"

fun c_asleep :: "'a consumer_pc \<Rightarrow> bool \<Rightarrow> bool" where
  "c_asleep C_Sleep b = True" | "c_asleep C_Asleep b = b" | "c_asleep _ b = False"

lemma asleep_facts:
  "p_asleep p False \<Longrightarrow> p_holds p" "c_asleep c False \<Longrightarrow> c_holds c"
  "p_asleep p False \<Longrightarrow> p_asleep p b" "c_asleep c False \<Longrightarrow> c_asleep c b"
  by (cases p; simp; fail | cases c; simp; fail)+

definition locks :: "'a producer_pc \<Rightarrow> 'a consumer_pc \<Rightarrow> bio_thread_signal \<Rightarrow> bio_thread_signal \<Rightarrow> int \<Rightarrow> int \<Rightarrow> bool" where
  "locks p c cp cc n sz \<longleftrightarrow>
     mtx cp = (if p_holds p then Some Producer else if c_signals c then Some Consumer else None)
   \<and> mtx cc = (if c_holds c then Some Consumer else if p_signals p then Some Producer else None)
   \<and> \<not> (p_holds p \<and> c_signals c) \<and> \<not> (c_holds c \<and> p_signals p)
   \<and> (p_asleep p (sleeping cp) \<and> n < sz \<longrightarrow> c_to_wake c) \<and> (c_asleep c (sleeping cc) \<and> 0 < n \<longrightarrow> p_to_wake p)"

abbreviation lock_inv :: "'a spsc \<Rightarrow> bool" where
  "lock_inv s \<equiv> locks (producer s) (consumer s) (can_produce (queue s)) (can_consume (queue s)) (q_count (queue s)) (int (q_size (queue s)))"

lemma start_inv: "count_inv (spsc_start n)" "slots_inv (spsc_start n)" "lock_inv (spsc_start n)"
  by (simp_all add: count_inv_def slots_inv_def locks_def spsc_start_def bio_spscq_init_def bio_thread_signal_init_def)

section \<open>Every step keeps the invariant\<close>

text \<open>A ring has a power of two slots, so that the mask picks the position modulo the size even after the counters wrap around.\<close>

lemma slot_index_mod:
  assumes "q_size q = 2 ^ k" "k < 32"
  shows "slot_index (word_of_nat i) q = i mod q_size q"
proof -
  have "word_of_nat (q_size q) - 1 = (mask k :: 32 word)" using assms(1) by (simp add: mask_eq_decr_exp)
  then have "slot_index (word_of_nat i) q = unat (take_bit k (word_of_nat i :: 32 word))"
    by (simp add: slot_index_def take_bit_eq_mask)
  also have "\<dots> = take_bit k i"
    using assms(2) by (simp add: unsigned_take_bit_eq unsigned_of_nat take_bit_take_bit min_def)
  finally show ?thesis by (simp add: take_bit_eq_mod assms(1))
qed

text \<open>The state after a step, if there is one, satisfies \<open>P\<close>.\<close>

definition after_step :: "'s outcome option \<Rightarrow> ('s \<Rightarrow> bool) \<Rightarrow> bool" where
  "after_step r P = (case r of Some (Inr s') \<Rightarrow> P s' | Some (Inl e) \<Rightarrow> True | None \<Rightarrow> True)"

lemma after_step_simps [simp]: "after_step None P" "after_step (Some (Inr s')) P = P s'" "after_step (Some (Inl e)) P"
  by (simp_all add: after_step_def)

lemma after_stepD: "after_step r P \<Longrightarrow> r = Some (Inr s') \<Longrightarrow> P s'"
  by simp

lemma produce_step_count: "count_inv s \<Longrightarrow> after_step (produce_step s) count_inv"
  by (cases "producer s") (auto simp: produce_step_def Let_def count_inv_def aset_def)

lemma consume_step_count: "count_inv s \<Longrightarrow> after_step (consume_step s) count_inv"
  by (cases "consumer s") (auto simp: consume_step_def Let_def count_inv_def aget_def split: option.splits)

lemma count_bounds:
  assumes "count_inv s"
  shows "0 \<le> q_count (queue s)" "q_count (queue s) \<le> int (q_size (queue s))"
    "p_committed (producer s) \<Longrightarrow> q_count (queue s) < int (q_size (queue s))" "c_committed (consumer s) \<Longrightarrow> 0 < q_count (queue s)"
  using assms by (auto simp: count_inv_def Let_def)

lemma produce_step_lock: "count_inv s \<Longrightarrow> lock_inv s \<Longrightarrow> after_step (produce_step s) lock_inv"
  using count_bounds(1,2) [of s]
  by (cases "producer s") (auto simp: produce_step_def Let_def locks_def aset_def dest: asleep_facts(2) split: if_splits)

lemma consume_step_lock: "count_inv s \<Longrightarrow> lock_inv s \<Longrightarrow> after_step (consume_step s) lock_inv"
  using count_bounds(1,2) [of s]
  by (cases "consumer s") (auto simp: consume_step_def Let_def locks_def aget_def dest: asleep_facts(1) split: if_splits option.splits)

definition ring_size :: "'a spsc \<Rightarrow> bool" where
  "ring_size s \<longleftrightarrow> (\<exists>k < 32. q_size (queue s) = 2 ^ k)"

lemma ring_size_pos: "ring_size s \<Longrightarrow> 0 < q_size (queue s)"
  by (auto simp: ring_size_def)

text \<open>Positions less than one lap apart are in different slots.\<close>

lemma mod_apart: "i < j \<Longrightarrow> j < i + n \<Longrightarrow> i mod n \<noteq> j mod (n :: nat)"
proof
  assume a: "i < j" "j < i + n" "i mod n = j mod n"
  then have "n dvd j - i" using mod_eq_dvd_iff_nat [of i j n] by simp
  then show False using a(1,2) nat_dvd_not_less [of "j - i" n] by simp
qed

lemma produce_step_slots:
  assumes "count_inv s" "slots_inv s" "ring_size s"
  shows "after_step (produce_step s) slots_inv"
proof (cases "producer s")
  case (P_Store item i)
  let ?q = "queue s" and ?np = "length (produced s)" and ?nc = "length (consumed s)"
  have i: "i = word_of_nat ?np" "?np < ?nc + q_size ?q" using assms(1) P_Store by (auto simp: count_inv_def Let_def)
  have idx: "slot_index i ?q = ?np mod q_size ?q"
    using assms(3) slot_index_mod [of ?q] unfolding i(1) ring_size_def by blast
  have len: "length (q_values ?q) = q_size ?q" using assms(2) by (simp add: slots_inv_def Let_def)
  have lt: "?np mod q_size ?q < length (q_values ?q)" using ring_size_pos [OF assms(3)] len by simp
  have other: "j mod q_size ?q \<noteq> ?np mod q_size ?q" if "?nc \<le> j" "j < ?np" for j
    using that i(2) by (intro mod_apart) auto
  show ?thesis
    using assms(2) lt
    by (auto simp: produce_step_def P_Store idx slots_inv_def Let_def nth_list_update_if) (metis other)
next
  case (P_Count item)
  let ?q = "queue s" and ?np = "length (produced s)" and ?nc = "length (consumed s)"
  have le: "?nc \<le> ?np" using assms(1) by (simp add: count_inv_def Let_def)
  have S: "length (q_values ?q) = q_size ?q" "\<And>i. ?nc \<le> i \<Longrightarrow> i < ?np \<Longrightarrow> q_values ?q ! (i mod q_size ?q) = Some (produced s ! i)"
      "q_values ?q ! (?np mod q_size ?q) = Some item" "consumed s = take ?nc (produced s)"
      "\<And>x. consumer s = C_Count x \<Longrightarrow> x = produced s ! ?nc"
    using assms(2) P_Count by (auto simp: slots_inv_def Let_def)
  have "?nc < ?np" if "consumer s = C_Count x" for x using assms(1) that by (simp add: count_inv_def Let_def)
  then have "x = (produced s @ [item]) ! ?nc" if "consumer s = C_Count x" for x using S(5) that by (simp add: nth_append)
  moreover have "q_values ?q ! (i mod q_size ?q) = Some ((produced s @ [item]) ! i)" if "?nc \<le> i" "i < Suc ?np" for i
    using S(2,3) that by (cases "i = ?np") (auto simp: nth_append)
  moreover have "consumed s = take ?nc (produced s @ [item])" using S(4) le by simp
  ultimately show ?thesis using S(1) by (simp add: produce_step_def P_Count slots_inv_def Let_def)
qed (use assms(2) in \<open>auto simp: produce_step_def slots_inv_def Let_def\<close>)

lemma consume_step_slots:
  assumes "count_inv s" "slots_inv s" "ring_size s"
  shows "after_step (consume_step s) slots_inv"
proof (cases "consumer s")
  case (C_Read i)
  let ?q = "queue s" and ?np = "length (produced s)" and ?nc = "length (consumed s)"
  have i: "i = word_of_nat ?nc" "?nc < ?np" using assms(1) C_Read by (auto simp: count_inv_def Let_def)
  have idx: "slot_index i ?q = ?nc mod q_size ?q"
    using assms(3) slot_index_mod [of ?q] unfolding i(1) ring_size_def by blast
  have v: "q_values ?q ! (?nc mod q_size ?q) = Some (produced s ! ?nc)" "length (q_values ?q) = q_size ?q"
    using assms(2) i(2) by (auto simp: slots_inv_def Let_def)
  show ?thesis
    using assms(2) v ring_size_pos [OF assms(3)] by (simp add: consume_step_def C_Read idx slots_inv_def Let_def)
next
  case (C_Count item)
  then have "length (consumed s) < length (produced s)" using assms(1) by (simp add: count_inv_def Let_def)
  then show ?thesis
    using assms(2) C_Count by (auto simp: consume_step_def slots_inv_def Let_def take_Suc_conv_app_nth)
qed (use assms(2) in \<open>auto simp: consume_step_def slots_inv_def Let_def\<close>)

lemma step_size: "after_step (produce_step s) (\<lambda>s'. q_size (queue s') = q_size (queue s))"
  "after_step (consume_step s) (\<lambda>s'. q_size (queue s') = q_size (queue s))"
  by (cases "producer s"; simp add: produce_step_def Let_def aset_def)
    (cases "consumer s"; auto simp: consume_step_def Let_def aget_def split: option.splits)

definition spsc_inv :: "nat \<Rightarrow> 'a spsc \<Rightarrow> bool" where
  "spsc_inv n s \<longleftrightarrow> q_size (queue s) = n \<and> count_inv s \<and> slots_inv s \<and> lock_inv s"

lemma spurious_lock:
  "locks p c cp cc n sz \<Longrightarrow> locks p c (cp\<lparr>sleeping := False\<rparr>) cc n sz"
  "locks p c cp cc n sz \<Longrightarrow> locks p c cp (cc\<lparr>sleeping := False\<rparr>) n sz"
  using asleep_facts(3) [of p "sleeping cp"] asleep_facts(4) [of c "sleeping cc"] by (auto simp: locks_def split: if_splits)

lemma spsc_step_inv:
  assumes "spsc_step s s'" "spsc_inv n s" "n = 2 ^ k" "k < 32"
  shows "spsc_inv n s'"
proof -
  have inv: "count_inv s" "slots_inv s" "lock_inv s" "q_size (queue s) = n" "ring_size s"
    using assms(2-4) by (auto simp: spsc_inv_def ring_size_def)
  from assms(1) show ?thesis
  proof cases
    case step_produce
    note A = after_stepD [OF _ step_produce]
    show ?thesis
      using A [OF produce_step_count [OF inv(1)]] A [OF produce_step_slots [OF inv(1,2,5)]]
        A [OF produce_step_lock [OF inv(1,3)]] A [OF step_size(1)] inv(4) by (simp add: spsc_inv_def)
  next
    case step_consume
    note A = after_stepD [OF _ step_consume]
    show ?thesis
      using A [OF consume_step_count [OF inv(1)]] A [OF consume_step_slots [OF inv(1,2,5)]]
        A [OF consume_step_lock [OF inv(1,3)]] A [OF step_size(2)] inv(4) by (simp add: spsc_inv_def)
  next
    case (call_produce item wait)
    then show ?thesis using inv by (auto simp: spsc_inv_def count_inv_def slots_inv_def Let_def locks_def)
  next
    case (call_consume wait)
    then show ?thesis using inv by (auto simp: spsc_inv_def count_inv_def slots_inv_def Let_def locks_def)
  next
    case spurious_produce
    then show ?thesis using inv spurious_lock(1) [OF inv(3)] by (simp add: spsc_inv_def count_inv_def slots_inv_def Let_def)
  next
    case spurious_consume
    then show ?thesis using inv spurious_lock(2) [OF inv(3)] by (simp add: spsc_inv_def count_inv_def slots_inv_def Let_def)
  qed
qed

lemma spsc_reach_inv: "spsc_reach n s \<Longrightarrow> n = 2 ^ k \<Longrightarrow> k < 32 \<Longrightarrow> spsc_inv n s"
proof (induction rule: spsc_reach.induct)
  case reach_start
  then show ?case using start_inv [of n] by (simp add: spsc_inv_def spsc_start_def bio_spscq_init_def)
next
  case (reach_step s s')
  then show ?case by (blast intro: spsc_step_inv)
qed

section \<open>What the queue promises\<close>

lemma produce_step_defined:
  assumes "spsc_inv n s" "n = 2 ^ k" "k < 32"
  shows "produce_step s \<noteq> Some (Inl e)"
proof (cases "producer s")
  case (P_Store item i)
  have "slot_index i (queue s) = length (produced s) mod n"
    using assms P_Store slot_index_mod [of "queue s" k] by (auto simp: spsc_inv_def count_inv_def Let_def)
  then show ?thesis using assms P_Store by (auto simp: produce_step_def spsc_inv_def slots_inv_def Let_def)
qed (auto simp: produce_step_def Let_def)

lemma consume_step_defined:
  assumes "spsc_inv n s" "n = 2 ^ k" "k < 32"
  shows "consume_step s \<noteq> Some (Inl e)"
proof (cases "consumer s")
  case (C_Read i)
  have nc: "length (consumed s) < length (produced s)" using assms C_Read by (auto simp: spsc_inv_def count_inv_def Let_def)
  have "slot_index i (queue s) = length (consumed s) mod n"
    using assms C_Read slot_index_mod [of "queue s" k] by (auto simp: spsc_inv_def count_inv_def Let_def)
  then show ?thesis using assms C_Read nc by (auto simp: consume_step_def spsc_inv_def slots_inv_def Let_def)
qed (auto simp: consume_step_def Let_def)

text \<open>A party that sleeps although it could go on is about to be woken by the other one.\<close>

lemma sleeper_is_woken:
  assumes "spsc_inv n s"
  shows "producer s = P_Asleep item \<Longrightarrow> sleeping (can_produce (queue s)) \<Longrightarrow> q_count (queue s) < int n \<Longrightarrow> consumer s \<in> {C_Raise, C_Signal}"
    "consumer s = C_Asleep \<Longrightarrow> sleeping (can_consume (queue s)) \<Longrightarrow> 0 < q_count (queue s) \<Longrightarrow> producer s \<in> {P_Raise, P_Signal}"
  using assms by (cases "consumer s"; simp add: spsc_inv_def locks_def) (cases "producer s"; use assms in \<open>simp add: spsc_inv_def locks_def\<close>)

text \<open>The two parties never sleep at the same time.\<close>

lemma never_both_asleep:
  assumes "spsc_inv n s" "0 < n" "producer s = P_Asleep item" "consumer s = C_Asleep"
  shows "\<not> (sleeping (can_produce (queue s)) \<and> sleeping (can_consume (queue s)))"
  using assms by (auto simp: spsc_inv_def locks_def)

end
