(* ===== verification/ThreadPool.thy ===== *)
theory ThreadPool
  imports Scheduler Pow2 Owned Spscq Running "HOL-Library.Sublist"
begin

text \<open>
  The thread pool of \<open>src/src/thread.c\<close>: jobs travel from the main thread to the
  worker threads and back. The queues are lists here, which theory \<open>Spscq\<close>
  justifies; the worker threads' steps interleave with those of the main thread.
\<close>

section \<open>Model\<close>

definition BIO_DEFAULT_THREAD_POOL_SIZE :: int where
  "BIO_DEFAULT_THREAD_POOL_SIZE = 2"

definition BIO_DEFAULT_THREAD_POOL_QUEUE_SIZE :: int where
  "BIO_DEFAULT_THREAD_POOL_QUEUE_SIZE = 2"

abbreviation set_thread_pool :: "bio_worker_thread list \<Rightarrow> 'w bio_ctx \<Rightarrow> 'w bio_ctx" where
  "set_thread_pool ws s \<equiv> s\<lparr>rest := (rest s)\<lparr>thread_pool := ws\<rparr>\<rparr>"

abbreviation set_worker_msgs :: "bio_worker_msg store \<Rightarrow> 'w bio_ctx \<Rightarrow> 'w bio_ctx" where
  "set_worker_msgs ms s \<equiv> s\<lparr>rest := (rest s)\<lparr>worker_msgs := ms\<rparr>\<rparr>"

definition new_worker :: "nat \<Rightarrow> nat \<Rightarrow> bio_worker_thread" where
  "new_worker rq rs =
    \<lparr>request_queue = [], request_size = rq, response_queue = [], response_size = rs, load = 0, worker_at = Taking\<rparr>"

text \<open>
  \<open>begin_create\<close> and \<open>end_create\<close> stand for \<open>bio_platform_begin_create_thread_pool\<close> and
  \<open>bio_platform_end_create_thread_pool\<close>.
\<close>

definition bio_thread_init :: "('w \<Rightarrow> 'w) \<Rightarrow> ('w \<Rightarrow> 'w) \<Rightarrow> int \<Rightarrow> int \<Rightarrow> 'w bio_ctx \<Rightarrow> 'w bio_ctx outcome" where
  "bio_thread_init begin_create end_create opt_num_threads opt_queue_size s =
    (let num_threads = (if opt_num_threads \<le> 0 then BIO_DEFAULT_THREAD_POOL_SIZE else opt_num_threads);
         queue_size = (if opt_queue_size \<le> 0 then BIO_DEFAULT_THREAD_POOL_QUEUE_SIZE else opt_queue_size);
         queue_size = sint (bio_next_pow2 (word_of_int queue_size)) in
     rbind (check32 (queue_size * 2)) (\<lambda>response_size.
     Inr (s\<lparr>rest := (rest s)\<lparr>thread_pool := replicate (nat num_threads) (new_worker (nat queue_size) (nat response_size)),
                              num_running_async_jobs := 0\<rparr>,
            world := end_create (begin_create (world s))\<rparr>)))"

text \<open>The queues between the main thread and worker \<open>w\<close>, without waiting.\<close>

definition produce_request :: "addr \<Rightarrow> bio_worker_thread \<Rightarrow> bio_worker_thread option" where
  "produce_request m w =
    (if length (request_queue w) = request_size w then None else Some (w\<lparr>request_queue := request_queue w @ [m]\<rparr>))"

definition consume_response :: "bio_worker_thread \<Rightarrow> (addr \<times> bio_worker_thread) option" where
  "consume_response w =
    (case response_queue w of [] \<Rightarrow> None | m # ms \<Rightarrow> Some (m, w\<lparr>response_queue := ms\<rparr>))"

text \<open>
  The next step of a worker thread in the loop of \<open>bio_async_worker\<close>; \<open>None\<close> while
  it is blocked on a queue or after it has returned. \<open>run_task\<close> is what the job's
  function does, \<open>notify\<close> stands for \<open>bio_platform_notify\<close>.
\<close>

definition worker_step ::
    "(addr \<Rightarrow> addr \<Rightarrow> 'w \<Rightarrow> 'w) \<Rightarrow> ('w \<Rightarrow> 'w) \<Rightarrow> bio_worker_thread \<Rightarrow> bio_worker_msg store \<Rightarrow> 'w \<Rightarrow> (bio_worker_thread \<times> 'w) outcome option" where
  "worker_step run_task notify w msgs wd =
    (case worker_at w of
       Taking \<Rightarrow>
         (case request_queue w of
            [] \<Rightarrow> None
          | m # ms \<Rightarrow> Some (Inr (w\<lparr>request_queue := ms, worker_at := Acting m\<rparr>, wd)))
     | Acting m \<Rightarrow>
         Some (rbind (deref msgs m) (\<lambda>msg.
           case msg_type msg of
             BIO_WORKER_MSG_NOOP \<Rightarrow> Inr (w\<lparr>worker_at := Answering m True\<rparr>, wd)
           | BIO_WORKER_MSG_TERMINATE \<Rightarrow> Inr (w\<lparr>worker_at := Answering m False\<rparr>, wd)
           | BIO_WORKER_MSG_RUN \<Rightarrow> Inr (w\<lparr>worker_at := Answering m True\<rparr>, run_task (run_fn msg) (run_userdata msg) wd)))
     | Answering m running \<Rightarrow>
         (if length (response_queue w) = response_size w then None
          else Some (rbind (deref msgs m) (\<lambda>msg.
            Inr (w\<lparr>response_queue := response_queue w @ [m],
                   worker_at := (if need_notification msg then Notifying running else if running then Taking else Returned)\<rparr>, wd))))
     | Notifying running \<Rightarrow> Some (Inr (w\<lparr>worker_at := (if running then Taking else Returned)\<rparr>, notify wd))
     | Returned \<Rightarrow> None)"

text \<open>
  One round of \<open>bio_thread_drain_responses\<close> for worker \<open>i\<close>; the \<open>bool\<close> is false when the
  response queue was empty.
\<close>

definition drain_one :: "nat \<Rightarrow> 'w bio_ctx \<Rightarrow> (bool \<times> 'w bio_ctx) outcome" where
  "drain_one i s =
    rbind (aget (thread_pool (rest s)) i) (\<lambda>w.
    case consume_response w of
      None \<Rightarrow> Inr (False, s)
    | Some (m, w) \<Rightarrow>
        (let s = set_thread_pool ((thread_pool (rest s))[i := w]) s in
         rbind (deref (worker_msgs (rest s)) m) (\<lambda>msg.
         rbind (if msg_type msg = BIO_WORKER_MSG_RUN then
                  rbind (bio_raise_signal (run_signal msg) s) (\<lambda>(_, s).
                  rbind (check32 (num_running_async_jobs (rest s) - 1)) (\<lambda>n.
                  rbind (aget (thread_pool (rest s)) i) (\<lambda>w.
                  Inr (s\<lparr>rest := (rest s)\<lparr>num_running_async_jobs := n, thread_pool := (thread_pool (rest s))[i := w\<lparr>load := load w - 1\<rparr>]\<rparr>\<rparr>))))
                else Inr s) (\<lambda>s.
         Inr (True, set_worker_msgs (del m (worker_msgs (rest s))) s)))))"

text \<open>\<open>bio_thread_drain_responses\<close> while the worker does not answer any further job.\<close>

fun drain_rounds :: "nat \<Rightarrow> nat \<Rightarrow> 'w bio_ctx \<Rightarrow> 'w bio_ctx outcome" where
  "drain_rounds 0 i s = Inr s"
| "drain_rounds (Suc n) i s = rbind (drain_one i s) (\<lambda>(more, s). if more then drain_rounds n i s else Inr s)"

definition bio_thread_drain_responses :: "nat \<Rightarrow> 'w bio_ctx \<Rightarrow> 'w bio_ctx outcome" where
  "bio_thread_drain_responses i s =
    rbind (aget (thread_pool (rest s)) i) (\<lambda>w. drain_rounds (Suc (length (response_queue w))) i s)"

fun drain_workers :: "nat list \<Rightarrow> 'w bio_ctx \<Rightarrow> 'w bio_ctx outcome" where
  "drain_workers [] s = Inr s"
| "drain_workers (i # is) s = rbind (bio_thread_drain_responses i s) (drain_workers is)"

definition bio_thread_update :: "'w bio_ctx \<Rightarrow> 'w bio_ctx outcome" where
  "bio_thread_update s = drain_workers [0..<length (thread_pool (rest s))] s"

text \<open>The search for the least busy worker, draining each on the way: index and load so far.\<close>

definition UINT_MAX :: "32 word" where
  "UINT_MAX = - 1"

fun choose_worker :: "nat list \<Rightarrow> int \<Rightarrow> 32 word \<Rightarrow> 'w bio_ctx \<Rightarrow> (int \<times> 'w bio_ctx) outcome" where
  "choose_worker [] chosen min_load s = Inr (chosen, s)"
| "choose_worker (i # is) chosen min_load s =
    rbind (bio_thread_drain_responses i s) (\<lambda>s.
    rbind (aget (thread_pool (rest s)) i) (\<lambda>w.
    if load w < min_load then choose_worker is (int i) (load w) s else choose_worker is chosen min_load s))"

text \<open>One round of the loop of \<open>bio_run_async\<close>; the \<open>bool\<close> is \<open>message_sent\<close>.\<close>

definition run_async_try :: "addr \<Rightarrow> 'w bio_ctx \<Rightarrow> (bool \<times> 'w bio_ctx) outcome" where
  "run_async_try m s =
    rbind (choose_worker [0..<length (thread_pool (rest s))] (-1) UINT_MAX s) (\<lambda>(chosen, s).
    if chosen < 0 then Inl DanglingPointer
    else
      rbind (aget (thread_pool (rest s)) (nat chosen)) (\<lambda>w.
      case produce_request m w of
        None \<Rightarrow> Inr (False, s)
      | Some w \<Rightarrow>
          rbind (check32 (num_running_async_jobs (rest s) + 1)) (\<lambda>n.
          Inr (True, s\<lparr>rest := (rest s)\<lparr>thread_pool := (thread_pool (rest s))[nat chosen := w\<lparr>load := load w + 1\<rparr>],
                                        num_running_async_jobs := n\<rparr>\<rparr>))))"

partial_function (option) run_async_loop ::
    "(addr \<Rightarrow> 'w bio_ctx \<Rightarrow> 'w bio_ctx outcome) \<Rightarrow> addr \<Rightarrow> addr \<Rightarrow> 'w bio_ctx \<Rightarrow> 'w bio_ctx outcome option" where
  "run_async_loop mco_yield self m s =
    (case run_async_try m s of
       Inl e \<Rightarrow> Some (Inl e)
     | Inr r \<Rightarrow>
         if fst r then Some (Inr (snd r))
         else (case mco_yield self (snd r) of
                 Inl e \<Rightarrow> Some (Inl e)
               | Inr s \<Rightarrow> run_async_loop mco_yield self m s))"

definition new_job :: "addr \<Rightarrow> addr \<Rightarrow> bio_handle \<Rightarrow> bio_worker_msg" where
  "new_job task data signal =
    \<lparr>msg_type = BIO_WORKER_MSG_RUN, need_notification = True, run_fn = task, run_userdata = data, run_signal = signal\<rparr>"

definition bio_run_async ::
    "(addr \<Rightarrow> 'w bio_ctx \<Rightarrow> 'w bio_ctx outcome) \<Rightarrow> addr \<Rightarrow> addr \<Rightarrow> addr \<Rightarrow> bio_handle \<Rightarrow> 'w bio_ctx \<Rightarrow> 'w bio_ctx outcome option" where
  "bio_run_async mco_yield self task data signal s =
    (let m = bio_malloc s in
     run_async_loop mco_yield self m (set_worker_msgs (put m (new_job task data signal) (worker_msgs (rest s))) s))"

definition bio_run_async_and_wait ::
    "(addr \<Rightarrow> 'w bio_ctx \<Rightarrow> 'w bio_ctx outcome) \<Rightarrow> addr \<Rightarrow> addr \<Rightarrow> addr \<Rightarrow> 'w bio_ctx \<Rightarrow> 'w bio_ctx outcome option" where
  "bio_run_async_and_wait mco_yield self task data s =
    (case bio_make_signal self s of
       Inl e \<Rightarrow> Some (Inl e)
     | Inr (signal, s) \<Rightarrow>
         map_option (\<lambda>r. rbind r (bio_wait_for_one_signal mco_yield self signal)) (bio_run_async mco_yield self task data signal s))"

text \<open>
  The steps of \<open>bio_thread_cleanup\<close> for worker \<open>i\<close>: sending the termination message
  if there is room, taking one answer (which is freed unless it is that
  message), and joining a worker that has returned.
\<close>

definition cleanup_send :: "addr \<Rightarrow> nat \<Rightarrow> 'w bio_ctx \<Rightarrow> (bool \<times> 'w bio_ctx) outcome" where
  "cleanup_send terminate i s =
    rbind (aget (thread_pool (rest s)) i) (\<lambda>w.
    case produce_request terminate w of
      None \<Rightarrow> Inr (False, s)
    | Some w \<Rightarrow> Inr (True, set_thread_pool ((thread_pool (rest s))[i := w]) s))"

definition cleanup_drain_one :: "addr \<Rightarrow> nat \<Rightarrow> 'w bio_ctx \<Rightarrow> (bool \<times> 'w bio_ctx) outcome" where
  "cleanup_drain_one terminate i s =
    rbind (aget (thread_pool (rest s)) i) (\<lambda>w.
    case consume_response w of
      None \<Rightarrow> Inr (False, s)
    | Some (m, w) \<Rightarrow>
        (let s = set_thread_pool ((thread_pool (rest s))[i := w]) s in
         Inr (True, if m \<noteq> terminate then set_worker_msgs (del m (worker_msgs (rest s))) s else s)))"

text \<open>
  \<open>bio_thread_cleanup\<close>. Meanwhile the worker threads go on: \<open>wait_response i\<close> is what has
  happened when the blocking \<open>bio_spscq_consume\<close> finds an answer of worker \<open>i\<close>, and \<open>join i\<close>
  what has happened when \<open>thrd_join\<close> returns.
\<close>

fun cleanup_rounds :: "nat \<Rightarrow> addr \<Rightarrow> nat \<Rightarrow> 'w bio_ctx \<Rightarrow> 'w bio_ctx outcome" where
  "cleanup_rounds 0 terminate i s = Inr s"
| "cleanup_rounds (Suc n) terminate i s =
    rbind (cleanup_drain_one terminate i s) (\<lambda>(more, s). if more then cleanup_rounds n terminate i s else Inr s)"

definition cleanup_drain :: "addr \<Rightarrow> nat \<Rightarrow> 'w bio_ctx \<Rightarrow> 'w bio_ctx outcome" where
  "cleanup_drain terminate i s =
    rbind (aget (thread_pool (rest s)) i) (\<lambda>w. cleanup_rounds (Suc (length (response_queue w))) terminate i s)"

partial_function (option) cleanup_request :: "(nat \<Rightarrow> 'w bio_ctx \<Rightarrow> 'w bio_ctx run) \<Rightarrow> addr \<Rightarrow> nat \<Rightarrow> 'w bio_ctx \<Rightarrow> 'w bio_ctx run" where
  "cleanup_request wait_response terminate i s =
    obind (lift (cleanup_send terminate i s)) (\<lambda>r.
    if fst r then ret (snd r)
    else obind (wait_response i (snd r)) (\<lambda>s.
         obind (lift (cleanup_drain terminate i s)) (cleanup_request wait_response terminate i)))"

fun cleanup_workers ::
    "(nat \<Rightarrow> 'w bio_ctx \<Rightarrow> 'w bio_ctx run) \<Rightarrow> (nat \<Rightarrow> 'w bio_ctx \<Rightarrow> 'w bio_ctx run) \<Rightarrow> addr \<Rightarrow> nat list \<Rightarrow> 'w bio_ctx \<Rightarrow> 'w bio_ctx run" where
  "cleanup_workers wait_response join terminate [] s = ret s"
| "cleanup_workers wait_response join terminate (i # is) s =
    obind (cleanup_request wait_response terminate i s) (\<lambda>s.
    obind (lift (cleanup_drain terminate i s)) (\<lambda>s.
    obind (join i s) (cleanup_workers wait_response join terminate is)))"

text \<open>The termination message lives on the stack.\<close>

definition bio_thread_cleanup ::
    "(nat \<Rightarrow> 'w bio_ctx \<Rightarrow> 'w bio_ctx run) \<Rightarrow> (nat \<Rightarrow> 'w bio_ctx \<Rightarrow> 'w bio_ctx run) \<Rightarrow> 'w bio_ctx \<Rightarrow> 'w bio_ctx run" where
  "bio_thread_cleanup wait_response join s =
    (let terminate = bio_malloc s;
         msg = \<lparr>msg_type = BIO_WORKER_MSG_TERMINATE, need_notification = False, run_fn = NULL, run_userdata = NULL, run_signal = BIO_INVALID_HANDLE\<rparr>;
         s = set_worker_msgs (put terminate msg (worker_msgs (rest s))) s in
     obind (cleanup_workers wait_response join terminate [0..<length (thread_pool (rest s))] s) (\<lambda>s.
     ret (set_thread_pool [] (set_worker_msgs (del terminate (worker_msgs (rest s))) s))))"

section \<open>Invariant\<close>

text \<open>The message a worker thread holds, and all messages of a worker, oldest first.\<close>

definition held :: "bio_worker_thread \<Rightarrow> addr list" where
  "held w = (case worker_at w of Acting m \<Rightarrow> [m] | Answering m _ \<Rightarrow> [m] | _ \<Rightarrow> [])"

definition in_flight :: "bio_worker_thread \<Rightarrow> addr list" where
  "in_flight w = response_queue w @ held w @ request_queue w"

definition all_jobs :: "bio_worker_thread list \<Rightarrow> addr list" where
  "all_jobs ws = concat (map in_flight ws)"

definition keeps_running :: "bio_worker_thread \<Rightarrow> bool" where
  "keeps_running w = (case worker_at w of Answering m running \<Rightarrow> running | Notifying running \<Rightarrow> running | Returned \<Rightarrow> False | _ \<Rightarrow> True)"

definition worker_ok :: "bio_worker_thread \<Rightarrow> bool" where
  "worker_ok w \<longleftrightarrow> load w = word_of_nat (length (in_flight w)) \<and> keeps_running w
   \<and> length (request_queue w) \<le> request_size w \<and> length (response_queue w) \<le> response_size w
   \<and> request_size w + response_size w < 2 ^ 32 - 2"

text \<open>
  Every message is in one place only, \<open>X\<close> being the jobs that were not handed to
  a worker yet; the counters count the jobs that are under way.
\<close>

definition pool_inv :: "addr set \<Rightarrow> 'w bio_ctx \<Rightarrow> bool" where
  "pool_inv X s \<longleftrightarrow>
    (let ws = thread_pool (rest s); ms = map_of (worker_msgs (rest s)) in
     distinct (all_jobs ws) \<and> X \<inter> set (all_jobs ws) = {} \<and> dom ms = set (all_jobs ws) \<union> X
   \<and> (\<forall>m msg. ms m = Some msg \<longrightarrow> msg_type msg = BIO_WORKER_MSG_RUN \<and> issued (handles s) (run_signal msg))
   \<and> list_all worker_ok ws
   \<and> num_running_async_jobs (rest s) = int (length (all_jobs ws)))"

lemma all_jobs_split:
  assumes "i < length ws"
  shows "mset (all_jobs (ws[i := w])) + mset (in_flight (ws ! i)) = mset (all_jobs ws) + mset (in_flight w)"
proof -
  have 1: "all_jobs ws = all_jobs (take i ws) @ in_flight (ws ! i) @ all_jobs (drop (Suc i) ws)"
    using assms by (subst id_take_nth_drop [OF assms]) (simp add: all_jobs_def)
  have 2: "all_jobs (ws[i := w]) = all_jobs (take i ws) @ in_flight w @ all_jobs (drop (Suc i) ws)"
    using assms by (simp add: upd_conv_take_nth_drop all_jobs_def)
  show ?thesis unfolding 1 2 by simp
qed

section \<open>The worker's side\<close>

text \<open>Whatever a worker does, its jobs stay in order and the same; it never touches a message that was freed.\<close>

lemma worker_step_jobs:
  "after_step (worker_step run_task notify w msgs wd) (\<lambda>(w', _). in_flight w' = in_flight w \<and> load w' = load w
    \<and> request_size w' = request_size w \<and> response_size w' = response_size w \<and> length (request_queue w') \<le> length (request_queue w)
    \<and> (length (response_queue w) \<le> response_size w \<longrightarrow> length (response_queue w') \<le> response_size w))"
proof (cases "worker_at w")
  case Taking
  then show ?thesis by (simp add: worker_step_def in_flight_def held_def split: list.split)
next
  case (Acting m)
  then show ?thesis
    by (cases "map_of msgs m") (simp_all add: worker_step_def deref_def in_flight_def held_def split: bio_worker_msg_type.split)
next
  case (Answering m running)
  then show ?thesis
    by (cases "map_of msgs m") (auto simp: worker_step_def deref_def in_flight_def held_def)
qed (auto simp: worker_step_def in_flight_def held_def)

lemma worker_step_running:
  assumes "keeps_running w" "\<And>m msg. map_of msgs m = Some msg \<Longrightarrow> msg_type msg = BIO_WORKER_MSG_RUN"
  shows "after_step (worker_step run_task notify w msgs wd) (\<lambda>(w', _). keeps_running w')"
proof (cases "worker_at w")
  case (Acting m)
  then show ?thesis
    using assms(2) [of m] by (cases "map_of msgs m") (simp_all add: worker_step_def deref_def keeps_running_def)
next
  case (Answering m running)
  then show ?thesis
    using assms(1) by (cases "map_of msgs m") (auto simp: worker_step_def deref_def keeps_running_def)
qed (use assms(1) in \<open>auto simp: worker_step_def keeps_running_def split: list.split\<close>)

lemma worker_step_defined: "\<forall>m \<in> set (held w). map_of msgs m \<noteq> None \<Longrightarrow> worker_step run_task notify w msgs wd \<noteq> Some (Inl e)"
  by (cases "worker_at w") (auto simp: worker_step_def held_def split: list.splits bio_worker_msg_type.splits)

text \<open>The pool after a step of worker \<open>i\<close>.\<close>

definition pool_worker_step ::
    "(addr \<Rightarrow> addr \<Rightarrow> 'w \<Rightarrow> 'w) \<Rightarrow> ('w \<Rightarrow> 'w) \<Rightarrow> nat \<Rightarrow> 'w bio_ctx \<Rightarrow> 'w bio_ctx outcome option" where
  "pool_worker_step run_task notify i s =
    (if i < length (thread_pool (rest s)) then
       map_option (\<lambda>r. rbind r (\<lambda>(w, wd). Inr (set_thread_pool ((thread_pool (rest s))[i := w]) (s\<lparr>world := wd\<rparr>))))
         (worker_step run_task notify (thread_pool (rest s) ! i) (worker_msgs (rest s)) (world s))
     else None)"

lemma in_flight_job: "i < length ws \<Longrightarrow> m \<in> set (in_flight (ws ! i)) \<Longrightarrow> m \<in> set (all_jobs ws)"
  by (auto simp: all_jobs_def)

lemma pool_invD:
  assumes "pool_inv X s"
  shows "distinct (all_jobs (thread_pool (rest s)))" "X \<inter> set (all_jobs (thread_pool (rest s))) = {}"
    "dom (map_of (worker_msgs (rest s))) = set (all_jobs (thread_pool (rest s))) \<union> X"
    "\<And>m msg. map_of (worker_msgs (rest s)) m = Some msg \<Longrightarrow> msg_type msg = BIO_WORKER_MSG_RUN"
    "\<And>m msg. map_of (worker_msgs (rest s)) m = Some msg \<Longrightarrow> issued (handles s) (run_signal msg)"
    "\<And>i. i < length (thread_pool (rest s)) \<Longrightarrow> worker_ok (thread_pool (rest s) ! i)"
    "num_running_async_jobs (rest s) = int (length (all_jobs (thread_pool (rest s))))"
  using assms by (auto simp: pool_inv_def Let_def list_all_length)

lemma pool_live:
  assumes "pool_inv X s" "i < length (thread_pool (rest s))" "m \<in> set (in_flight (thread_pool (rest s) ! i))"
  shows "\<exists>msg. map_of (worker_msgs (rest s)) m = Some msg"
proof -
  have "m \<in> dom (map_of (worker_msgs (rest s)))" using pool_invD(3) [OF assms(1)] in_flight_job [OF assms(2,3)] by simp
  then show ?thesis by auto
qed

text \<open>The invariant of the pool depends on a worker through its jobs and its load only.\<close>

lemma pool_inv_worker:
  assumes inv: "pool_inv X s" and i: "i < length (thread_pool (rest s))"
    and w: "in_flight w = in_flight (thread_pool (rest s) ! i)" "worker_ok w"
  shows "pool_inv X (set_thread_pool ((thread_pool (rest s))[i := w]) (s\<lparr>world := wd\<rparr>))"
proof -
  let ?ws = "thread_pool (rest s)"
  have "all_jobs (?ws[i := w]) = all_jobs ?ws"
    using i w(1) by (simp add: all_jobs_def map_update) (metis length_map list_update_id nth_map)
  moreover have "list_all worker_ok (?ws[i := w])"
    using pool_invD(6) [OF inv] i w(2) by (simp add: list_all_length nth_list_update_if)
  ultimately show ?thesis using inv by (simp add: pool_inv_def Let_def)
qed

lemma worker_step_inv:
  assumes "pool_inv X s"
  shows "after_step (pool_worker_step run_task notify i s) (pool_inv X)" "pool_worker_step run_task notify i s \<noteq> Some (Inl e)"
proof -
  let ?w = "thread_pool (rest s) ! i"
  let ?r = "worker_step run_task notify ?w (worker_msgs (rest s)) (world s)"
  show "after_step (pool_worker_step run_task notify i s) (pool_inv X)"
  proof (cases "i < length (thread_pool (rest s))")
    case True
    have J: "in_flight w' = in_flight ?w \<and> worker_ok w'" if "?r = Some (Inr (w', wd'))" for w' wd'
      using after_stepD [OF worker_step_jobs that] after_stepD [OF worker_step_running that] pool_invD(4) [OF assms] pool_invD(6) [OF assms True]
      by (auto simp: worker_ok_def)
    show ?thesis
      using True J pool_inv_worker [OF assms True]
      by (cases ?r) (auto simp: pool_worker_step_def after_step_def rbind_def split: sum.splits)
  qed (simp add: pool_worker_step_def)
  show "pool_worker_step run_task notify i s \<noteq> Some (Inl e)"
  proof (cases "i < length (thread_pool (rest s))")
    case True
    have "\<forall>m \<in> set (held ?w). map_of (worker_msgs (rest s)) m \<noteq> None"
      using pool_live [OF assms True] by (auto simp: in_flight_def)
    from worker_step_defined [OF this, of run_task notify "world s"] show ?thesis
      by (auto simp: pool_worker_step_def rbind_def split: sum.splits)
  qed (simp add: pool_worker_step_def)
qed

section \<open>The main thread's side\<close>

text \<open>The pool after the oldest job of worker \<open>i\<close> was answered and its message freed.\<close>

lemma pool_inv_answered:
  assumes inv: "pool_inv X s" and i: "i < length (thread_pool (rest s))"
    and m: "in_flight (thread_pool (rest s) ! i) = m # in_flight w" "worker_ok w"
    and h: "\<And>k. issued (handles s) k \<Longrightarrow> issued (handles s') k"
    and s': "thread_pool (rest s') = (thread_pool (rest s))[i := w]" "worker_msgs (rest s') = del m (worker_msgs (rest s))"
      "num_running_async_jobs (rest s') = num_running_async_jobs (rest s) - 1"
  shows "pool_inv X s'"
proof -
  let ?ws = "thread_pool (rest s)"
  note I = pool_invD [OF inv]
  have ms: "mset (all_jobs ?ws) = add_mset m (mset (all_jobs (?ws[i := w])))"
    using all_jobs_split [OF i, of w] m(1) by simp
  then have set_eq: "set (all_jobs ?ws) = insert m (set (all_jobs (?ws[i := w])))"
    by (metis set_mset_add_mset_insert set_mset_mset)
  have len: "length (all_jobs ?ws) = Suc (length (all_jobs (?ws[i := w])))" using ms by (metis size_add_mset size_mset)
  have "distinct (m # all_jobs (?ws[i := w]))" using I(1) ms by (metis mset.simps(2) mset_eq_imp_distinct_iff)
  then have d: "distinct (all_jobs (?ws[i := w]))" "m \<notin> set (all_jobs (?ws[i := w]))" by auto
  have mX: "m \<notin> X" using I(2) set_eq by auto
  have "list_all worker_ok (?ws[i := w])" using I(6) i m(2) by (simp add: list_all_length nth_list_update_if)
  moreover have "dom (map_of (del m (worker_msgs (rest s)))) = set (all_jobs (?ws[i := w])) \<union> X"
    using I(3) set_eq d mX by auto
  ultimately show ?thesis
    using d I(2,4,5,7) set_eq len h by (auto simp: pool_inv_def Let_def s' split: if_splits)
qed

definition pool_frame :: "'w bio_ctx \<Rightarrow> 'w bio_ctx \<Rightarrow> bool" where
  "pool_frame s s' \<longleftrightarrow> sched_frame (s\<lparr>rest := rest s'\<rparr>) s'
   \<and> (rest s')\<lparr>thread_pool := [], worker_msgs := [], num_running_async_jobs := 0\<rparr> =
       (rest s)\<lparr>thread_pool := [], worker_msgs := [], num_running_async_jobs := 0\<rparr>
   \<and> length (thread_pool (rest s')) = length (thread_pool (rest s))
   \<and> (\<forall>i < length (thread_pool (rest s)). suffix (in_flight (thread_pool (rest s') ! i)) (in_flight (thread_pool (rest s) ! i)))"

lemma pool_frame_refl [simp]: "pool_frame s s"
  by (simp add: pool_frame_def)

lemma pool_frame_trans: "pool_frame a b \<Longrightarrow> pool_frame b c \<Longrightarrow> pool_frame a c"
  by (auto simp: pool_frame_def sched_frame_def intro: table_frame_trans suffix_order.trans)

text \<open>Nothing changed for the other workers.\<close>

definition only_worker :: "nat \<Rightarrow> 'w bio_ctx \<Rightarrow> 'w bio_ctx \<Rightarrow> bool" where
  "only_worker i s s' \<longleftrightarrow> (\<forall>j. j \<noteq> i \<longrightarrow> thread_pool (rest s') ! j = thread_pool (rest s) ! j)"

lemma only_worker_trans: "only_worker i a b \<Longrightarrow> only_worker i b c \<Longrightarrow> only_worker i a c"
  by (simp add: only_worker_def)

lemma only_worker_refl [simp]: "only_worker i s s"
  by (simp add: only_worker_def)

lemma drain_one_safe:
  assumes sched: "sched_inv_gen Vs Vm cur run s" "emptied Vs" and inv: "pool_inv X s" and i: "i < length (thread_pool (rest s))"
  shows "safe (drain_one i s) (\<lambda>(more, s'). sched_inv_gen Vs Vm cur run s' \<and> pool_inv X s' \<and> pool_frame s s'
    \<and> (case response_queue (thread_pool (rest s) ! i) of
         [] \<Rightarrow> \<not> more \<and> s' = s
       | m # ms \<Rightarrow> more \<and> response_queue (thread_pool (rest s') ! i) = ms
           \<and> (\<forall>msg. map_of (worker_msgs (rest s)) m = Some msg \<longrightarrow> bio_check_signal (run_signal msg) s'))
    \<and> only_worker i s s')"
proof (cases "response_queue (thread_pool (rest s) ! i)")
  case Nil
  then show ?thesis using assms by (simp add: drain_one_def consume_response_def)
next
  case (Cons m ms)
  let ?w = "thread_pool (rest s) ! i"
  let ?w1 = "?w\<lparr>response_queue := ms\<rparr>" and ?w2 = "?w\<lparr>response_queue := ms, load := load ?w - 1\<rparr>"
  let ?s1 = "set_thread_pool ((thread_pool (rest s))[i := ?w1]) s"
  note I = pool_invD [OF inv]
  have "m \<in> set (in_flight ?w)" by (simp add: in_flight_def Cons)
  then obtain msg where msg: "map_of (worker_msgs (rest s)) m = Some msg" using pool_live [OF inv i] by blast
  then have msg1: "map_of (worker_msgs (rest ?s1)) m = Some msg" by simp
  have sched1: "sched_inv_gen Vs Vm cur run ?s1" using sched(1) by simp
  have iss: "issued (handles ?s1) (run_signal msg)" using I(5) [OF msg] by simp
  have fl: "in_flight ?w = m # in_flight ?w2" by (simp add: in_flight_def held_def Cons)
  have ok2: "worker_ok ?w2"
  proof -
    obtain n where n: "length (in_flight ?w2) = n" by simp
    then have "length (in_flight ?w) = Suc n" by (simp add: fl)
    then have "load ?w - 1 = word_of_nat n" using I(6) [OF i] by (simp add: worker_ok_def)
    with n I(6) [OF i] show ?thesis by (simp add: worker_ok_def keeps_running_def Cons)
  qed
  have post: "sched_inv_gen Vs Vm cur run s' \<and> pool_inv X s' \<and> pool_frame s s' \<and> response_queue (thread_pool (rest s') ! i) = ms
      \<and> bio_check_signal (run_signal msg) s' \<and> only_worker i s s'"
    if r: "sched_inv_gen Vs Vm cur run s2" "sched_frame ?s1 s2" "bio_check_signal (run_signal msg) s2"
      and s': "s' = s2\<lparr>rest := (rest s)\<lparr>num_running_async_jobs := num_running_async_jobs (rest s) - 1,
         thread_pool := (thread_pool (rest s))[i := ?w2], worker_msgs := del m (worker_msgs (rest s))\<rparr>\<rparr>" for s2 s'
  proof -
    have "pool_inv X s'"
      by (rule pool_inv_answered [OF inv i fl ok2]) (use sched_frame_issued [OF r(2)] in \<open>auto simp: s'\<close>)
    moreover have "pool_frame s s'"
      using r(2) i fl by (auto simp: pool_frame_def s' sched_frame_def nth_list_update_if suffix_Cons)
    ultimately show ?thesis using r i by (simp add: s' bio_check_signal_def only_worker_def)
  qed
  show ?thesis
    unfolding drain_one_def aget_in [OF i] rbind_simps consume_response_def Cons list.case option.case prod.case Let_def deref_Some [OF msg1]
      if_P [OF I(4) [OF msg]] safe_rbind
  proof (rule safe_mono [OF raise_signal_safe [OF sched1 sched(2) iss]], goal_cases)
    case (1 y)
    obtain woken s2 where y: "y = (woken, s2)" by (cases y)
    with 1 have r: "sched_inv_gen Vs Vm cur run s2" "sched_frame ?s1 s2" "bio_check_signal (run_signal msg) s2" by auto
    have rs: "rest s2 = (rest s)\<lparr>thread_pool := (thread_pool (rest s))[i := ?w1]\<rparr>" using r(2) by (simp add: sched_frame_def)
    show ?case using post [OF r refl] i msg by (simp add: y rs)
  qed
qed

lemma drain_rounds_safe:
  assumes "sched_inv_gen Vs Vm cur run s" "emptied Vs" "pool_inv X s" "i < length (thread_pool (rest s))"
    "length (response_queue (thread_pool (rest s) ! i)) < n"
  shows "safe (drain_rounds n i s) (\<lambda>s'. sched_inv_gen Vs Vm cur run s' \<and> pool_inv X s' \<and> pool_frame s s'
    \<and> response_queue (thread_pool (rest s') ! i) = [] \<and> only_worker i s s')"
  using assms
proof (induction n arbitrary: s)
  case (Suc n)
  show ?case
    unfolding drain_rounds.simps
  proof (rule safe_bind [OF drain_one_safe [OF Suc.prems(1-4)]], goal_cases)
    case (1 x)
    obtain more s1 where x: "x = (more, s1)" by (cases x)
    with 1 have D: "sched_inv_gen Vs Vm cur run s1" "pool_inv X s1" "pool_frame s s1" "only_worker i s s1" by auto
    show ?case
    proof (cases "response_queue (thread_pool (rest s) ! i)")
      case Nil
      then show ?thesis using 1 Suc.prems by (auto simp: x)
    next
      case (Cons m ms)
      then have "more" "response_queue (thread_pool (rest s1) ! i) = ms" using 1 by (simp_all add: x)
      moreover have "i < length (thread_pool (rest s1))" using D(3) Suc.prems(4) by (simp add: pool_frame_def)
      ultimately show ?thesis
        using Suc.IH [OF D(1) Suc.prems(2) D(2)] Suc.prems(5) Cons pool_frame_trans [OF D(3)] only_worker_trans [OF D(4)]
        by (auto simp: x elim!: safe_mono)
    qed
  qed
qed simp

lemma drain_responses_safe:
  assumes "sched_inv_gen Vs Vm cur run s" "emptied Vs" "pool_inv X s" "i < length (thread_pool (rest s))"
  shows "safe (bio_thread_drain_responses i s) (\<lambda>s'. sched_inv_gen Vs Vm cur run s' \<and> pool_inv X s' \<and> pool_frame s s'
    \<and> response_queue (thread_pool (rest s') ! i) = [] \<and> only_worker i s s')"
  unfolding bio_thread_drain_responses_def aget_in [OF assms(4)] rbind_simps by (rule drain_rounds_safe [OF assms]) simp

lemma drain_workers_safe:
  assumes "sched_inv_gen Vs Vm cur run s" "emptied Vs" "pool_inv X s" "\<forall>i \<in> set is. i < length (thread_pool (rest s))"
  shows "safe (drain_workers is s) (\<lambda>s'. sched_inv_gen Vs Vm cur run s' \<and> pool_inv X s' \<and> pool_frame s s')"
  using assms
proof (induction "is" arbitrary: s)
  case (Cons i "is")
  have i: "i < length (thread_pool (rest s))" using Cons.prems(4) by simp
  show ?case
    unfolding drain_workers.simps
  proof (rule safe_bind [OF drain_responses_safe [OF Cons.prems(1-3) i]], goal_cases)
    case (1 s1)
    then have "\<forall>i \<in> set is. i < length (thread_pool (rest s1))" using Cons.prems(4) by (simp add: pool_frame_def)
    with 1 Cons.IH [of s1] Cons.prems(2) show ?case by (auto elim!: safe_mono intro: pool_frame_trans)
  qed
qed simp

lemma thread_update_safe:
  assumes "sched_inv_gen Vs Vm cur run s" "emptied Vs" "pool_inv X s"
  shows "safe (bio_thread_update s) (\<lambda>s'. sched_inv_gen Vs Vm cur run s' \<and> pool_inv X s' \<and> pool_frame s s')"
  unfolding bio_thread_update_def by (rule drain_workers_safe [OF assms]) simp

text \<open>
  The choice of a worker. \<open>fewest n c l ws\<close>: among the first \<open>n\<close> workers, \<open>c\<close> is one with
  the least load \<open>l\<close>, or negative when none has a load below \<open>UINT_MAX\<close>.
\<close>

definition fewest :: "nat \<Rightarrow> int \<Rightarrow> 32 word \<Rightarrow> bio_worker_thread list \<Rightarrow> bool" where
  "fewest n c l ws \<longleftrightarrow> (\<forall>j < n. l \<le> load (ws ! j))
   \<and> (if c < 0 then l = UINT_MAX else nat c < n \<and> load (ws ! nat c) = l)"

lemma choose_worker_safe:
  assumes "sched_inv_gen Vs Vm cur run s" "emptied Vs" "pool_inv X s" "k \<le> length (thread_pool (rest s))"
    "fewest k chosen min_load (thread_pool (rest s))"
  shows "safe (choose_worker [k..<length (thread_pool (rest s))] chosen min_load s) (\<lambda>(c, s').
    sched_inv_gen Vs Vm cur run s' \<and> pool_inv X s' \<and> pool_frame s s'
    \<and> (\<exists>l. fewest (length (thread_pool (rest s'))) c l (thread_pool (rest s'))))"
  using assms
proof (induction "length (thread_pool (rest s)) - k" arbitrary: k chosen min_load s)
  case 0
  then have "k = length (thread_pool (rest s))" by simp
  then show ?case using 0 by auto
next
  case (Suc d)
  then have k: "k < length (thread_pool (rest s))" by simp
  then have up: "[k..<length (thread_pool (rest s))] = k # [Suc k..<length (thread_pool (rest s))]" by (simp add: upt_conv_Cons)
  show ?case
    unfolding up choose_worker.simps
  proof (rule safe_bind [OF drain_responses_safe [OF Suc.prems(1-3) k]], goal_cases)
    case (1 s1)
    then have len: "length (thread_pool (rest s1)) = length (thread_pool (rest s))" and fr: "pool_frame s s1"
      and low: "\<And>j. j < k \<Longrightarrow> thread_pool (rest s1) ! j = thread_pool (rest s) ! j"
      by (simp_all add: pool_frame_def only_worker_def)
    let ?w = "thread_pool (rest s1) ! k"
    have IH: "safe (choose_worker [Suc k..<length (thread_pool (rest s))] c l s1) (\<lambda>(c', s'). sched_inv_gen Vs Vm cur run s' \<and> pool_inv X s' \<and> pool_frame s s'
        \<and> (\<exists>l. fewest (length (thread_pool (rest s'))) c' l (thread_pool (rest s'))))"
      if "fewest (Suc k) c l (thread_pool (rest s1))" for c l
    proof -
      have "d = length (thread_pool (rest s1)) - Suc k" using Suc.hyps(2) len by simp
      from Suc.hyps(1) [OF this _ Suc.prems(2) _ _ that] 1 k len show ?thesis
        by (auto elim!: safe_mono intro: pool_frame_trans [OF fr])
    qed
    have "fewest (Suc k) (int k) (load ?w) (thread_pool (rest s1))" if "load ?w < min_load"
      using Suc.prems(5) that low by (auto simp: fewest_def less_Suc_eq)
    moreover have "fewest (Suc k) chosen min_load (thread_pool (rest s1))" if "\<not> load ?w < min_load"
      using Suc.prems(5) that low by (auto simp: fewest_def less_Suc_eq)
    ultimately show ?case using IH k len by simp
  qed
qed

text \<open>The load of a worker is far from the largest unsigned number, so that a worker is found.\<close>

lemma load_lt_max: "worker_ok w \<Longrightarrow> load w < UINT_MAX"
proof -
  assume w: "worker_ok w"
  have "length (held w) \<le> 1" by (simp add: held_def split: worker_pc.split)
  then have "length (in_flight w) < 2 ^ 32 - 1" using w by (simp add: in_flight_def worker_ok_def)
  moreover from this have "unat (word_of_nat (length (in_flight w)) :: 32 word) = length (in_flight w)"
    by (simp add: unsigned_of_nat take_bit_nat_eq_self)
  moreover have "unat (- 1 :: 32 word) = 2 ^ 32 - 1" by (simp add: unsigned_minus_1_eq_mask mask_eq_exp_minus_1)
  ultimately show ?thesis using w by (simp add: worker_ok_def UINT_MAX_def word_less_nat_alt)
qed

lemma pool_inv_sent:
  assumes inv: "pool_inv X s" and i: "i < length (thread_pool (rest s))" and m: "m \<in> X"
    and w: "in_flight w = in_flight (thread_pool (rest s) ! i) @ [m]" "worker_ok w"
    and s': "thread_pool (rest s') = (thread_pool (rest s))[i := w]" "worker_msgs (rest s') = worker_msgs (rest s)"
      "num_running_async_jobs (rest s') = num_running_async_jobs (rest s) + 1" "handles s' = handles s"
  shows "pool_inv (X - {m}) s'"
proof -
  let ?ws = "thread_pool (rest s)"
  note I = pool_invD [OF inv]
  have ms: "mset (all_jobs (?ws[i := w])) = add_mset m (mset (all_jobs ?ws))"
    using all_jobs_split [OF i, of w] w(1) by simp
  then have set_eq: "set (all_jobs (?ws[i := w])) = insert m (set (all_jobs ?ws))"
    by (metis set_mset_add_mset_insert set_mset_mset)
  have len: "length (all_jobs (?ws[i := w])) = Suc (length (all_jobs ?ws))" using ms by (metis size_add_mset size_mset)
  have "distinct (m # all_jobs ?ws)" using I(1,2) m by auto
  then have d: "distinct (all_jobs (?ws[i := w]))" using ms by (metis mset.simps(2) mset_eq_imp_distinct_iff)
  have "list_all worker_ok (?ws[i := w])" using I(6) i w(2) by (simp add: list_all_length nth_list_update_if)
  then show ?thesis
    using d I(2-5,7) set_eq len m by (auto simp: pool_inv_def Let_def s')
qed

definition job_sent :: "addr \<Rightarrow> 'w bio_ctx \<Rightarrow> 'w bio_ctx \<Rightarrow> bool" where
  "job_sent m s s' \<longleftrightarrow> (\<exists>i < length (thread_pool (rest s)).
     let ws = thread_pool (rest s); ws' = thread_pool (rest s') in
     (\<forall>j < length ws. load (ws ! i) \<le> load (ws ! j)) \<and> in_flight (ws' ! i) = in_flight (ws ! i) @ [m] \<and> only_worker i s s')"

lemma run_async_try_safe:
  assumes "sched_inv_gen Vs Vm cur run s" "emptied Vs" "pool_inv X s" "m \<in> X" "thread_pool (rest s) \<noteq> []"
  shows "safe (run_async_try m s) (\<lambda>(sent, s'). sched_inv_gen Vs Vm cur run s' \<and> (\<forall>h. issued (handles s) h \<longrightarrow> issued (handles s') h)
    \<and> (if sent then pool_inv (X - {m}) s' \<and> (\<exists>s1. pool_inv X s1 \<and> pool_frame s s1 \<and> job_sent m s1 s')
       else pool_inv X s' \<and> pool_frame s s'))"
proof -
  have few: "fewest 0 (-1) UINT_MAX (thread_pool (rest s))" by (simp add: fewest_def)
  show ?thesis
    unfolding run_async_try_def
  proof (rule safe_bind [OF choose_worker_safe [OF assms(1-3) le0 few]], goal_cases)
    case (1 x)
    obtain c s1 where x: "x = (c, s1)" by (cases x)
    with 1 obtain l where inv: "sched_inv_gen Vs Vm cur run s1" "pool_inv X s1" and fr: "pool_frame s s1"
      and f: "fewest (length (thread_pool (rest s1))) c l (thread_pool (rest s1))" by auto
    let ?ws = "thread_pool (rest s1)"
    note I = pool_invD [OF inv(2)]
    have ne: "0 < length ?ws" using fr assms(5) by (simp add: pool_frame_def)
    have iss: "issued (handles s) h \<longrightarrow> issued (handles s1) h" for h
      using fr sched_frame_issued [of "s\<lparr>rest := rest s1\<rparr>" s1 h] by (simp add: pool_frame_def)
    have c0: "\<not> c < 0"
    proof
      assume "c < 0"
      then have "UINT_MAX \<le> load (?ws ! 0)" using f ne by (auto simp: fewest_def)
      with load_lt_max [OF I(6) [OF ne]] show False by simp
    qed
    then have c: "nat c < length ?ws" "\<forall>j < length ?ws. load (?ws ! nat c) \<le> load (?ws ! j)" using f by (auto simp: fewest_def)
    let ?w = "?ws ! nat c"
    show ?case
    proof (cases "produce_request m ?w")
      case None
      then show ?thesis using c c0 inv iss fr by (simp add: x)
    next
      case (Some w)
      then have w: "w = ?w\<lparr>request_queue := request_queue ?w @ [m]\<rparr>" "length (request_queue ?w) < request_size ?w"
        using I(6) [OF c(1)] by (auto simp: produce_request_def worker_ok_def split: if_splits)
      let ?w' = "w\<lparr>load := load w + 1\<rparr>"
      let ?s' = "s1\<lparr>rest := (rest s1)\<lparr>thread_pool := ?ws[nat c := ?w'], num_running_async_jobs := num_running_async_jobs (rest s1) + 1\<rparr>\<rparr>"
      have fl: "in_flight ?w' = in_flight ?w @ [m]" by (simp add: w in_flight_def held_def)
      have sent: "job_sent m s1 ?s'" using c fl by (auto simp: job_sent_def Let_def only_worker_def)
      have len: "length (in_flight ?w') = Suc (length (in_flight ?w))" unfolding fl by simp
      have lw: "load w = load ?w" by (simp add: w)
      have "load ?w' = word_of_nat (length (in_flight ?w'))" unfolding len using I(6) [OF c(1)] lw by (simp add: worker_ok_def)
      then have "worker_ok ?w'" using I(6) [OF c(1)] w by (simp add: worker_ok_def keeps_running_def)
      then have "pool_inv (X - {m}) ?s'" by (intro pool_inv_sent [OF inv(2) c(1) assms(4) fl]) simp_all
      with sent show ?thesis using Some c c0 inv iss fr by (auto simp: x)
    qed
  qed
qed

section \<open>Every job is answered\<close>

text \<open>Up to \<open>n\<close> steps of a worker thread that is not disturbed.\<close>

fun worker_run ::
    "nat \<Rightarrow> (addr \<Rightarrow> addr \<Rightarrow> 'w \<Rightarrow> 'w) \<Rightarrow> ('w \<Rightarrow> 'w) \<Rightarrow> bio_worker_msg store \<Rightarrow> bio_worker_thread \<times> 'w \<Rightarrow> bio_worker_thread \<times> 'w" where
  "worker_run 0 run_task notify msgs (w, wd) = (w, wd)"
| "worker_run (Suc n) run_task notify msgs (w, wd) =
    (case worker_step run_task notify w msgs wd of Some (Inr y) \<Rightarrow> worker_run n run_task notify msgs y | _ \<Rightarrow> (w, wd))"

definition steps_left :: "bio_worker_thread \<Rightarrow> nat" where
  "steps_left w = 4 * length (request_queue w) + (case worker_at w of Acting _ \<Rightarrow> 3 | Answering _ _ \<Rightarrow> 2 | Notifying _ \<Rightarrow> 1 | _ \<Rightarrow> 0)"

lemma worker_step_progress:
  assumes "keeps_running w" "\<forall>m \<in> set (held w). \<exists>msg. map_of msgs m = Some msg" "length (in_flight w) \<le> response_size w" "0 < steps_left w"
  shows "\<exists>w' wd'. worker_step run_task notify w msgs wd = Some (Inr (w', wd')) \<and> steps_left w' < steps_left w"
proof (cases "worker_at w")
  case Taking
  then show ?thesis using assms(4) by (cases "request_queue w") (auto simp: worker_step_def steps_left_def)
next
  case (Acting m)
  then obtain msg where msg: "map_of msgs m = Some msg" using assms(2) by (auto simp: held_def)
  show ?thesis using Acting msg by (cases "msg_type msg") (auto simp: worker_step_def steps_left_def)
next
  case (Answering m running)
  then obtain msg where msg: "map_of msgs m = Some msg" using assms(2) by (auto simp: held_def)
  have "length (response_queue w) < response_size w" using assms(3) Answering by (simp add: in_flight_def held_def)
  then show ?thesis using Answering msg by (auto simp: worker_step_def steps_left_def)
next
  case (Notifying running)
  then show ?thesis by (auto simp: worker_step_def steps_left_def)
next
  case Returned
  then show ?thesis using assms(1) by (simp add: keeps_running_def)
qed

lemma worker_run_answers:
  assumes "steps_left w \<le> n" "keeps_running w" "length (in_flight w) \<le> response_size w"
    "\<forall>m \<in> set (in_flight w). \<exists>msg. map_of msgs m = Some msg"
    "\<And>m msg. map_of msgs m = Some msg \<Longrightarrow> msg_type msg = BIO_WORKER_MSG_RUN"
  shows "response_queue (fst (worker_run n run_task notify msgs (w, wd))) = in_flight w"
  using assms(1-4)
proof (induction n arbitrary: w wd)
  case 0
  then show ?case by (auto simp: steps_left_def in_flight_def held_def keeps_running_def split: worker_pc.splits)
next
  case (Suc n)
  show ?case
  proof (cases "steps_left w = 0")
    case True
    then have "worker_at w = Taking \<and> request_queue w = []"
      using Suc.prems(2) by (auto simp: steps_left_def keeps_running_def split: worker_pc.splits)
    then show ?thesis by (simp add: worker_step_def in_flight_def held_def)
  next
    case False
    have "\<forall>m \<in> set (held w). \<exists>msg. map_of msgs m = Some msg" using Suc.prems(4) by (simp add: in_flight_def)
    then obtain w' wd' where st: "worker_step run_task notify w msgs wd = Some (Inr (w', wd'))" "steps_left w' < steps_left w"
      using worker_step_progress [OF Suc.prems(2) _ Suc.prems(3), of msgs run_task notify wd] False by auto
    note J = after_stepD [OF worker_step_jobs st(1)] after_stepD [OF worker_step_running [OF Suc.prems(2) assms(5)] st(1)]
    have "response_queue (fst (worker_run n run_task notify msgs (w', wd'))) = in_flight w'"
      using st(2) Suc.prems J by (intro Suc.IH) auto
    then show ?thesis using st(1) J by simp
  qed
qed

end
