(* ===== verification/Exactly.thy ===== *)
theory Exactly
  imports Errors Context Running
begin

text \<open>
  The loops around short writes and reads: \<open>bio_fwrite_exactly\<close> and \<open>bio_fread_exactly\<close>
  (\<open>src/include/bio/file.h\<close>), \<open>bio_net_send_exactly\<close> and \<open>bio_net_recv_exactly\<close>
  (\<open>src/include/bio/net.h\<close>) are the same loop over a different function.
\<close>

partial_function (option) write_loop ::
    "(byte list \<Rightarrow> error_ptr \<Rightarrow> 's \<Rightarrow> (nat \<times> error_ptr \<times> 's) run) \<Rightarrow> byte list \<Rightarrow> nat \<Rightarrow> error_ptr \<Rightarrow> 's \<Rightarrow> (nat \<times> error_ptr \<times> 's) run" where
  "write_loop write buf total_bytes_written error s =
    (if total_bytes_written < length buf then
       obind (write (drop total_bytes_written buf) error s) (\<lambda>r.
       if fst r = 0 then ret (total_bytes_written, snd r)
       else write_loop write buf (total_bytes_written + fst r) (fst (snd r)) (snd (snd r)))
     else ret (total_bytes_written, error, s))"

text \<open>The bytes that a read put into the buffer are its result; \<open>got\<close> are those of the rounds before.\<close>

partial_function (option) read_loop ::
    "(nat \<Rightarrow> error_ptr \<Rightarrow> 's \<Rightarrow> (byte list \<times> error_ptr \<times> 's) run) \<Rightarrow> nat \<Rightarrow> byte list \<Rightarrow> error_ptr \<Rightarrow> 's \<Rightarrow> (byte list \<times> error_ptr \<times> 's) run" where
  "read_loop read num_bytes got error s =
    (if length got < num_bytes then
       obind (read (num_bytes - length got) error s) (\<lambda>r.
       if length (fst r) = 0 then ret (got, snd r)
       else read_loop read num_bytes (got @ fst r) (fst (snd r)) (snd (snd r)))
     else ret (got, error, s))"

text \<open>
  Writing: \<open>sink\<close> is what the other side has taken so far. If every write takes a
  prefix of what it is given, the loop ends, and what it reports as written is
  exactly what was taken; it stops early only after a write that took nothing.
\<close>

lemma write_loop_total:
  assumes step: "\<And>bs e s. I s \<Longrightarrow> bs \<noteq> [] \<Longrightarrow> \<exists>n e' s'. write bs e s = ret (n, e', s') \<and> I s' \<and> n \<le> length bs \<and> sink s' = sink s @ take n bs"
    and "I s" "t \<le> length buf"
  shows "\<exists>n e' s'. write_loop write buf t e s = ret (n, e', s') \<and> I s' \<and> t \<le> n \<and> n \<le> length buf \<and> sink s' = sink s @ take (n - t) (drop t buf)
    \<and> (n < length buf \<longrightarrow> (\<exists>e1 s1. I s1 \<and> write (drop n buf) e1 s1 = ret (0, e', s')))"
  using assms(2,3)
proof (induction "length buf - t" arbitrary: t e s rule: less_induct)
  case less
  show ?case
  proof (cases "t < length buf")
    case False
    then show ?thesis using less.prems by (subst write_loop.simps) auto
  next
    case True
    then obtain n e' s' where w: "write (drop t buf) e s = ret (n, e', s')" "I s'" "n \<le> length (drop t buf)" "sink s' = sink s @ take n (drop t buf)"
      using step [OF less.prems(1), of "drop t buf" e] by auto
    show ?thesis
    proof (cases "n = 0")
      case n: True
      then have "write_loop write buf t e s = ret (t, e', s')" using True w(1) by (subst write_loop.simps) simp
      then show ?thesis using w less.prems True n by auto
    next
      case n: False
      have e: "write_loop write buf t e s = write_loop write buf (t + n) e' s'"
        using True w(1) n by (subst write_loop.simps) simp
      have "\<exists>m e2 s2. write_loop write buf (t + n) e' s' = ret (m, e2, s2) \<and> I s2 \<and> t + n \<le> m \<and> m \<le> length buf
          \<and> sink s2 = sink s' @ take (m - (t + n)) (drop (t + n) buf)
          \<and> (m < length buf \<longrightarrow> (\<exists>e1 s1. I s1 \<and> write (drop m buf) e1 s1 = ret (0, e2, s2)))"
        by (rule less.hyps) (use n w(2,3) True in auto)
      moreover have "take n (drop t buf) @ take (m - (t + n)) (drop (t + n) buf) = take (m - t) (drop t buf)" if "t + n \<le> m" for m
        using that take_add [of n "m - (t + n)" "drop t buf"] by (simp add: add.commute)
      ultimately show ?thesis unfolding e w(4) by (metis append.assoc add_leD1)
    qed
  qed
qed

text \<open>
  Reading: \<open>at k s\<close> says that the source with the bytes \<open>content\<close> is at position \<open>k\<close>. If
  every read delivers the next bytes, and none only at the end, the loop ends and
  delivers all the bytes that were asked for, or all there are.
\<close>

lemma read_loop_total:
  assumes step: "\<And>k s. at k s \<Longrightarrow> k < stop \<Longrightarrow> \<exists>bs s'. read (stop - k) e s = ret (bs, e, s') \<and> at (k + length bs) s' \<and> length bs \<le> stop - k
      \<and> bs = take (length bs) (drop k content) \<and> (k < length content \<longrightarrow> bs \<noteq> [])"
    and "at k s" "k \<le> stop"
  shows "\<exists>s'. read_loop read (stop - k + length got) got e s = ret (got @ take (stop - k) (drop k content), e, s')
    \<and> at (k + length (take (stop - k) (drop k content))) s'"
  using assms(2-)
proof (induction "stop - k" arbitrary: k s got rule: less_induct)
  case less
  show ?case
  proof (cases "k < stop")
    case False
    then show ?thesis using less.prems by (subst read_loop.simps) auto
  next
    case True
    then obtain bs s' where r: "read (stop - k) e s = ret (bs, e, s')" "at (k + length bs) s'" "length bs \<le> stop - k"
      "bs = take (length bs) (drop k content)" "k < length content \<Longrightarrow> bs \<noteq> []" using step [OF less.prems(1)] by blast
    have l: "length got < stop - k + length got" "stop - k + length got - length got = stop - k" using True by simp_all
    show ?thesis
    proof (cases "bs = []")
      case b: True
      have "read_loop read (stop - k + length got) got e s = ret (got, e, s')"
        by (subst read_loop.simps) (simp only: l r(1) b if_True obind_simps fst_conv snd_conv list.size if_True refl)
      moreover have "length content \<le> k" using r(5) b by fastforce
      ultimately show ?thesis using r(2) b by simp
    next
      case b: False
      then have "0 < length bs" by simp
      then have b0: "stop - (k + length bs) < stop - k" "k + length bs \<le> stop" using True r(3) by linarith+
      have "stop - (k + length bs) + length (got @ bs) = stop - k + length got" using r(3) by simp
      then have e: "read_loop read (stop - k + length got) got e s = read_loop read (stop - (k + length bs) + length (got @ bs)) (got @ bs) e s'"
        using b by (subst read_loop.simps) (simp only: l r(1) if_True obind_simps fst_conv snd_conv length_0_conv if_False)
      have "length bs + (stop - (k + length bs)) = stop - k" using r(3) by simp
      then have c: "take (stop - k) (drop k content) = bs @ take (stop - (k + length bs)) (drop (k + length bs) content)"
        using take_add [of "length bs" "stop - (k + length bs)" "drop k content"] r(4) by (simp add: add.commute)
      have "\<exists>s2. read_loop read (stop - (k + length bs) + length (got @ bs)) (got @ bs) e s'
          = ret ((got @ bs) @ take (stop - (k + length bs)) (drop (k + length bs) content), e, s2)
          \<and> at (k + length bs + length (take (stop - (k + length bs)) (drop (k + length bs) content))) s2"
        by (rule less.hyps [OF b0(1) r(2) b0(2)])
      then show ?thesis unfolding e c by (simp add: add.assoc)
    qed
  qed
qed

end
