(* ===== verification/LinuxFile.thy ===== *)
theory LinuxFile
  imports Uring ThreadPool Exactly
begin

text \<open>
  Files on Linux (\<open>src/src/linux/file.c\<close> and the helpers of
  \<open>src/include/bio/file.h\<close>). Every function may wait for the kernel, and other
  coroutines run meanwhile; they may close the file that is in use.
\<close>

section \<open>Model\<close>

abbreviation set_file_impls :: "bio_file_impl store \<Rightarrow> 'w bio_ctx \<Rightarrow> 'w bio_ctx" where
  "set_file_impls fs s \<equiv> s\<lparr>rest := (rest s)\<lparr>file_impls := fs\<rparr>\<rparr>"

definition bio_file_from_fd :: "int \<Rightarrow> int \<Rightarrow> bool \<Rightarrow> 'w bio_ctx \<Rightarrow> (bio_handle \<times> 'w bio_ctx) outcome" where
  "bio_file_from_fd fd offset seekable s =
    (let p = bio_malloc s;
         impl = \<lparr>file_fd = fd, file_offset = (if seekable then offset else -1), file_seekable = seekable\<rparr> in
     rbind (bio_make_handle p BIO_FILE_HANDLE (handles s)) (\<lambda>(h, ht).
     Inr (h, set_file_impls (put p impl (file_impls (rest s))) (s\<lparr>handles := ht\<rparr>))))"

definition bio_fs_init :: "'w bio_ctx \<Rightarrow> 'w bio_ctx outcome" where
  "bio_fs_init s =
    rbind (bio_file_from_fd 0 (-1) False s) (\<lambda>(h, s).
    let s = s\<lparr>rest := (rest s)\<lparr>BIO_STDIN := h\<rparr>\<rparr> in
    rbind (bio_file_from_fd 1 (-1) False s) (\<lambda>(h, s).
    let s = s\<lparr>rest := (rest s)\<lparr>BIO_STDOUT := h\<rparr>\<rparr> in
    rbind (bio_file_from_fd 2 (-1) False s) (\<lambda>(h, s).
    Inr (s\<lparr>rest := (rest s)\<lparr>BIO_STDERR := h\<rparr>\<rparr>))))"

text \<open>\<open>bio_free(bio_close_handle(...))\<close>; freeing the null pointer does nothing.\<close>

definition free_file :: "bio_handle \<Rightarrow> 'w bio_ctx \<Rightarrow> 'w bio_ctx outcome" where
  "free_file h s =
    rbind (bio_close_handle h BIO_FILE_HANDLE (handles s)) (\<lambda>(p, ht).
    Inr (set_file_impls (if p = NULL then file_impls (rest s) else del p (file_impls (rest s))) (s\<lparr>handles := ht\<rparr>)))"

definition bio_fs_cleanup :: "'w bio_ctx \<Rightarrow> 'w bio_ctx outcome" where
  "bio_fs_cleanup s =
    rbind (free_file (BIO_STDIN (rest s)) s) (\<lambda>s.
    rbind (free_file (BIO_STDOUT (rest s)) s) (\<lambda>s.
    free_file (BIO_STDERR (rest s)) s))"

definition bio_fdopen :: "int \<Rightarrow> 'w bio_ctx \<Rightarrow> (bool \<times> bio_handle \<times> 'w bio_ctx) outcome" where
  "bio_fdopen fd s = rbind (bio_file_from_fd fd (-1) False s) (\<lambda>(h, s). Inr (True, h, s))"

definition bio_funwrap :: "bio_handle \<Rightarrow> 'w bio_ctx \<Rightarrow> int outcome" where
  "bio_funwrap file s =
    (let p = bio_resolve_handle file BIO_FILE_HANDLE (handles s) in
     if p \<noteq> NULL then rbind (deref (file_impls (rest s)) p) (\<lambda>impl. Inr (file_fd impl)) else Inr (-1))"

text \<open>The flags of \<open>open\<close>, with their values on Linux.\<close>

definition O_RDONLY :: "32 word" where "O_RDONLY = 0"
definition O_WRONLY :: "32 word" where "O_WRONLY = 1"
definition O_RDWR :: "32 word" where "O_RDWR = 2"
definition O_CREAT :: "32 word" where "O_CREAT = 0x40"
definition O_TRUNC :: "32 word" where "O_TRUNC = 0x200"
definition O_APPEND :: "32 word" where "O_APPEND = 0x400"
definition O_CLOEXEC :: "32 word" where "O_CLOEXEC = 0x80000"
definition S_IRUSR_S_IWUSR :: "32 word" where "S_IRUSR_S_IWUSR = 0x180"

definition SEEK_SET :: int where "SEEK_SET = 0"
definition SEEK_CUR :: int where "SEEK_CUR = 1"
definition SEEK_END :: int where "SEEK_END = 2"
definition ENOTSUP :: int where "ENOTSUP = 95"

text \<open>
  The translation of the mode string in \<open>bio_fopen\<close>; \<open>cchar mode i\<close> is \<open>mode[i]\<close> of a
  null-terminated string, which the code never reads past its terminator.
\<close>

definition cchar :: "string \<Rightarrow> nat \<Rightarrow> char" where
  "cchar str i = (if i < length str then str ! i else CHR 0x00)"

unbundle bit_operations_syntax

definition open_flags :: "string \<Rightarrow> 32 word option" where
  "open_flags mode =
    (if cchar mode 0 = CHR ''r'' then
       Some (if cchar mode 1 = CHR ''+'' then O_RDWR else O_RDONLY)
     else if cchar mode 0 = CHR ''w'' then
       Some (if cchar mode 1 = CHR ''+'' then O_RDWR OR O_CREAT OR O_TRUNC else O_WRONLY OR O_CREAT OR O_TRUNC)
     else if cchar mode 0 = CHR ''a'' then
       Some (if cchar mode 1 = CHR ''+'' then O_RDWR OR O_CREAT OR O_APPEND else O_WRONLY OR O_CREAT OR O_APPEND)
     else None)"

text \<open>
  \<open>bio_fs_test_lseek\<close> runs on a worker thread, on the arguments that live on the
  stack of \<open>bio_fopen\<close>: \<open>lseek fd whence\<close> is the system call, \<open>store_result p\<close> and
  \<open>load_result p\<close> write and read the \<open>result\<close> of the arguments at \<open>p\<close>, which both
  threads share.
\<close>

record 'w lseek_calls =
  lseek :: "int \<Rightarrow> int \<Rightarrow> 'w \<Rightarrow> int \<times> 'w"
  store_result :: "addr \<Rightarrow> int \<Rightarrow> 'w \<Rightarrow> 'w"
  load_result :: "addr \<Rightarrow> 'w \<Rightarrow> int"

definition bio_fs_test_lseek :: "'w lseek_calls \<Rightarrow> bio_fs_test_lseek_args store \<Rightarrow> addr \<Rightarrow> 'w \<Rightarrow> 'w outcome" where
  "bio_fs_test_lseek L args p w =
    rbind (deref args p) (\<lambda>a.
    let (result, w) = lseek L (lseek_fd a) (lseek_whence a) w in Inr (store_result L p result w))"

text \<open>The function pointer \<open>bio_fs_test_lseek\<close>.\<close>

definition bio_fs_test_lseek_fn :: addr where
  "bio_fs_test_lseek_fn = 3"

abbreviation set_lseek_args :: "bio_fs_test_lseek_args store \<Rightarrow> 'w bio_ctx \<Rightarrow> 'w bio_ctx" where
  "set_lseek_args as s \<equiv> s\<lparr>rest := (rest s)\<lparr>lseek_args := as\<rparr>\<rparr>"

text \<open>The part of \<open>bio_fopen\<close> that follows a successful \<open>open\<close>.\<close>

definition fopen_wrap ::
    "'w lseek_calls \<Rightarrow> (addr \<Rightarrow> 'w bio_ctx \<Rightarrow> 'w bio_ctx outcome) \<Rightarrow> addr \<Rightarrow> int \<Rightarrow> 32 word \<Rightarrow> 'w bio_ctx \<Rightarrow> (bio_handle \<times> 'w bio_ctx) run" where
  "fopen_wrap L mco_yield self fd flags s =
    (let p = bio_malloc s;
         args = \<lparr>lseek_fd = fd, lseek_whence = (if flags AND O_APPEND > 0 then SEEK_END else SEEK_CUR)\<rparr>;
         s = set_lseek_args (put p args (lseek_args (rest s))) s in
     obind (bio_run_async_and_wait mco_yield self bio_fs_test_lseek_fn p s) (\<lambda>s.
     let result = load_result L p (world s);
         s = set_lseek_args (del p (lseek_args (rest s))) s in
     lift (bio_file_from_fd fd result (result \<ge> 0) s)))"

text \<open>
  The functions that report errors return the file handle or the count, the
  error out-parameter and the context. A file out-parameter is only written on success.
\<close>

definition bio_fopen ::
    "'w uring \<Rightarrow> 'w lseek_calls \<Rightarrow> (addr \<Rightarrow> 'w bio_ctx \<Rightarrow> 'w bio_ctx outcome) \<Rightarrow> addr \<Rightarrow> string \<Rightarrow> string \<Rightarrow> error_ptr \<Rightarrow> 'w bio_ctx \<Rightarrow>
     (bio_handle option \<times> error_ptr \<times> 'w bio_ctx) run" where
  "bio_fopen U L mco_yield self filename mode error s =
    (case open_flags mode of
       None \<Rightarrow> ret (None, bio_set_core_error (''src/linux/file.c'', 100) error BIO_ERROR_INVALID_ARGUMENT, s)
     | Some flags \<Rightarrow>
         obind (do_io U mco_yield self (\<lambda>_. Inr (OP_OPEN filename (flags OR O_CLOEXEC) S_IRUSR_S_IWUSR)) s) (\<lambda>(req, s).
         let fd = req_res req in
         if fd \<ge> 0 then obind (fopen_wrap L mco_yield self fd flags s) (\<lambda>(h, s). ret (Some h, error, s))
         else ret (None, bio_set_errno (''src/linux/file.c'', 116) error (- fd), s)))"

text \<open>
  The end of \<open>bio_fread\<close> and \<open>bio_fwrite\<close>: the object is used again after the wait.
  The offset is advanced by \<open>n\<close>; the sum of a signed and an unsigned number is
  unsigned and wraps around.
\<close>

definition wrap64 :: "int \<Rightarrow> int" where
  "wrap64 x = sint (word_of_int x :: 64 word)"

definition advance_offset :: "addr \<Rightarrow> nat \<Rightarrow> 'w bio_ctx \<Rightarrow> 'w bio_ctx outcome" where
  "advance_offset p n s =
    rbind (deref (file_impls (rest s)) p) (\<lambda>impl.
    if file_seekable impl then
      Inr (set_file_impls (put p (impl\<lparr>file_offset := wrap64 (file_offset impl + int n)\<rparr>) (file_impls (rest s))) s)
    else Inr s)"

definition clamp_size :: "nat \<Rightarrow> nat" where
  "clamp_size sz = (if sz < nat INT32_MAX then sz else nat INT32_MAX)"

definition bio_fwrite ::
    "'w uring \<Rightarrow> (addr \<Rightarrow> 'w bio_ctx \<Rightarrow> 'w bio_ctx outcome) \<Rightarrow> addr \<Rightarrow> bio_handle \<Rightarrow> byte list \<Rightarrow> error_ptr \<Rightarrow> 'w bio_ctx \<Rightarrow>
     (nat \<times> error_ptr \<times> 'w bio_ctx) run" where
  "bio_fwrite U mco_yield self file buf error s =
    (let p = bio_resolve_handle file BIO_FILE_HANDLE (handles s) in
     if p \<noteq> NULL then
       obind (do_io U mco_yield self (\<lambda>s. rbind (deref (file_impls (rest s)) p) (\<lambda>impl.
         Inr (OP_WRITE (file_fd impl) (take (clamp_size (length buf)) buf) (file_offset impl)))) s) (\<lambda>(req, s).
       let (bytes_written, error) = bio_result_to_size (''src/linux/file.c'', 134) (req_res req) error in
       obind (lift (advance_offset p bytes_written s)) (\<lambda>s. ret (bytes_written, error, s)))
     else ret (0, bio_set_core_error (''src/linux/file.c'', 140) error BIO_ERROR_INVALID_ARGUMENT, s))"

text \<open>A read returns what the kernel stored into the buffer.\<close>

definition bio_fread ::
    "'w uring \<Rightarrow> (addr \<Rightarrow> 'w bio_ctx \<Rightarrow> 'w bio_ctx outcome) \<Rightarrow> addr \<Rightarrow> bio_handle \<Rightarrow> nat \<Rightarrow> error_ptr \<Rightarrow> 'w bio_ctx \<Rightarrow>
     (byte list \<times> error_ptr \<times> 'w bio_ctx) run" where
  "bio_fread U mco_yield self file sz error s =
    (let p = bio_resolve_handle file BIO_FILE_HANDLE (handles s) in
     if p \<noteq> NULL then
       obind (do_io U mco_yield self (\<lambda>s. rbind (deref (file_impls (rest s)) p) (\<lambda>impl.
         Inr (OP_READ (file_fd impl) (clamp_size sz) (file_offset impl)))) s) (\<lambda>(req, s).
       let (bytes_read, error) = bio_result_to_size (''src/linux/file.c'', 158) (req_res req) error in
       obind (lift (advance_offset p bytes_read s)) (\<lambda>s. ret (take bytes_read (req_buf req), error, s)))
     else ret ([], bio_set_core_error (''src/linux/file.c'', 164) error BIO_ERROR_INVALID_ARGUMENT, s))"

definition bio_fflush ::
    "'w uring \<Rightarrow> (addr \<Rightarrow> 'w bio_ctx \<Rightarrow> 'w bio_ctx outcome) \<Rightarrow> addr \<Rightarrow> bio_handle \<Rightarrow> error_ptr \<Rightarrow> 'w bio_ctx \<Rightarrow> (bool \<times> error_ptr \<times> 'w bio_ctx) run" where
  "bio_fflush U mco_yield self file error s =
    (let p = bio_resolve_handle file BIO_FILE_HANDLE (handles s) in
     if p \<noteq> NULL then
       obind (do_io U mco_yield self (\<lambda>s. rbind (deref (file_impls (rest s)) p) (\<lambda>impl. Inr (OP_FSYNC (file_fd impl)))) s) (\<lambda>(req, s).
       let (ok, error) = bio_result_to_bool (''src/linux/file.c'', 176) (req_res req) error in ret (ok, error, s))
     else ret (False, bio_set_core_error (''src/linux/file.c'', 178) error BIO_ERROR_INVALID_ARGUMENT, s))"

definition bio_fclose ::
    "'w uring \<Rightarrow> (addr \<Rightarrow> 'w bio_ctx \<Rightarrow> 'w bio_ctx outcome) \<Rightarrow> addr \<Rightarrow> bio_handle \<Rightarrow> error_ptr \<Rightarrow> 'w bio_ctx \<Rightarrow> (bool \<times> error_ptr \<times> 'w bio_ctx) run" where
  "bio_fclose U mco_yield self file error s =
    obind (lift (bio_close_handle file BIO_FILE_HANDLE (handles s))) (\<lambda>(p, ht).
    let s = s\<lparr>handles := ht\<rparr> in
    if p \<noteq> NULL then
      obind (lift (deref (file_impls (rest s)) p)) (\<lambda>impl.
      let fd = file_fd impl; s = set_file_impls (del p (file_impls (rest s))) s in
      obind (bio_io_close U mco_yield self fd s) (\<lambda>(result, s).
      let (ok, error) = bio_result_to_bool (''src/linux/file.c'', 190) result error in ret (ok, error, s)))
    else ret (False, bio_set_core_error (''src/linux/file.c'', 192) error BIO_ERROR_INVALID_ARGUMENT, s))"

definition bio_fseek :: "bio_handle \<Rightarrow> int \<Rightarrow> int \<Rightarrow> error_ptr \<Rightarrow> 'w bio_ctx \<Rightarrow> (bool \<times> error_ptr \<times> 'w bio_ctx) outcome" where
  "bio_fseek file offset origin error s =
    (let p = bio_resolve_handle file BIO_FILE_HANDLE (handles s) in
     if p \<noteq> NULL then
       rbind (deref (file_impls (rest s)) p) (\<lambda>impl.
       if file_seekable impl then
         (if origin = SEEK_SET then
            Inr (True, error, set_file_impls (put p (impl\<lparr>file_offset := offset\<rparr>) (file_impls (rest s))) s)
          else if origin = SEEK_CUR then
            rbind (check64 (file_offset impl + offset)) (\<lambda>off.
            Inr (True, error, set_file_impls (put p (impl\<lparr>file_offset := off\<rparr>) (file_impls (rest s))) s))
          else Inr (False, bio_set_errno (''src/linux/file.c'', 214) error ENOTSUP, s))
       else Inr (False, bio_set_errno (''src/linux/file.c'', 218) error ENOTSUP, s))
     else Inr (False, bio_set_core_error (''src/linux/file.c'', 222) error BIO_ERROR_INVALID_ARGUMENT, s))"

definition bio_ftell :: "bio_handle \<Rightarrow> error_ptr \<Rightarrow> 'w bio_ctx \<Rightarrow> (int \<times> error_ptr) outcome" where
  "bio_ftell file error s =
    (let p = bio_resolve_handle file BIO_FILE_HANDLE (handles s) in
     if p \<noteq> NULL then
       rbind (deref (file_impls (rest s)) p) (\<lambda>impl.
       if file_seekable impl then Inr (file_offset impl, error)
       else Inr (-1, bio_set_errno (''src/linux/file.c'', 237) error ENOTSUP))
     else Inr (-1, bio_set_core_error (''src/linux/file.c'', 241) error BIO_ERROR_INVALID_ARGUMENT))"

text \<open>
  \<open>bio_fstat\<close>; the size is written on success only. On an invalid handle the
  function returns \<open>-1\<close> as a \<open>bool\<close>, that is \<open>true\<close>.
\<close>

definition bio_fstat ::
    "'w uring \<Rightarrow> (addr \<Rightarrow> 'w bio_ctx \<Rightarrow> 'w bio_ctx outcome) \<Rightarrow> addr \<Rightarrow> bio_handle \<Rightarrow> error_ptr \<Rightarrow> 'w bio_ctx \<Rightarrow>
     (bool \<times> nat option \<times> error_ptr \<times> 'w bio_ctx) run" where
  "bio_fstat U mco_yield self file error s =
    (let p = bio_resolve_handle file BIO_FILE_HANDLE (handles s) in
     if p \<noteq> NULL then
       obind (do_io U mco_yield self (\<lambda>s. rbind (deref (file_impls (rest s)) p) (\<lambda>impl. Inr (OP_STATX (file_fd impl)))) s) (\<lambda>(req, s).
       if req_res req = 0 then ret (True, Some (req_stx_size req), error, s)
       else let (ok, error) = bio_result_to_bool (''src/linux/file.c'', 258) (req_res req) error in ret (ok, None, error, s))
     else ret (True, None, bio_set_core_error (''src/linux/file.c'', 261) error BIO_ERROR_INVALID_ARGUMENT, s))"

definition bio_fwrite_exactly ::
    "'w uring \<Rightarrow> (addr \<Rightarrow> 'w bio_ctx \<Rightarrow> 'w bio_ctx outcome) \<Rightarrow> addr \<Rightarrow> bio_handle \<Rightarrow> byte list \<Rightarrow> error_ptr \<Rightarrow> 'w bio_ctx \<Rightarrow>
     (nat \<times> error_ptr \<times> 'w bio_ctx) run" where
  "bio_fwrite_exactly U mco_yield self file buf = write_loop (bio_fwrite U mco_yield self file) buf 0"

definition bio_fread_exactly ::
    "'w uring \<Rightarrow> (addr \<Rightarrow> 'w bio_ctx \<Rightarrow> 'w bio_ctx outcome) \<Rightarrow> addr \<Rightarrow> bio_handle \<Rightarrow> nat \<Rightarrow> error_ptr \<Rightarrow> 'w bio_ctx \<Rightarrow>
     (byte list \<times> error_ptr \<times> 'w bio_ctx) run" where
  "bio_fread_exactly U mco_yield self file num_bytes = read_loop (bio_fread U mco_yield self file) num_bytes []"

section \<open>Positions\<close>

text \<open>The file behind a handle.\<close>

definition file_at :: "addr \<Rightarrow> bio_handle \<Rightarrow> 'w bio_ctx \<Rightarrow> bio_file_impl \<Rightarrow> bool" where
  "file_at p h s f \<longleftrightarrow>
     p \<noteq> NULL \<and> bio_resolve_handle h BIO_FILE_HANDLE (handles s) = p \<and> map_of (file_impls (rest s)) p = Some f"

lemma file_atD:
  assumes "file_at p h s f"
  shows "bio_resolve_handle h BIO_FILE_HANDLE (handles s) = p" "p \<noteq> NULL" "map_of (file_impls (rest s)) p = Some f"
  using assms by (simp_all add: file_at_def)

text \<open>What \<open>bio_fseek\<close> does to a seekable file, and what \<open>bio_ftell\<close> tells of it.\<close>

lemma fseek_live:
  assumes "file_at p h s f" "file_seekable f"
  shows "bio_fseek h offset SEEK_SET e s = Inr (True, e, set_file_impls (put p (f\<lparr>file_offset := offset\<rparr>) (file_impls (rest s))) s)"
    "bio_fseek h offset SEEK_CUR e s = rbind (check64 (file_offset f + offset)) (\<lambda>off.
       Inr (True, e, set_file_impls (put p (f\<lparr>file_offset := off\<rparr>) (file_impls (rest s))) s))"
    "bio_ftell h e s = Inr (file_offset f, e)"
  using file_atD [OF assms(1)] assms(2) by (simp_all add: bio_fseek_def bio_ftell_def SEEK_SET_def SEEK_CUR_def)

lemma file_at_put [simp]:
  "file_at p h s f \<Longrightarrow> file_at p h (set_file_impls (put p g (file_impls (rest s))) s) g' \<longleftrightarrow> g' = g"
  by (auto simp: file_at_def)

section \<open>Reading and writing\<close>

text \<open>The requests of \<open>bio_fread\<close> and \<open>bio_fwrite\<close>.\<close>

abbreviation read_req :: "addr \<Rightarrow> nat \<Rightarrow> 'w bio_ctx \<Rightarrow> io_op outcome" where
  "read_req p n \<equiv> \<lambda>s. rbind (deref (file_impls (rest s)) p) (\<lambda>impl. Inr (OP_READ (file_fd impl) (clamp_size n) (file_offset impl)))"

abbreviation write_req :: "addr \<Rightarrow> byte list \<Rightarrow> 'w bio_ctx \<Rightarrow> io_op outcome" where
  "write_req p buf \<equiv> \<lambda>s. rbind (deref (file_impls (rest s)) p) (\<lambda>impl.
     Inr (OP_WRITE (file_fd impl) (take (clamp_size (length buf)) buf) (file_offset impl)))"

definition advanced :: "nat \<Rightarrow> bio_file_impl \<Rightarrow> bio_file_impl" where
  "advanced n f = (if file_seekable f then f\<lparr>file_offset := wrap64 (file_offset f + int n)\<rparr> else f)"

lemma advance_live:
  "map_of (file_impls (rest s)) p = Some f \<Longrightarrow>
   advance_offset p n s = Inr (set_file_impls (put p (advanced n f) (file_impls (rest s))) s)"
  by (simp add: advance_offset_def advanced_def)

lemma advance_freed: "map_of (file_impls (rest s)) p = None \<Longrightarrow> advance_offset p n s = Inl DanglingPointer"
  by (simp add: advance_offset_def deref_def)

text \<open>
  A read whose file is still open when the kernel has answered: a negative answer
  is reported as an error and moves nothing, any other gives the bytes and moves
  the position by their number.
\<close>

lemma fread_live:
  assumes "file_at p h s f" "do_io U mco_yield self (read_req p n) s = ret (req, s1)" "map_of (file_impls (rest s1)) p = Some g"
  shows "bio_fread U mco_yield self h n e s =
    (if req_res req < 0
     then ret ([], bio_set_errno (''src/linux/file.c'', 158) e (- req_res req), set_file_impls (put p (advanced 0 g) (file_impls (rest s1))) s1)
     else ret (take (nat (req_res req)) (req_buf req), e,
            set_file_impls (put p (advanced (nat (req_res req)) g) (file_impls (rest s1))) s1))"
  using file_atD [OF assms(1)] by (simp add: bio_fread_def Let_def assms(2) advance_live [OF assms(3)])

lemma fread_freed:
  assumes "file_at p h s f" "do_io U mco_yield self (read_req p n) s = ret (req, s1)" "map_of (file_impls (rest s1)) p = None"
  shows "bio_fread U mco_yield self h n e s = Some (Inl DanglingPointer)"
  using file_atD [OF assms(1)]
  by (auto simp: bio_fread_def Let_def assms(2) advance_freed [OF assms(3)] split: prod.split)

lemma fwrite_live:
  assumes "file_at p h s f" "do_io U mco_yield self (write_req p buf) s = ret (req, s1)" "map_of (file_impls (rest s1)) p = Some g"
  shows "bio_fwrite U mco_yield self h buf e s =
    (if req_res req < 0
     then ret (0, bio_set_errno (''src/linux/file.c'', 134) e (- req_res req), set_file_impls (put p (advanced 0 g) (file_impls (rest s1))) s1)
     else ret (nat (req_res req), e, set_file_impls (put p (advanced (nat (req_res req)) g) (file_impls (rest s1))) s1))"
  using file_atD [OF assms(1)] by (simp add: bio_fwrite_def Let_def assms(2) advance_live [OF assms(3)])

lemma fwrite_freed:
  assumes "file_at p h s f" "do_io U mco_yield self (write_req p buf) s = ret (req, s1)" "map_of (file_impls (rest s1)) p = None"
  shows "bio_fwrite U mco_yield self h buf e s = Some (Inl DanglingPointer)"
  using file_atD [OF assms(1)]
  by (auto simp: bio_fwrite_def Let_def assms(2) advance_freed [OF assms(3)] split: prod.split)

section \<open>The life of a file\<close>

text \<open>The files of a context: every live file handle names one, and every file has its handle.\<close>

definition file_world :: "addr list \<Rightarrow> addr option \<Rightarrow> 'w bio_ctx \<Rightarrow> bool" where
  "file_world cur run s \<longleftrightarrow> loop_inv cur run s \<and> owned BIO_FILE_HANDLE (handles s) (file_impls (rest s))"

lemma loop_inv_handle:
  assumes "loop_inv cur run s" "made (handles s) h p t ht \<or> closed (handles s) h p t ht" "t \<notin> sched_tags"
  shows "loop_inv cur run (s\<lparr>handles := ht\<rparr>)"
proof -
  have f: "table_frame {t} (handles s) ht" "handle_inv ht"
    using assms(2) made_frame [of "handles s" h p t ht "{t}"] closed_frame [of "handles s" h p t ht "{t}"] by (auto simp: made_def closed_def)
  then have "sched_inv cur run (s\<lparr>handles := ht\<rparr>)" "\<forall>k. issued (handles s) k \<longrightarrow> issued ht k"
    using sched_inv_table [of Map.empty Map.empty cur run s ht "{t}"] assms(1,3)
    by (auto simp: loop_inv_def table_frame_def)
  then show ?thesis using assms(1) by (auto simp: loop_inv_def timer_inv_def timers_of_def)
qed

lemma file_from_fd_safe:
  assumes inv: "file_world cur run s"
  shows "safe (bio_file_from_fd fd off sk s) (\<lambda>(h, s'). file_world cur run s' \<and> issued (handles s') h
    \<and> (\<exists>p. file_at p h s' \<lparr>file_fd = fd, file_offset = (if sk then off else -1), file_seekable = sk\<rparr>)
    \<and> (\<forall>k q g. issued (handles s) k \<longrightarrow> file_at q k s g \<longrightarrow> file_at q k s' g)
    \<and> (\<forall>k. issued (handles s) k \<longrightarrow> issued (handles s') k)
    \<and> rest s' = (rest s)\<lparr>file_impls := file_impls (rest s')\<rparr>)"
proof -
  have L: "loop_inv cur run s" and ow: "owned BIO_FILE_HANDLE (handles s) (file_impls (rest s))" using inv by (simp_all add: file_world_def)
  have I: "sched_inv cur run s" using L by (simp add: loop_inv_def)
  note hi = sched_inv_handles [OF I] and fresh = bio_malloc_fresh [OF sched_invD(1) [OF I]]
  let ?f = "\<lparr>file_fd = fd, file_offset = (if sk then off else -1), file_seekable = sk\<rparr>"
  let ?s' = "\<lambda>ht. set_file_impls (put (bio_malloc s) ?f (file_impls (rest s))) (s\<lparr>handles := ht\<rparr>)"
  have post: "file_world cur run (?s' ht) \<and> issued ht h \<and> file_at (bio_malloc s) h (?s' ht) ?f
      \<and> (\<forall>k q g. issued (handles s) k \<longrightarrow> file_at q k s g \<longrightarrow> file_at q k (?s' ht) g) \<and> (\<forall>k. issued (handles s) k \<longrightarrow> issued ht k)"
    if m: "made (handles s) h (bio_malloc s) BIO_FILE_HANDLE ht" for h ht
  proof -
    have "loop_inv cur run (s\<lparr>handles := ht\<rparr>)" using loop_inv_handle [OF L disjI1 [OF m]] by (simp add: sched_tags_def)
    moreover have "owned BIO_FILE_HANDLE ht (put (bio_malloc s) ?f (file_impls (rest s)))" by (rule owned_make [OF ow m fresh(10,1)])
    moreover have "file_at q k (?s' ht) g" if "issued (handles s) k" "file_at q k s g" for k q g
    proof -
      have "k \<noteq> h" using m that(1) by (auto simp: made_def)
      then have "bio_resolve_handle k BIO_FILE_HANDLE ht = q"
        using m that hi by (auto simp: file_at_def made_def resolve_lookup split: option.splits if_splits)
      moreover have "q \<noteq> bio_malloc s" using that(2) fresh(10) by (auto simp: file_at_def)
      ultimately show ?thesis using that(2) by (simp add: file_at_def)
    qed
    ultimately show ?thesis using m made_resolve [OF m] fresh(1) by (auto simp: file_world_def file_at_def made_def)
  qed
  show ?thesis
    unfolding bio_file_from_fd_def Let_def
  proof (rule safe_bind [OF make_safe [OF hi]], goal_cases)
    case (1 x)
    obtain h ht where x: "x = (h, ht)" by (cases x)
    from 1 have "made (handles s) h (bio_malloc s) BIO_FILE_HANDLE ht" by (simp add: x)
    note p = post [OF this]
    have "handles (?s' ht) = ht" "rest (?s' ht) = (rest s)\<lparr>file_impls := file_impls (rest (?s' ht))\<rparr>" by simp_all
    then show ?case unfolding x prod.case safe_simps using p by metis
  qed
qed

text \<open>The three standard files are open after \<open>bio_fs_init\<close>.\<close>

lemma fs_init_safe:
  assumes inv: "file_world cur run s"
  shows "safe (bio_fs_init s) (\<lambda>s'. file_world cur run s'
    \<and> (\<exists>p f. file_at p (BIO_STDIN (rest s')) s' f \<and> file_fd f = 0)
    \<and> (\<exists>p f. file_at p (BIO_STDOUT (rest s')) s' f \<and> file_fd f = 1)
    \<and> (\<exists>p f. file_at p (BIO_STDERR (rest s')) s' f \<and> file_fd f = 2)
    \<and> exit_handlers (rest s') = exit_handlers (rest s) \<and> io_reqs (rest s') = io_reqs (rest s))"
proof -
  have fw: "file_world cur run (s\<lparr>rest := (rest s)\<lparr>BIO_STDIN := h\<rparr>\<rparr>) = file_world cur run s"
    "file_world cur run (s\<lparr>rest := (rest s)\<lparr>BIO_STDOUT := h\<rparr>\<rparr>) = file_world cur run s"
    "file_world cur run (s\<lparr>rest := (rest s)\<lparr>BIO_STDERR := h\<rparr>\<rparr>) = file_world cur run s" for s :: "'w bio_ctx" and h
    by (simp_all add: file_world_def)
  have fa: "file_at p k (s\<lparr>rest := (rest s)\<lparr>BIO_STDIN := h\<rparr>\<rparr>) f = file_at p k s f"
    "file_at p k (s\<lparr>rest := (rest s)\<lparr>BIO_STDOUT := h\<rparr>\<rparr>) f = file_at p k s f"
    "file_at p k (s\<lparr>rest := (rest s)\<lparr>BIO_STDERR := h\<rparr>\<rparr>) f = file_at p k s f" for s :: "'w bio_ctx" and h p k f
    by (simp_all add: file_at_def)
  show ?thesis
    unfolding bio_fs_init_def
  proof (rule safe_bind [OF file_from_fd_safe [OF inv]], goal_cases)
    case (1 x)
    then obtain h1 s1 p1 f1 where x: "x = (h1, s1)" and w1: "file_world cur run s1" "issued (handles s1) h1" "file_at p1 h1 s1 f1" "file_fd f1 = 0"
      and r1: "rest s1 = (rest s)\<lparr>file_impls := file_impls (rest s1)\<rparr>" by (cases x) fastforce
    let ?s1 = "s1\<lparr>rest := (rest s1)\<lparr>BIO_STDIN := h1\<rparr>\<rparr>"
    have w1': "file_world cur run ?s1" using w1(1) by (simp add: fw)
    show ?case
      unfolding x prod.case Let_def
    proof (rule safe_bind [OF file_from_fd_safe [OF w1']], goal_cases)
      case (1 y)
      then obtain h2 s2 p2 f2 where y: "y = (h2, s2)" and w2: "file_world cur run s2" "issued (handles s2) h2" "file_at p2 h2 s2 f2" "file_fd f2 = 1"
        and k2: "\<And>k q g. issued (handles s1) k \<Longrightarrow> file_at q k s1 g \<Longrightarrow> file_at q k s2 g" "\<And>k. issued (handles s1) k \<Longrightarrow> issued (handles s2) k"
        and r2: "rest s2 = (rest ?s1)\<lparr>file_impls := file_impls (rest s2)\<rparr>" by (cases y) (fastforce simp: fa)
      let ?s2 = "s2\<lparr>rest := (rest s2)\<lparr>BIO_STDOUT := h2\<rparr>\<rparr>"
      have w2': "file_world cur run ?s2" using w2(1) by (simp add: fw)
      show ?case
        unfolding y prod.case Let_def
      proof (rule safe_bind [OF file_from_fd_safe [OF w2']], goal_cases)
        case (1 z)
        then obtain h3 s3 p3 f3 where z: "z = (h3, s3)" and w3: "file_world cur run s3" "file_at p3 h3 s3 f3" "file_fd f3 = 2"
          and k3: "\<And>k q g. issued (handles s2) k \<Longrightarrow> file_at q k s2 g \<Longrightarrow> file_at q k s3 g"
          and r3: "rest s3 = (rest ?s2)\<lparr>file_impls := file_impls (rest s3)\<rparr>" by (cases z) (fastforce simp: fa)
        have "file_at p1 h1 s3 f1" "file_at p2 h2 s3 f2" using k3 k2 w1 w2 by blast+
        moreover have "BIO_STDIN (rest s3) = h1" "BIO_STDOUT (rest s3) = h2" "exit_handlers (rest s3) = exit_handlers (rest s)" "io_reqs (rest s3) = io_reqs (rest s)"
          using arg_cong [OF r3, of BIO_STDIN] arg_cong [OF r2, of BIO_STDIN] arg_cong [OF r3, of BIO_STDOUT]
            arg_cong [OF r3, of exit_handlers] arg_cong [OF r2, of exit_handlers] arg_cong [OF r1, of exit_handlers]
            arg_cong [OF r3, of io_reqs] arg_cong [OF r2, of io_reqs] arg_cong [OF r1, of io_reqs] by simp_all
        ultimately show ?case using w1(4) w2(4) w3 by (auto simp: z fw fa)
      qed
    qed
  qed
qed

lemma file_from_fd_frame: "bio_file_from_fd fd off sk s = Inr (h, s') \<Longrightarrow> current_ready_coros s' = current_ready_coros s"
  by (auto simp: bio_file_from_fd_def Let_def rbind_eq_Inr)

lemma fs_init_frame: "bio_fs_init s = Inr s' \<Longrightarrow> current_ready_coros s' = current_ready_coros s"
  by (auto simp: bio_fs_init_def Let_def rbind_eq_Inr dest!: file_from_fd_frame)

end
