(* ===== verification/FileLogger.thy ===== *)
theory FileLogger
  imports Logging LinuxFile
begin

text \<open>
  The logger that writes to a file (\<open>src/src/logging/file.c\<close>,
  \<open>src/include/bio/logging/file.h\<close>).
\<close>

section \<open>Model\<close>

definition BIO_LOG_LEVEL_LABEL :: "bio_log_level \<Rightarrow> string" where
  "BIO_LOG_LEVEL_LABEL l = (case l of
     BIO_LOG_LEVEL_TRACE \<Rightarrow> ''TRACE'' | BIO_LOG_LEVEL_DEBUG \<Rightarrow> ''DEBUG'' | BIO_LOG_LEVEL_INFO \<Rightarrow> ''INFO ''
   | BIO_LOG_LEVEL_WARN \<Rightarrow> ''WARN '' | BIO_LOG_LEVEL_ERROR \<Rightarrow> ''ERROR'' | BIO_LOG_LEVEL_FATAL \<Rightarrow> ''FATAL'')"

definition BIO_LOG_LEVEL_COLOR :: "bio_log_level \<Rightarrow> string" where
  "BIO_LOG_LEVEL_COLOR l = (case l of
     BIO_LOG_LEVEL_TRACE \<Rightarrow> ''[94m'' | BIO_LOG_LEVEL_DEBUG \<Rightarrow> ''[36m'' | BIO_LOG_LEVEL_INFO \<Rightarrow> ''[32m''
   | BIO_LOG_LEVEL_WARN \<Rightarrow> ''[33m'' | BIO_LOG_LEVEL_ERROR \<Rightarrow> ''[31m'' | BIO_LOG_LEVEL_FATAL \<Rightarrow> ''[35m'')"

definition BIO_LOG_TERM_CODE :: char where
  "BIO_LOG_TERM_CODE = CHR 0x1B"

definition BIO_LOG_TERM_RESET :: string where
  "BIO_LOG_TERM_RESET = ''[0m''"

text \<open>The \<open>%d\<close> conversion.\<close>

fun nat_decimal :: "nat \<Rightarrow> string" where
  "nat_decimal n = (if n < 10 then [char_of (48 + n)] else nat_decimal (n div 10) @ [char_of (48 + n mod 10)])"

declare nat_decimal.simps [simp del]

definition decimal :: "int \<Rightarrow> string" where
  "decimal i = (if i < 0 then CHR ''-'' # nat_decimal (nat (- i)) else nat_decimal (nat i))"

text \<open>
  The text of a line, for the four format strings of \<open>bio_log_to_file\<close>; the name is
  \<open>None\<close> for a coroutine without one.
\<close>

definition log_text :: "bool \<Rightarrow> bio_log_ctx \<Rightarrow> string option \<Rightarrow> string \<Rightarrow> string" where
  "log_text with_colors ctx cname msg =
    (if with_colors
     then ''['' @ [BIO_LOG_TERM_CODE] @ BIO_LOG_LEVEL_COLOR (log_level ctx) @ BIO_LOG_LEVEL_LABEL (log_level ctx)
          @ [BIO_LOG_TERM_CODE] @ BIO_LOG_TERM_RESET @ '']''
     else ''['' @ BIO_LOG_LEVEL_LABEL (log_level ctx) @ '']'')
    @ ''['' @ log_file ctx @ '':'' @ decimal (log_line ctx) @ '']<''
    @ (case cname of
         Some name \<Rightarrow> name
       | None \<Rightarrow> decimal (index (log_coro ctx)) @ '':'' @ decimal (gen (log_coro ctx)))
    @ ''>: '' @ msg @ ''\<newline>''"

abbreviation set_file_loggers :: "bio_file_logger_data store \<Rightarrow> 'w bio_ctx \<Rightarrow> 'w bio_ctx" where
  "set_file_loggers x s \<equiv> s\<lparr>rest := (rest s)\<lparr>file_loggers := x\<rparr>\<rparr>"

definition string_bytes :: "string \<Rightarrow> byte list" where
  "string_bytes = map of_char"

text \<open>
  \<open>name_at p\<close> is the string at the address that the application gave to
  \<open>bio_set_coro_name\<close>.
\<close>

definition bio_log_to_file ::
    "'w uring \<Rightarrow> (addr \<Rightarrow> string) \<Rightarrow> (addr \<Rightarrow> 'w bio_ctx \<Rightarrow> 'w bio_ctx outcome) \<Rightarrow> addr \<Rightarrow> addr \<Rightarrow> bio_log_ctx option \<Rightarrow> string \<Rightarrow>
     'w bio_ctx \<Rightarrow> 'w bio_ctx run" where
  "bio_log_to_file U name_at mco_yield self p ctx msg s =
    obind (lift (deref (file_loggers (rest s)) p)) (\<lambda>d.
    case ctx of
      Some ctx \<Rightarrow>
        obind (lift (bio_get_coro_name (log_coro ctx) s)) (\<lambda>name.
        let cname = (if name = NULL then None else Some (name_at name)) in
        obind (lift (bio_fmt (Some (log_text (fl_with_colors d) ctx cname msg)) (fl_format_buf d))) (\<lambda>(msg_len, buf).
        let s = set_file_loggers (put p (d\<lparr>fl_format_buf := buf\<rparr>) (file_loggers (rest s))) s in
        case fmt_mem buf of
          None \<Rightarrow> lift (Inl DanglingPointer)
        | Some cs \<Rightarrow>
            obind (bio_fwrite_exactly U mco_yield self (fl_file d) (string_bytes (take (nat msg_len) cs)) None s) (\<lambda>(_, _, s). ret s)))
    | None \<Rightarrow> ret (set_file_loggers (del p (file_loggers (rest s))) s))"

text \<open>The function pointer \<open>bio_log_to_file\<close>.\<close>

definition bio_log_to_file_fn :: addr where
  "bio_log_to_file_fn = 6"

definition bio_add_file_logger ::
    "log_layout \<Rightarrow> ('w \<Rightarrow> int \<times> 'w) \<Rightarrow> (addr \<Rightarrow> 'w \<Rightarrow> 'w) \<Rightarrow> (addr \<Rightarrow> 'w bio_ctx \<Rightarrow> 'w bio_ctx outcome) \<Rightarrow> addr \<Rightarrow> bio_log_level \<Rightarrow> bio_handle \<Rightarrow> bool \<Rightarrow>
     'w bio_ctx \<Rightarrow> (bio_handle \<times> 'w bio_ctx) outcome" where
  "bio_add_file_logger Y clk mco_create mco_yield self level file with_colors s =
    (let p = bio_malloc s;
         d = \<lparr>fl_file = file, fl_with_colors = with_colors, fl_format_buf = \<lparr>fmt_mem = None, fmt_len = 0\<rparr>\<rparr>;
         s = set_file_loggers (put p d (file_loggers (rest s))) s in
     bio_add_logger Y clk mco_create mco_yield self level bio_log_to_file_fn p s)"

end
