(* ===== verification/NetAddr.thy ===== *)
theory NetAddr
  imports Prelude Context
begin

text \<open>
  Network addresses: the types of \<open>src/include/bio/net.h\<close> and the comparison of
  \<open>src/src/net.c\<close>.
\<close>

section \<open>Model\<close>

text \<open>
  \<open>bio_addr_t\<close>: the tag of the union with the member that belongs to it. An IPv4
  address has 4 bytes, an IPv6 address 16; a name is an array of 256 bytes of
  which the first \<open>len\<close> count.
\<close>

datatype bio_addr =
    BIO_ADDR_IPV4 "byte list"
  | BIO_ADDR_IPV6 "byte list"
  | BIO_ADDR_NAMED nat "byte list"

definition addr_type :: "bio_addr \<Rightarrow> int" where
  "addr_type a = (case a of BIO_ADDR_IPV4 _ \<Rightarrow> 0 | BIO_ADDR_IPV6 _ \<Rightarrow> 1 | BIO_ADDR_NAMED _ _ \<Rightarrow> 2)"

datatype bio_socket_type = BIO_SOCKET_STREAM | BIO_SOCKET_DATAGRAM

type_synonym bio_port = "16 word"

definition BIO_PORT_ANY :: bio_port where
  "BIO_PORT_ANY = 0"

definition BIO_ADDR_IPV4_ANY :: bio_addr where
  "BIO_ADDR_IPV4_ANY = BIO_ADDR_IPV4 [0, 0, 0, 0]"

definition BIO_ADDR_IPV4_LOOPBACK :: bio_addr where
  "BIO_ADDR_IPV4_LOOPBACK = BIO_ADDR_IPV4 [127, 0, 0, 1]"

definition BIO_ADDR_IPV6_ANY :: bio_addr where
  "BIO_ADDR_IPV6_ANY = BIO_ADDR_IPV6 (replicate 16 0)"

definition BIO_ADDR_IPV6_LOOPBACK :: bio_addr where
  "BIO_ADDR_IPV6_LOOPBACK = BIO_ADDR_IPV6 (replicate 15 0 @ [1])"

text \<open>
  \<open>memcmp\<close> of the C library on the first \<open>n\<close> bytes of two arrays; of its result the
  standard fixes the sign only, so the model gives the sign.
\<close>

fun memcmp :: "nat \<Rightarrow> byte list \<Rightarrow> byte list \<Rightarrow> int" where
  "memcmp (Suc n) (x # xs) (y # ys) = (if x = y then memcmp n xs ys else if x < y then -1 else 1)"
| "memcmp _ _ _ = 0"

definition bio_net_address_compare :: "bio_addr \<Rightarrow> bio_addr \<Rightarrow> int" where
  "bio_net_address_compare lhs rhs =
    (case (lhs, rhs) of
       (BIO_ADDR_IPV4 a, BIO_ADDR_IPV4 b) \<Rightarrow> memcmp 4 a b
     | (BIO_ADDR_IPV6 a, BIO_ADDR_IPV6 b) \<Rightarrow> memcmp 16 a b
     | (BIO_ADDR_NAMED m a, BIO_ADDR_NAMED n b) \<Rightarrow>
         (let lhs_len = int m;
              rhs_len = int n;
              min_len = (if lhs_len < rhs_len then lhs_len else rhs_len);
              cmp = memcmp (nat min_len) a b in
          if cmp \<noteq> 0 then cmp else lhs_len - rhs_len)
     | _ \<Rightarrow> addr_type lhs - addr_type rhs)"

section \<open>The comparison is a total order\<close>

text \<open>A well-formed address, and the bytes of it that count.\<close>

definition addr_ok :: "bio_addr \<Rightarrow> bool" where
  "addr_ok a = (case a of BIO_ADDR_IPV4 b \<Rightarrow> length b = 4 | BIO_ADDR_IPV6 b \<Rightarrow> length b = 16
     | BIO_ADDR_NAMED n b \<Rightarrow> length b = 256 \<and> n \<le> 256)"

definition addr_bytes :: "bio_addr \<Rightarrow> byte list" where
  "addr_bytes a = (case a of BIO_ADDR_IPV4 b \<Rightarrow> b | BIO_ADDR_IPV6 b \<Rightarrow> b | BIO_ADDR_NAMED n b \<Rightarrow> take n b)"

text \<open>The order the comparison is meant to give: by type, then lexicographically.\<close>

fun bytes_less :: "byte list \<Rightarrow> byte list \<Rightarrow> bool" where
  "bytes_less [] ys \<longleftrightarrow> ys \<noteq> []"
| "bytes_less (x # xs) [] \<longleftrightarrow> False"
| "bytes_less (x # xs) (y # ys) \<longleftrightarrow> x < y \<or> x = y \<and> bytes_less xs ys"

definition addr_less :: "bio_addr \<Rightarrow> bio_addr \<Rightarrow> bool" where
  "addr_less a b \<longleftrightarrow> addr_type a < addr_type b \<or> addr_type a = addr_type b \<and> bytes_less (addr_bytes a) (addr_bytes b)"

lemma memcmp_same_length:
  "length xs = length ys \<Longrightarrow> memcmp (length xs) xs ys = (if xs = ys then 0 else if bytes_less xs ys then -1 else 1)"
  by (induction xs ys rule: list_induct2) auto

lemma memcmp_take: "memcmp n (take k xs) (take l ys) = memcmp n xs ys" if "n \<le> k" "n \<le> l"
  using that
proof (induction n xs ys arbitrary: k l rule: memcmp.induct)
  case (1 n x xs y ys)
  then obtain k' l' where "k = Suc k'" "l = Suc l'" by (metis Suc_le_D)
  then show ?case using 1 by simp
qed (auto simp: take_Cons' split: if_splits)

lemma prefix_laws:
  fixes xs ys :: "byte list"
  defines "k \<equiv> min (length xs) (length ys)"
  shows "memcmp k xs ys = (if take k xs = take k ys then 0 else if bytes_less xs ys then -1 else 1)"
    "take k xs = take k ys \<Longrightarrow> bytes_less xs ys \<longleftrightarrow> length xs < length ys"
    "take k xs = take k ys \<Longrightarrow> xs = ys \<longleftrightarrow> length xs = length ys"
  unfolding k_def by (induction xs ys rule: bytes_less.induct) (simp_all, auto)

lemma memcmp_prefix:
  "length xs = m \<Longrightarrow> length ys = n \<Longrightarrow>
   memcmp (min m n) xs ys = (if take (min m n) xs = take (min m n) ys then 0 else if bytes_less xs ys then -1 else 1)"
  using prefix_laws(1) [of xs ys] by blast

lemma prefix_order:
  assumes "length xs = m" "length ys = n" "take (min m n) xs = take (min m n) ys"
  shows "bytes_less xs ys \<longleftrightarrow> m < n" "xs = ys \<longleftrightarrow> m = n"
  using prefix_laws(2,3) [of xs ys] assms(3) unfolding assms(1,2) by blast+

lemma named_compare:
  fixes a b :: "byte list"
  assumes "m \<le> length a" "n \<le> length b"
  shows "sgn (bio_net_address_compare (BIO_ADDR_NAMED m a) (BIO_ADDR_NAMED n b)) =
    (if take m a = take n b then 0 else if bytes_less (take m a) (take n b) then -1 else 1)"
proof -
  define x y where "x = take m a" and "y = take n b"
  have len: "length x = m" "length y = n" using assms by (simp_all add: x_def y_def)
  have c: "memcmp (min m n) a b = memcmp (min m n) x y"
    unfolding x_def y_def by (rule memcmp_take [symmetric]) simp_all
  have mn: "nat (if int m < int n then int m else int n) = min m n" by simp
  have e: "bio_net_address_compare (BIO_ADDR_NAMED m a) (BIO_ADDR_NAMED n b) =
      (if memcmp (min m n) x y \<noteq> 0 then memcmp (min m n) x y else int m - int n)"
    unfolding bio_net_address_compare_def Let_def mn prod.case bio_addr.case c ..
  show ?thesis
    unfolding e memcmp_prefix [OF len] x_def [symmetric] y_def [symmetric]
  proof (cases "take (min m n) x = take (min m n) y")
    case True
    show "sgn (if (if take (min m n) x = take (min m n) y then 0 else if bytes_less x y then - 1 else 1) \<noteq> 0
         then if take (min m n) x = take (min m n) y then 0 else if bytes_less x y then - 1 else 1 else int m - int n) =
        (if x = y then 0 else if bytes_less x y then - 1 else 1)"
      unfolding prefix_order [OF len True] if_P [OF True] by auto
  qed auto
qed

lemma same_length_compare:
  "length xs = n \<Longrightarrow> length ys = n \<Longrightarrow> sgn (memcmp n xs ys) = (if xs = ys then 0 else if bytes_less xs ys then -1 else 1)"
  using memcmp_same_length [of xs ys] by auto

text \<open>The sign of the comparison is that of the order, for well-formed addresses.\<close>

lemma address_compare_order:
  assumes "addr_ok a" "addr_ok b"
  shows "sgn (bio_net_address_compare a b) =
    (if addr_type a = addr_type b \<and> addr_bytes a = addr_bytes b then 0 else if addr_less a b then -1 else 1)"
proof (cases "addr_type a = addr_type b")
  case False
  then have "bio_net_address_compare a b = addr_type a - addr_type b"
    by (cases a; cases b) (simp_all add: bio_net_address_compare_def addr_type_def)
  then show ?thesis using False by (simp add: addr_less_def)
next
  case True
  then consider x y where "a = BIO_ADDR_IPV4 x" "b = BIO_ADDR_IPV4 y" | x y where "a = BIO_ADDR_IPV6 x" "b = BIO_ADDR_IPV6 y"
    | m x n y where "a = BIO_ADDR_NAMED m x" "b = BIO_ADDR_NAMED n y"
    by (cases a; cases b) (auto simp: addr_type_def)
  then show ?thesis
  proof cases
    case 1
    then show ?thesis using assms same_length_compare [of x 4 y]
      by (simp add: addr_ok_def bio_net_address_compare_def addr_less_def addr_type_def addr_bytes_def)
  next
    case 2
    then show ?thesis using assms same_length_compare [of x 16 y]
      by (simp add: addr_ok_def bio_net_address_compare_def addr_less_def addr_type_def addr_bytes_def)
  next
    case 3
    then show ?thesis using assms named_compare [of m x n y]
      by (simp add: addr_ok_def addr_less_def addr_type_def addr_bytes_def)
  qed
qed

end
