(* ===== verification/LinuxNet.thy ===== *)
theory LinuxNet
  imports Uring NetAddr Exactly Owned
begin

text \<open>
  Sockets on Linux (\<open>src/src/linux/net.c\<close> and the helpers of
  \<open>src/include/bio/net.h\<close>).
\<close>

section \<open>Model\<close>

text \<open>Constants of the C library on Linux.\<close>

definition AF_UNIX :: int where "AF_UNIX = 1"
definition AF_INET :: int where "AF_INET = 2"
definition AF_INET6 :: int where "AF_INET6 = 10"
definition SOCK_STREAM :: "32 word" where "SOCK_STREAM = 1"
definition SOCK_DGRAM :: "32 word" where "SOCK_DGRAM = 2"
definition SOCK_NONBLOCK :: "32 word" where "SOCK_NONBLOCK = 0x800"
definition SOCK_CLOEXEC :: "32 word" where "SOCK_CLOEXEC = 0x80000"

text \<open>\<open>sizeof(sun_path)\<close>, \<open>offsetof(struct sockaddr_un, sun_path)\<close> and the sizes of the other addresses.\<close>

definition SUN_PATH_SIZE :: nat where "SUN_PATH_SIZE = 108"
definition SUN_PATH_OFFSET :: nat where "SUN_PATH_OFFSET = 2"
definition SOCKADDR_IN_SIZE :: nat where "SOCKADDR_IN_SIZE = 16"
definition SOCKADDR_IN6_SIZE :: nat where "SOCKADDR_IN6_SIZE = 28"

unbundle bit_operations_syntax

definition htons :: "bio_port \<Rightarrow> byte list" where
  "htons port = [ucast (drop_bit 8 port), ucast port]"

definition sa_family :: "sockaddr \<Rightarrow> int" where
  "sa_family a = (case a of SOCKADDR_IN _ _ \<Rightarrow> AF_INET | SOCKADDR_IN6 _ _ \<Rightarrow> AF_INET6 | SOCKADDR_UN _ \<Rightarrow> AF_UNIX)"

record bio_addr_translation_result =
  tr_addr :: sockaddr
  tr_addr_len :: nat
  should_bind :: bool

text \<open>
  The translation starts from a zeroed result. \<open>memcpy\<close> of \<open>len\<close> bytes out of the 256
  of a name is always in range, since \<open>len\<close> is below the size of \<open>sun_path\<close>.
\<close>

definition bio_translate_address ::
    "bio_addr \<Rightarrow> bio_port \<Rightarrow> error_ptr \<Rightarrow> bio_addr_translation_result option \<times> error_ptr" where
  "bio_translate_address addr port error =
    (case addr of
       BIO_ADDR_IPV4 ipv4 \<Rightarrow>
         (if bio_net_address_compare addr BIO_ADDR_IPV4_ANY \<noteq> 0 \<or> port \<noteq> BIO_PORT_ANY
          then (Some \<lparr>tr_addr = SOCKADDR_IN (htons port) ipv4, tr_addr_len = SOCKADDR_IN_SIZE, should_bind = True\<rparr>, error)
          else (Some \<lparr>tr_addr = SOCKADDR_IN [0, 0] [0, 0, 0, 0], tr_addr_len = SOCKADDR_IN_SIZE, should_bind = False\<rparr>, error))
     | BIO_ADDR_IPV6 ipv6 \<Rightarrow>
         (if bio_net_address_compare addr BIO_ADDR_IPV6_ANY \<noteq> 0 \<or> port \<noteq> BIO_PORT_ANY
          then (Some \<lparr>tr_addr = SOCKADDR_IN6 (htons port) ipv6, tr_addr_len = SOCKADDR_IN6_SIZE, should_bind = True\<rparr>, error)
          else (Some \<lparr>tr_addr = SOCKADDR_IN6 [0, 0] (replicate 16 0), tr_addr_len = SOCKADDR_IN6_SIZE, should_bind = False\<rparr>, error))
     | BIO_ADDR_NAMED name_len name \<Rightarrow>
         if name_len > 0 then
           if name_len < SUN_PATH_SIZE then
             let sun_path = take name_len name @ replicate (SUN_PATH_SIZE - name_len) 0;
                 sun_path = (if sun_path ! 0 = of_char (CHR ''@'') then sun_path[0 := 0] else sun_path) in
             (Some \<lparr>tr_addr = SOCKADDR_UN sun_path, tr_addr_len = SUN_PATH_OFFSET + name_len, should_bind = True\<rparr>, error)
           else (None, bio_set_core_error (''src/linux/net.c'', 77) error BIO_ERROR_INVALID_ARGUMENT)
         else (Some \<lparr>tr_addr = SOCKADDR_UN (replicate SUN_PATH_SIZE 0), tr_addr_len = 0, should_bind = False\<rparr>, error))"

definition socket_type_flag :: "bio_socket_type \<Rightarrow> 32 word" where
  "socket_type_flag t = (case t of BIO_SOCKET_STREAM \<Rightarrow> SOCK_STREAM | BIO_SOCKET_DATAGRAM \<Rightarrow> SOCK_DGRAM)"

text \<open>An operation that may fail: on failure the error is reported and the descriptor closed.\<close>

definition close_on_error ::
    "'w uring \<Rightarrow> (addr \<Rightarrow> 'w bio_ctx \<Rightarrow> 'w bio_ctx outcome) \<Rightarrow> addr \<Rightarrow> location \<Rightarrow> int \<Rightarrow> int \<Rightarrow> error_ptr \<Rightarrow> 'w bio_ctx \<Rightarrow>
     (bool \<times> error_ptr \<times> 'w bio_ctx) run" where
  "close_on_error U mco_yield self loc fd code error s =
    (let error = bio_set_errno loc error code in
     obind (bio_io_close U mco_yield self fd s) (\<lambda>(_, s). ret (False, error, s)))"

text \<open>The part of \<open>bio_make_socket\<close> that binds the new socket, through the ring or directly.\<close>

definition bind_socket ::
    "'w uring \<Rightarrow> (addr \<Rightarrow> 'w bio_ctx \<Rightarrow> 'w bio_ctx outcome) \<Rightarrow> addr \<Rightarrow> int \<Rightarrow> bio_addr_translation_result \<Rightarrow> error_ptr \<Rightarrow> 'w bio_ctx \<Rightarrow>
     (bool \<times> error_ptr \<times> 'w bio_ctx) run" where
  "bind_socket U mco_yield self fd tr error s =
    (if has_op_bind (plat (rest s)) then
       obind (do_io U mco_yield self (\<lambda>_. Inr (OP_BIND fd (tr_addr tr) (tr_addr_len tr))) s) (\<lambda>(req, s).
       if req_res req < 0 then close_on_error U mco_yield self (''src/linux/net.c'', 130) fd (- req_res req) error s
       else ret (True, error, s))
     else
       let (result, errno, w) = bind_syscall U fd (tr_addr tr) (tr_addr_len tr) (world s);
           s = s\<lparr>world := w\<rparr> in
       if result < 0 then close_on_error U mco_yield self (''src/linux/net.c'', 137) fd errno error s
       else ret (True, error, s))"

definition bio_make_socket ::
    "'w uring \<Rightarrow> (addr \<Rightarrow> 'w bio_ctx \<Rightarrow> 'w bio_ctx outcome) \<Rightarrow> addr \<Rightarrow> bio_socket_type \<Rightarrow> bio_addr \<Rightarrow> bio_port \<Rightarrow> error_ptr \<Rightarrow> 'w bio_ctx \<Rightarrow>
     (int \<times> error_ptr \<times> 'w bio_ctx) run" where
  "bio_make_socket U mco_yield self socket_type addr port error s =
    (case bio_translate_address addr port error of
       (None, error) \<Rightarrow> ret (-1, error, s)
     | (Some tr, error) \<Rightarrow>
         obind (do_io U mco_yield self (\<lambda>_. Inr (OP_SOCKET (sa_family (tr_addr tr))
           (socket_type_flag socket_type OR SOCK_NONBLOCK OR SOCK_CLOEXEC))) s) (\<lambda>(req, s).
         let fd = req_res req in
         if fd < 0 then ret (-1, bio_set_errno (''src/linux/net.c'', 120) error (- fd), s)
         else if should_bind tr then
           obind (bind_socket U mco_yield self fd tr error s) (\<lambda>(ok, error, s).
           ret (if ok then fd else -1, error, s))
         else ret (fd, error, s)))"

abbreviation set_socket_impls :: "bio_socket_impl store \<Rightarrow> 'w bio_ctx \<Rightarrow> 'w bio_ctx" where
  "set_socket_impls ss s \<equiv> s\<lparr>rest := (rest s)\<lparr>socket_impls := ss\<rparr>\<rparr>"

definition bio_socket_from_fd :: "int \<Rightarrow> 'w bio_ctx \<Rightarrow> (bio_handle \<times> 'w bio_ctx) outcome" where
  "bio_socket_from_fd fd s =
    (let p = bio_malloc s in
     rbind (bio_make_handle p BIO_SOCKET_HANDLE (handles s)) (\<lambda>(h, ht).
     Inr (h, set_socket_impls (put p \<lparr>sock_fd = fd\<rparr> (socket_impls (rest s))) (s\<lparr>handles := ht\<rparr>))))"

definition bio_net_init :: "'w bio_ctx \<Rightarrow> 'w bio_ctx" where
  "bio_net_init s = s"

definition bio_net_cleanup :: "'w bio_ctx \<Rightarrow> 'w bio_ctx" where
  "bio_net_cleanup s = s"

text \<open>\<open>bio_net_wrap\<close>: the variable \<open>*sock\<close> keeps its value.\<close>

definition bio_net_wrap :: "bio_handle \<Rightarrow> int \<Rightarrow> 'w bio_ctx \<Rightarrow> (bool \<times> bio_handle \<times> 'w bio_ctx) outcome" where
  "bio_net_wrap sock fd s = rbind (bio_socket_from_fd fd s) (\<lambda>(_, s). Inr (True, sock, s))"

definition bio_net_unwrap :: "bio_handle \<Rightarrow> 'w bio_ctx \<Rightarrow> int outcome" where
  "bio_net_unwrap socket s =
    (let p = bio_resolve_handle socket BIO_SOCKET_HANDLE (handles s) in
     if p \<noteq> NULL then rbind (deref (socket_impls (rest s)) p) (\<lambda>impl. Inr (sock_fd impl)) else Inr (-1))"

definition listen_socket ::
    "'w uring \<Rightarrow> (addr \<Rightarrow> 'w bio_ctx \<Rightarrow> 'w bio_ctx outcome) \<Rightarrow> addr \<Rightarrow> int \<Rightarrow> error_ptr \<Rightarrow> 'w bio_ctx \<Rightarrow> (bool \<times> error_ptr \<times> 'w bio_ctx) run" where
  "listen_socket U mco_yield self fd error s =
    (let backlog = 5 in
     if has_op_listen (plat (rest s)) then
       obind (do_io U mco_yield self (\<lambda>_. Inr (OP_LISTEN fd backlog)) s) (\<lambda>(req, s).
       if req_res req < 0 then close_on_error U mco_yield self (''src/linux/net.c'', 204) fd (- req_res req) error s
       else ret (True, error, s))
     else
       let (result, errno, w) = listen_syscall U fd backlog (world s);
           s = s\<lparr>world := w\<rparr> in
       if result < 0 then close_on_error U mco_yield self (''src/linux/net.c'', 211) fd errno error s
       else ret (True, error, s))"

text \<open>The functions that make a socket return its handle on success.\<close>

definition bio_net_listen ::
    "'w uring \<Rightarrow> (addr \<Rightarrow> 'w bio_ctx \<Rightarrow> 'w bio_ctx outcome) \<Rightarrow> addr \<Rightarrow> bio_socket_type \<Rightarrow> bio_addr \<Rightarrow> bio_port \<Rightarrow> error_ptr \<Rightarrow> 'w bio_ctx \<Rightarrow>
     (bio_handle option \<times> error_ptr \<times> 'w bio_ctx) run" where
  "bio_net_listen U mco_yield self socket_type addr port error s =
    obind (bio_make_socket U mco_yield self socket_type addr port error s) (\<lambda>(fd, error, s).
    if fd < 0 then ret (None, error, s)
    else
      obind (listen_socket U mco_yield self fd error s) (\<lambda>(ok, error, s).
      if \<not> ok then ret (None, error, s)
      else obind (lift (bio_socket_from_fd fd s)) (\<lambda>(h, s). ret (Some h, error, s))))"

definition bio_net_accept ::
    "'w uring \<Rightarrow> (addr \<Rightarrow> 'w bio_ctx \<Rightarrow> 'w bio_ctx outcome) \<Rightarrow> addr \<Rightarrow> bio_handle \<Rightarrow> error_ptr \<Rightarrow> 'w bio_ctx \<Rightarrow>
     (bio_handle option \<times> error_ptr \<times> 'w bio_ctx) run" where
  "bio_net_accept U mco_yield self socket error s =
    (let p = bio_resolve_handle socket BIO_SOCKET_HANDLE (handles s) in
     if p \<noteq> NULL then
       obind (do_io U mco_yield self (\<lambda>s. rbind (deref (socket_impls (rest s)) p) (\<lambda>impl. Inr (OP_ACCEPT (sock_fd impl)))) s) (\<lambda>(req, s).
       if req_res req > 0 then obind (lift (bio_socket_from_fd (req_res req) s)) (\<lambda>(h, s). ret (Some h, error, s))
       else ret (None, bio_set_errno (''src/linux/net.c'', 236) error (- req_res req), s))
     else ret (None, bio_set_core_error (''src/linux/net.c'', 240) error BIO_ERROR_INVALID_ARGUMENT, s))"

text \<open>The source address of a connection: all zero but for its type.\<close>

definition src_addr :: "bio_addr \<Rightarrow> bio_addr" where
  "src_addr addr = (case addr of
     BIO_ADDR_IPV4 _ \<Rightarrow> BIO_ADDR_IPV4 (replicate 4 0)
   | BIO_ADDR_IPV6 _ \<Rightarrow> BIO_ADDR_IPV6 (replicate 16 0)
   | BIO_ADDR_NAMED _ _ \<Rightarrow> BIO_ADDR_NAMED 0 (replicate 256 0))"

definition bio_net_connect ::
    "'w uring \<Rightarrow> (addr \<Rightarrow> 'w bio_ctx \<Rightarrow> 'w bio_ctx outcome) \<Rightarrow> addr \<Rightarrow> bio_socket_type \<Rightarrow> bio_addr \<Rightarrow> bio_port \<Rightarrow> error_ptr \<Rightarrow> 'w bio_ctx \<Rightarrow>
     (bio_handle option \<times> error_ptr \<times> 'w bio_ctx) run" where
  "bio_net_connect U mco_yield self socket_type addr port error s =
    (case bio_translate_address addr port error of
       (None, error) \<Rightarrow> ret (None, error, s)
     | (Some tr, error) \<Rightarrow>
         obind (bio_make_socket U mco_yield self socket_type (src_addr addr) BIO_PORT_ANY error s) (\<lambda>(fd, error, s).
         if fd < 0 then ret (None, error, s)
         else
           obind (do_io U mco_yield self (\<lambda>_. Inr (OP_CONNECT fd (tr_addr tr) (tr_addr_len tr))) s) (\<lambda>(req, s).
           if req_res req < 0 then
             obind (close_on_error U mco_yield self (''src/linux/net.c'', 268) fd (- req_res req) error s) (\<lambda>(_, error, s). ret (None, error, s))
           else obind (lift (bio_socket_from_fd fd s)) (\<lambda>(h, s). ret (Some h, error, s)))))"

definition bio_net_close ::
    "'w uring \<Rightarrow> (addr \<Rightarrow> 'w bio_ctx \<Rightarrow> 'w bio_ctx outcome) \<Rightarrow> addr \<Rightarrow> bio_handle \<Rightarrow> error_ptr \<Rightarrow> 'w bio_ctx \<Rightarrow> (bool \<times> error_ptr \<times> 'w bio_ctx) run" where
  "bio_net_close U mco_yield self socket error s =
    obind (lift (bio_close_handle socket BIO_SOCKET_HANDLE (handles s))) (\<lambda>(p, ht).
    let s = s\<lparr>handles := ht\<rparr> in
    if p \<noteq> NULL then
      obind (lift (deref (socket_impls (rest s)) p)) (\<lambda>impl.
      let fd = sock_fd impl; s = set_socket_impls (del p (socket_impls (rest s))) s in
      obind (do_io U mco_yield self (\<lambda>_. Inr (OP_SHUTDOWN fd)) s) (\<lambda>(req, s).
      if req_res req < 0 then close_on_error U mco_yield self (''src/linux/net.c'', 288) fd (- req_res req) error s
      else obind (bio_io_close U mco_yield self fd s) (\<lambda>(_, s). ret (True, error, s))))
    else ret (False, bio_set_core_error (''src/linux/net.c'', 296) error BIO_ERROR_INVALID_ARGUMENT, s))"

definition bio_net_send ::
    "'w uring \<Rightarrow> (addr \<Rightarrow> 'w bio_ctx \<Rightarrow> 'w bio_ctx outcome) \<Rightarrow> addr \<Rightarrow> bio_handle \<Rightarrow> byte list \<Rightarrow> error_ptr \<Rightarrow> 'w bio_ctx \<Rightarrow>
     (nat \<times> error_ptr \<times> 'w bio_ctx) run" where
  "bio_net_send U mco_yield self socket buf error s =
    (let p = bio_resolve_handle socket BIO_SOCKET_HANDLE (handles s) in
     if p \<noteq> NULL then
       obind (do_io U mco_yield self (\<lambda>s. rbind (deref (socket_impls (rest s)) p) (\<lambda>impl. Inr (OP_SEND (sock_fd impl) buf))) s) (\<lambda>(req, s).
       let (bytes_sent, error) = bio_result_to_size (''src/linux/net.c'', 313) (req_res req) error in ret (bytes_sent, error, s))
     else ret (0, bio_set_core_error (''src/linux/net.c'', 315) error BIO_ERROR_INVALID_ARGUMENT, s))"

definition bio_net_recv ::
    "'w uring \<Rightarrow> (addr \<Rightarrow> 'w bio_ctx \<Rightarrow> 'w bio_ctx outcome) \<Rightarrow> addr \<Rightarrow> bio_handle \<Rightarrow> nat \<Rightarrow> error_ptr \<Rightarrow> 'w bio_ctx \<Rightarrow>
     (byte list \<times> error_ptr \<times> 'w bio_ctx) run" where
  "bio_net_recv U mco_yield self socket num_bytes error s =
    (let p = bio_resolve_handle socket BIO_SOCKET_HANDLE (handles s) in
     if p \<noteq> NULL then
       obind (do_io U mco_yield self (\<lambda>s. rbind (deref (socket_impls (rest s)) p) (\<lambda>impl. Inr (OP_RECV (sock_fd impl) num_bytes))) s) (\<lambda>(req, s).
       let (bytes_received, error) = bio_result_to_size (''src/linux/net.c'', 332) (req_res req) error in
       ret (take bytes_received (req_buf req), error, s))
     else ret ([], bio_set_core_error (''src/linux/net.c'', 334) error BIO_ERROR_INVALID_ARGUMENT, s))"

definition bio_net_send_exactly ::
    "'w uring \<Rightarrow> (addr \<Rightarrow> 'w bio_ctx \<Rightarrow> 'w bio_ctx outcome) \<Rightarrow> addr \<Rightarrow> bio_handle \<Rightarrow> byte list \<Rightarrow> error_ptr \<Rightarrow> 'w bio_ctx \<Rightarrow>
     (nat \<times> error_ptr \<times> 'w bio_ctx) run" where
  "bio_net_send_exactly U mco_yield self socket buf = write_loop (bio_net_send U mco_yield self socket) buf 0"

definition bio_net_recv_exactly ::
    "'w uring \<Rightarrow> (addr \<Rightarrow> 'w bio_ctx \<Rightarrow> 'w bio_ctx outcome) \<Rightarrow> addr \<Rightarrow> bio_handle \<Rightarrow> nat \<Rightarrow> error_ptr \<Rightarrow> 'w bio_ctx \<Rightarrow>
     (byte list \<times> error_ptr \<times> 'w bio_ctx) run" where
  "bio_net_recv_exactly U mco_yield self socket num_bytes = read_loop (bio_net_recv U mco_yield self socket) num_bytes []"

end
