(* ===== verification/Lifecycle.thy ===== *)
theory Lifecycle
  imports Bio FileLogger LinuxNet
begin

text \<open>
  Start and end of the framework on Linux: \<open>bio_init\<close> and \<open>bio_terminate\<close> of
  \<open>src/src/bio.c\<close>.
\<close>

section \<open>Model\<close>

text \<open>
  \<open>bio_options_t\<close>: \<open>None\<close> for the allocation function is the null pointer. The options
  of the other platforms are ignored on Linux.
\<close>

record bio_options =
  opt_allocator :: "(addr list \<Rightarrow> addr) option"
  opt_num_cls_buckets :: int
  opt_num_threads :: int
  opt_queue_size :: int
  opt_current_filename :: "string option"
  opt_current_depth :: int
  opt_io_uring_queue_size :: "32 word"

definition zero_options :: bio_options where
  "zero_options = \<lparr>opt_allocator = None, opt_num_cls_buckets = 0, opt_num_threads = 0, opt_queue_size = 0,
    opt_current_filename = None, opt_current_depth = 0, opt_io_uring_queue_size = 0\<rparr>"

definition bio_timer_cleanup :: "'w bio_ctx \<Rightarrow> 'w bio_ctx" where
  "bio_timer_cleanup s = s\<lparr>timer_entries := []\<rparr>"

definition bio_handle_table_cleanup :: "'w bio_ctx \<Rightarrow> 'w bio_ctx" where
  "bio_handle_table_cleanup s = s\<lparr>handles := (handles s)\<lparr>handle_slots := []\<rparr>\<rparr>"

text \<open>
  \<open>bio_init\<close>; \<open>None\<close> when the platform layer aborts the program. \<open>stdlib_realloc\<close> is the
  allocation function of the C library (\<open>bio_stdlib_realloc\<close>).
\<close>

definition bio_init ::
    "'w uring \<Rightarrow> ('w \<Rightarrow> int \<times> 'w) \<Rightarrow> (addr list \<Rightarrow> addr) \<Rightarrow> bio_options option \<Rightarrow> 'w \<Rightarrow> 'w bio_ctx run" where
  "bio_init U clk stdlib_realloc opts w =
    (let options = (case opts of None \<Rightarrow> zero_options | Some o' \<Rightarrow> o');
         alloc = (case opt_allocator options of None \<Rightarrow> stdlib_realloc | Some f \<Rightarrow> f) in
     case bio_platform_init U (opt_io_uring_queue_size options) (zero_ctx alloc (opt_num_cls_buckets options) w) of
       None \<Rightarrow> None
     | Some (_, s) \<Rightarrow>
         let s = bio_scheduler_init (bio_timer_init clk (s\<lparr>handles := bio_handle_table_init\<rparr>)) in
         obind (lift (bio_thread_init (block_all_signals U) (restore_signals U) (opt_num_threads options) (opt_queue_size options) s)) (\<lambda>s.
         obind (lift (bio_fs_init s)) (\<lambda>s.
         lift (bio_logging_init (opt_current_filename options) (opt_current_depth options) (bio_net_init s)))))"

text \<open>
  \<open>bio_terminate\<close> runs outside of every coroutine. \<open>E\<close> is the environment of the loop,
  \<open>wait_response\<close> and \<open>join\<close> stand for the worker threads.
\<close>

definition bio_terminate ::
    "'w uring \<Rightarrow> log_layout \<Rightarrow> (addr \<Rightarrow> 'w bio_ctx \<Rightarrow> 'w bio_ctx outcome) \<Rightarrow> 'w env \<Rightarrow> (nat \<Rightarrow> 'w bio_ctx \<Rightarrow> 'w bio_ctx run) \<Rightarrow>
     (nat \<Rightarrow> 'w bio_ctx \<Rightarrow> 'w bio_ctx run) \<Rightarrow> 'w bio_ctx \<Rightarrow> 'w bio_ctx run" where
  "bio_terminate U Y mco_yield E wait_response join s =
    (let s = s\<lparr>is_terminating := True\<rparr> in
     obind (lift (bio_dispatch_exit_signal (bio_platform_unblock_exit_signal U) BIO_EXIT_TERMINATE s)) (\<lambda>s.
     obind (bio_logging_cleanup Y mco_yield NULL s) (\<lambda>s.
     obind (if num_daemons s > 0 then bio_loop E s else ret s) (\<lambda>s.
     obind (lift (bio_fs_cleanup (bio_net_cleanup s))) (\<lambda>s.
     obind (bio_thread_cleanup wait_response join s) (\<lambda>s.
     let s = bio_platform_cleanup U (bio_handle_table_cleanup (bio_timer_cleanup (bio_scheduler_cleanup s))) in
     ret (s\<lparr>rest := (rest s)\<lparr>exit_handlers := None\<rparr>\<rparr>)))))))"

section \<open>The start\<close>

text \<open>The options of the logging system are usable: the name is at least as deep as it is said to be.\<close>

definition log_options_ok :: "bio_options \<Rightarrow> bool" where
  "log_options_ok o' \<longleftrightarrow> (case opt_current_filename o' of None \<Rightarrow> True
     | Some name \<Rightarrow> 0 \<le> opt_current_depth o' \<and> opt_current_depth o' < int (separators name))"

lemma logging_init_safe:
  assumes "log_options_ok o'"
  shows "safe (bio_logging_init (opt_current_filename o') (opt_current_depth o') s) (\<lambda>s'. \<exists>r. s' = s\<lparr>rest := r\<rparr>
    \<and> file_impls r = file_impls (rest s) \<and> BIO_STDIN r = BIO_STDIN (rest s) \<and> BIO_STDOUT r = BIO_STDOUT (rest s) \<and> BIO_STDERR r = BIO_STDERR (rest s))"
proof (cases "opt_current_filename o'")
  case None
  then show ?thesis by (auto simp: bio_logging_init_def Let_def)
next
  case (Some name)
  have b: "0 \<le> fst (prefix_scan name (length name) (opt_current_depth o' + 1))" "fst (prefix_scan name (length name) (opt_current_depth o' + 1)) < int (length name)"
    using prefix_scan_bounds [of "length name" name "opt_current_depth o' + 1"] assms by (auto simp: log_options_ok_def Some)
  then show ?thesis by (auto simp: Some bio_logging_init_def Let_def string_at_def split_beta)
qed

text \<open>The core of the framework is ready before the other parts are started.\<close>

lemma init_core_rest:
  "bio_scheduler_init (bio_timer_init clk (((zero_ctx alloc n w0)\<lparr>world := w, rest := r\<rparr>)\<lparr>handles := bio_handle_table_init\<rparr>))
     = (init_core clk alloc n w)\<lparr>rest := r\<rparr>"
  by (simp add: init_core_def bio_scheduler_init_def bio_timer_init_def zero_ctx_def split_beta)

lemma platform_init_frame:
  assumes "bio_platform_init U n s = Some (m, s')"
  shows "\<exists>w p. s' = s\<lparr>world := w, rest := (rest s)\<lparr>plat := p\<rparr>\<rparr>"
  using assms by (auto simp: bio_platform_init_def Let_def split: if_splits prod.splits)

definition started :: "'w bio_ctx \<Rightarrow> bool" where
  "started s \<longleftrightarrow> idle_inv s \<and> ready_inv s \<and> file_world [] None s
    \<and> (\<exists>p f. file_at p (BIO_STDIN (rest s)) s f \<and> file_fd f = 0)
    \<and> (\<exists>p f. file_at p (BIO_STDOUT (rest s)) s f \<and> file_fd f = 1)
    \<and> (\<exists>p f. file_at p (BIO_STDERR (rest s)) s f \<and> file_fd f = 2)"

lemma thread_init_safe:
  "safe (bio_thread_init b e n q s) (\<lambda>s'. \<exists>ws w. s' = s\<lparr>rest := (rest s)\<lparr>thread_pool := ws, num_running_async_jobs := 0\<rparr>, world := w\<rparr>)"
  by (auto simp: bio_thread_init_def Let_def)

lemma file_world_core:
  assumes "allocator_ok alloc" "file_impls r = []"
  shows "file_world [] None ((init_core clk alloc n w)\<lparr>rest := r, world := w'\<rparr>)"
proof -
  have "idle_inv (init_core clk alloc n w)" by (rule init_idle(1) [OF assms(1)])
  then have "loop_inv [] None (init_core clk alloc n w)" by (simp add: idle_inv_def)
  then show ?thesis using assms(2) by (auto simp: file_world_def owned_def init_fields init_inv intro: named_empty)
qed

lemma init_safe:
  assumes "allocator_ok (case opt_allocator o' of None \<Rightarrow> stdlib_realloc | Some f \<Rightarrow> f)" "log_options_ok o'"
  shows "runs (bio_init U clk stdlib_realloc (Some o') w) started"
proof (cases "bio_platform_init U (opt_io_uring_queue_size o')
    (zero_ctx (case opt_allocator o' of None \<Rightarrow> stdlib_realloc | Some f \<Rightarrow> f) (opt_num_cls_buckets o') w)")
  case None
  then show ?thesis by (simp add: bio_init_def Let_def)
next
  case (Some x)
  define alloc where "alloc = (case opt_allocator o' of None \<Rightarrow> stdlib_realloc | Some f \<Rightarrow> f)"
  obtain m s0 where x: "x = (m, s0)" by (cases x)
  have P: "bio_platform_init U (opt_io_uring_queue_size o') (zero_ctx alloc (opt_num_cls_buckets o') w) = Some (m, s0)"
    using Some by (simp add: x alloc_def)
  obtain w0 p0 where s0: "s0 = (zero_ctx alloc (opt_num_cls_buckets o') w)\<lparr>world := w0, rest := (rest (zero_ctx alloc (opt_num_cls_buckets o') w))\<lparr>plat := p0\<rparr>\<rparr>"
    using platform_init_frame [OF P] by blast
  let ?r = "(rest (zero_ctx alloc (opt_num_cls_buckets o') w))\<lparr>plat := p0\<rparr>"
  let ?s1 = "(init_core clk alloc (opt_num_cls_buckets o') w0)\<lparr>rest := ?r\<rparr>"
  have e: "bio_init U clk stdlib_realloc (Some o') w =
      obind (lift (bio_thread_init (block_all_signals U) (restore_signals U) (opt_num_threads o') (opt_queue_size o') ?s1)) (\<lambda>s.
      obind (lift (bio_fs_init s)) (\<lambda>s. lift (bio_logging_init (opt_current_filename o') (opt_current_depth o') s)))"
    unfolding bio_init_def Let_def option.case alloc_def [symmetric] P prod.case s0 init_core_rest bio_net_init_def ..
  show ?thesis
    unfolding e
  proof (rule runs_lift [OF thread_init_safe], goal_cases)
    case (1 s2)
    then obtain ws w2 where s2: "s2 = ?s1\<lparr>rest := ?r\<lparr>thread_pool := ws, num_running_async_jobs := 0\<rparr>, world := w2\<rparr>" by auto
    have fw: "file_world [] None s2" unfolding s2 using file_world_core [of alloc "?r\<lparr>thread_pool := ws, num_running_async_jobs := 0\<rparr>"] assms(1)
      by (simp add: zero_ctx_def alloc_def)
    have cr: "current_ready_coros s2 = None" by (simp add: s2 init_fields)
    show ?case
    proof (rule runs_lift [OF safe_with [OF fs_init_safe [OF fw] fs_init_frame]], assumption, goal_cases)
      case (1 s3)
      then have st: "started s3" using cr by (auto simp: started_def idle_inv_def ready_inv_def file_world_def)
      have keep: "started (s3\<lparr>rest := r\<rparr>)" if "file_impls r = file_impls (rest s3)" "BIO_STDIN r = BIO_STDIN (rest s3)"
          "BIO_STDOUT r = BIO_STDOUT (rest s3)" "BIO_STDERR r = BIO_STDERR (rest s3)" for r
        using st that by (simp add: started_def idle_inv_def ready_inv_def file_world_def file_at_def)
      show ?case unfolding runs_simps by (rule safe_mono [OF logging_init_safe [OF assms(2)]]) (use keep in blast)
    qed
  qed
qed

end
