(* ===== verification/Buffering.thy ===== *)
theory Buffering
  imports Owned Errors
begin

text \<open>
  Buffered I/O (\<open>src/src/buffering.c\<close> and the helpers of
  \<open>src/include/bio/buffering.h\<close>). What the callbacks of a buffer do is a
  parameter: \<open>bio_fread\<close> and its kin for the buffers on files and sockets, the
  application's functions otherwise. They may suspend the coroutine, so the whole
  context may differ when they return.
\<close>

section \<open>Model\<close>

text \<open>
  A read callback returns the bytes it put into the memory it was given, a
  write callback the number of bytes it took.
\<close>

record 'w io_calls =
  call_read :: "bio_io_fn \<Rightarrow> bio_handle \<Rightarrow> nat \<Rightarrow> error_ptr \<Rightarrow> 'w bio_ctx \<Rightarrow> (byte list \<times> error_ptr \<times> 'w bio_ctx) outcome"
  call_write :: "bio_io_fn \<Rightarrow> bio_handle \<Rightarrow> byte list \<Rightarrow> error_ptr \<Rightarrow> 'w bio_ctx \<Rightarrow> (nat \<times> error_ptr \<times> 'w bio_ctx) outcome"
  call_flush :: "bio_io_fn \<Rightarrow> bio_handle \<Rightarrow> error_ptr \<Rightarrow> 'w bio_ctx \<Rightarrow> (bool \<times> error_ptr \<times> 'w bio_ctx) outcome"

abbreviation set_io_buffers :: "bio_io_buffer_impl store \<Rightarrow> 'w bio_ctx \<Rightarrow> 'w bio_ctx" where
  "set_io_buffers bs s \<equiv> s\<lparr>rest := (rest s)\<lparr>io_buffers := bs\<rparr>\<rparr>"

definition bio_make_buffer :: "bio_buffer_options \<Rightarrow> 'w bio_ctx \<Rightarrow> (bio_handle \<times> 'w bio_ctx) outcome" where
  "bio_make_buffer options s =
    (let p = bio_malloc s;
         impl = \<lparr>buf_options = options, buf_offset = 0, buf_data_size = 0, buf_data = replicate (buf_size options) 0\<rparr> in
     rbind (bio_make_handle p BIO_BUFFER_HANDLE (handles s)) (\<lambda>(h, ht).
     Inr (h, set_io_buffers (put p impl (io_buffers (rest s))) (s\<lparr>handles := ht\<rparr>))))"

text \<open>A part of the memory of a buffer, as it is handed to a write callback.\<close>

definition slice :: "nat \<Rightarrow> nat \<Rightarrow> byte list \<Rightarrow> byte list outcome" where
  "slice off n data = (if off + n \<le> length data then Inr (take n (drop off data)) else Inl DanglingPointer)"

definition bio_destroy_buffer :: "'w io_calls \<Rightarrow> bio_handle \<Rightarrow> 'w bio_ctx \<Rightarrow> 'w bio_ctx outcome" where
  "bio_destroy_buffer io buffer s =
    rbind (bio_close_handle buffer BIO_BUFFER_HANDLE (handles s)) (\<lambda>(p, ht).
    let s = s\<lparr>handles := ht\<rparr> in
    if p \<noteq> NULL then
      rbind (deref (io_buffers (rest s)) p) (\<lambda>impl.
      rbind (if buf_offset impl > 0 then
               rbind (if write_fn (buf_options impl) \<noteq> NULL_FN then
                        rbind (slice 0 (buf_offset impl) (buf_data impl)) (\<lambda>bs.
                        rbind (call_write io (write_fn (buf_options impl)) (buf_ctx (buf_options impl)) bs None s) (\<lambda>(_, _, s). Inr s))
                      else Inr s) (\<lambda>s.
               rbind (deref (io_buffers (rest s)) p) (\<lambda>impl.
               if flush_fn (buf_options impl) \<noteq> NULL_FN then
                 rbind (call_flush io (flush_fn (buf_options impl)) (buf_ctx (buf_options impl)) None s) (\<lambda>(_, _, s). Inr s)
               else Inr s))
             else Inr s) (\<lambda>s.
      Inr (set_io_buffers (del p (io_buffers (rest s))) s)))
    else Inr s)"

definition bio_make_file_read_buffer :: "bio_handle \<Rightarrow> nat \<Rightarrow> 'w bio_ctx \<Rightarrow> (bio_handle \<times> 'w bio_ctx) outcome" where
  "bio_make_file_read_buffer file num_bytes =
    bio_make_buffer \<lparr>buf_ctx = file, read_fn = bio_read_file_buffered, write_fn = NULL_FN, flush_fn = NULL_FN, buf_size = num_bytes\<rparr>"

definition bio_make_file_write_buffer :: "bio_handle \<Rightarrow> nat \<Rightarrow> bool \<Rightarrow> 'w bio_ctx \<Rightarrow> (bio_handle \<times> 'w bio_ctx) outcome" where
  "bio_make_file_write_buffer file num_bytes fflush =
    bio_make_buffer \<lparr>buf_ctx = file, read_fn = NULL_FN, write_fn = bio_write_file_buffered,
      flush_fn = (if fflush then bio_flush_file_buffered else NULL_FN), buf_size = num_bytes\<rparr>"

definition bio_make_socket_read_buffer :: "bio_handle \<Rightarrow> nat \<Rightarrow> 'w bio_ctx \<Rightarrow> (bio_handle \<times> 'w bio_ctx) outcome" where
  "bio_make_socket_read_buffer socket num_bytes =
    bio_make_buffer \<lparr>buf_ctx = socket, read_fn = bio_read_socket_buffered, write_fn = NULL_FN, flush_fn = NULL_FN, buf_size = num_bytes\<rparr>"

definition bio_make_socket_write_buffer :: "bio_handle \<Rightarrow> nat \<Rightarrow> 'w bio_ctx \<Rightarrow> (bio_handle \<times> 'w bio_ctx) outcome" where
  "bio_make_socket_write_buffer socket num_bytes =
    bio_make_buffer \<lparr>buf_ctx = socket, read_fn = NULL_FN, write_fn = bio_write_socket_buffered, flush_fn = NULL_FN, buf_size = num_bytes\<rparr>"

text \<open>
  The loop of \<open>bio_flush_internal_buffer\<close>. A callback that claims to have taken
  more than it was given makes \<open>bytes_to_write\<close> wrap around; the next round then
  reads past the end of the buffer.
\<close>

function flush_loop :: "'w io_calls \<Rightarrow> addr \<Rightarrow> nat \<Rightarrow> nat \<Rightarrow> error_ptr \<Rightarrow> 'w bio_ctx \<Rightarrow> (bool \<times> error_ptr \<times> 'w bio_ctx) outcome" where
  "flush_loop io p total_bytes_written bytes_to_write error s =
    (if bytes_to_write > 0 then
       rbind (deref (io_buffers (rest s)) p) (\<lambda>impl.
       rbind (slice total_bytes_written bytes_to_write (buf_data impl)) (\<lambda>bs.
       rbind (call_write io (write_fn (buf_options impl)) (buf_ctx (buf_options impl)) bs error s) (\<lambda>(bytes_written, error, s).
       if bytes_written = 0 then Inr (False, error, s)
       else if bytes_written \<le> bytes_to_write
       then flush_loop io p (total_bytes_written + bytes_written) (bytes_to_write - bytes_written) error s
       else Inl DanglingPointer)))
     else Inr (True, error, s))"
  by pat_completeness auto
termination by (relation "measure (\<lambda>(_, _, _, n, _, _). n)") auto

declare flush_loop.simps [simp del]

definition bio_flush_internal_buffer :: "'w io_calls \<Rightarrow> addr \<Rightarrow> error_ptr \<Rightarrow> 'w bio_ctx \<Rightarrow> (bool \<times> error_ptr \<times> 'w bio_ctx) outcome" where
  "bio_flush_internal_buffer io p error s =
    rbind (deref (io_buffers (rest s)) p) (\<lambda>impl.
    rbind (flush_loop io p 0 (buf_offset impl) error s) (\<lambda>(ok, error, s).
    if ok then
      rbind (deref (io_buffers (rest s)) p) (\<lambda>impl.
      Inr (True, error, set_io_buffers (put p (impl\<lparr>buf_offset := 0\<rparr>) (io_buffers (rest s))) s))
    else Inr (False, error, s)))"

text \<open>The refill of an exhausted read buffer; the \<open>bool\<close> tells whether there is data.\<close>

definition refill :: "'w io_calls \<Rightarrow> addr \<Rightarrow> error_ptr \<Rightarrow> 'w bio_ctx \<Rightarrow> (bool \<times> error_ptr \<times> 'w bio_ctx) outcome" where
  "refill io p error s =
    rbind (deref (io_buffers (rest s)) p) (\<lambda>impl.
    if \<not> buf_offset impl < buf_data_size impl then
      rbind (call_read io (read_fn (buf_options impl)) (buf_ctx (buf_options impl)) (buf_size (buf_options impl)) error s) (\<lambda>(bs, error, s).
      rbind (deref (io_buffers (rest s)) p) (\<lambda>impl.
      if length bs = 0 then Inr (False, error, s)
      else if length bs \<le> length (buf_data impl) then
        (let impl = impl\<lparr>buf_data := bs @ drop (length bs) (buf_data impl), buf_data_size := length bs, buf_offset := 0\<rparr> in
         Inr (True, error, set_io_buffers (put p impl (io_buffers (rest s))) s))
      else Inl DanglingPointer))
    else Inr (True, error, s))"

definition bio_buffered_read :: "'w io_calls \<Rightarrow> bio_handle \<Rightarrow> nat \<Rightarrow> error_ptr \<Rightarrow> 'w bio_ctx \<Rightarrow> (byte list \<times> error_ptr \<times> 'w bio_ctx) outcome" where
  "bio_buffered_read io buffer num_bytes error s =
    (let p = bio_resolve_handle buffer BIO_BUFFER_HANDLE (handles s) in
     if p \<noteq> NULL then
       rbind (deref (io_buffers (rest s)) p) (\<lambda>impl.
       if read_fn (buf_options impl) \<noteq> NULL_FN then
         rbind (refill io p error s) (\<lambda>(ok, error, s).
         if ok then
           rbind (deref (io_buffers (rest s)) p) (\<lambda>impl.
           let data_available = buf_data_size impl - buf_offset impl;
               num_bytes_to_read = (if num_bytes < data_available then num_bytes else data_available) in
           rbind (slice (buf_offset impl) num_bytes_to_read (buf_data impl)) (\<lambda>bs.
           Inr (bs, error, set_io_buffers (put p (impl\<lparr>buf_offset := buf_offset impl + num_bytes_to_read\<rparr>) (io_buffers (rest s))) s)))
         else Inr ([], error, s))
       else Inr ([], bio_set_core_error (''src/buffering.c'', 168) error BIO_ERROR_NOT_SUPPORTED, s))
     else Inr ([], bio_set_core_error (''src/buffering.c'', 172) error BIO_ERROR_INVALID_ARGUMENT, s))"

definition bio_buffered_write :: "'w io_calls \<Rightarrow> bio_handle \<Rightarrow> byte list \<Rightarrow> error_ptr \<Rightarrow> 'w bio_ctx \<Rightarrow> (nat \<times> error_ptr \<times> 'w bio_ctx) outcome" where
  "bio_buffered_write io buffer out error s =
    (let p = bio_resolve_handle buffer BIO_BUFFER_HANDLE (handles s); size = length out in
     if p \<noteq> NULL then
       rbind (deref (io_buffers (rest s)) p) (\<lambda>impl.
       if write_fn (buf_options impl) \<noteq> NULL_FN then
         rbind (if buf_offset impl + size > buf_size (buf_options impl)
                then bio_flush_internal_buffer io p error s else Inr (True, error, s)) (\<lambda>(ok, error, s).
         if \<not> ok then Inr (0, error, s)
         else
           rbind (deref (io_buffers (rest s)) p) (\<lambda>impl.
           if buf_offset impl + size \<le> buf_size (buf_options impl) then
             (if buf_offset impl + size \<le> length (buf_data impl) then
                (let impl = impl\<lparr>buf_data := take (buf_offset impl) (buf_data impl) @ out @ drop (buf_offset impl + size) (buf_data impl),
                                 buf_offset := buf_offset impl + size\<rparr> in
                 Inr (size, error, set_io_buffers (put p impl (io_buffers (rest s))) s))
              else Inl DanglingPointer)
           else call_write io (write_fn (buf_options impl)) (buf_ctx (buf_options impl)) out error s))
       else Inr (0, bio_set_core_error (''src/buffering.c'', 204) error BIO_ERROR_NOT_SUPPORTED, s))
     else Inr (0, bio_set_core_error (''src/buffering.c'', 208) error BIO_ERROR_INVALID_ARGUMENT, s))"

definition bio_flush_buffer :: "'w io_calls \<Rightarrow> bio_handle \<Rightarrow> error_ptr \<Rightarrow> 'w bio_ctx \<Rightarrow> (bool \<times> error_ptr \<times> 'w bio_ctx) outcome" where
  "bio_flush_buffer io buffer error s =
    (let p = bio_resolve_handle buffer BIO_BUFFER_HANDLE (handles s) in
     if p \<noteq> NULL then
       rbind (deref (io_buffers (rest s)) p) (\<lambda>impl.
       if write_fn (buf_options impl) \<noteq> NULL_FN then
         rbind (if buf_offset impl > 0 then bio_flush_internal_buffer io p error s else Inr (True, error, s)) (\<lambda>(ok, error, s).
         if \<not> ok then Inr (False, error, s)
         else
           rbind (deref (io_buffers (rest s)) p) (\<lambda>impl.
           if flush_fn (buf_options impl) \<noteq> NULL_FN
           then call_flush io (flush_fn (buf_options impl)) (buf_ctx (buf_options impl)) error s
           else Inr (True, error, s)))
       else Inr (False, bio_set_core_error (''src/buffering.c'', 228) error BIO_ERROR_NOT_SUPPORTED, s))
     else Inr (False, bio_set_core_error (''src/buffering.c'', 232) error BIO_ERROR_INVALID_ARGUMENT, s))"

text \<open>
  \<open>bio_buffered_read_exactly\<close> and \<open>bio_buffered_write_exactly\<close>, the loops around
  short reads and writes: \<open>num_bytes\<close> is what is still to be read.
\<close>

function bio_buffered_read_exactly :: "'w io_calls \<Rightarrow> bio_handle \<Rightarrow> nat \<Rightarrow> error_ptr \<Rightarrow> 'w bio_ctx \<Rightarrow> (byte list \<times> error_ptr \<times> 'w bio_ctx) outcome" where
  "bio_buffered_read_exactly io buffer num_bytes error s =
    (if 0 < num_bytes then
       rbind (bio_buffered_read io buffer num_bytes error s) (\<lambda>(bs, error, s).
       if length bs = 0 then Inr ([], error, s)
       else rbind (bio_buffered_read_exactly io buffer (num_bytes - length bs) error s) (\<lambda>(bs', error, s). Inr (bs @ bs', error, s)))
     else Inr ([], error, s))"
  by pat_completeness auto
termination by (relation "measure (\<lambda>(_, _, n, _, _). n)") auto

declare bio_buffered_read_exactly.simps [simp del]

function bio_buffered_write_exactly :: "'w io_calls \<Rightarrow> bio_handle \<Rightarrow> byte list \<Rightarrow> error_ptr \<Rightarrow> 'w bio_ctx \<Rightarrow> (nat \<times> error_ptr \<times> 'w bio_ctx) outcome" where
  "bio_buffered_write_exactly io buffer out error s =
    (if 0 < length out then
       rbind (bio_buffered_write io buffer out error s) (\<lambda>(n, error, s).
       if n = 0 then Inr (0, error, s)
       else rbind (bio_buffered_write_exactly io buffer (drop n out) error s) (\<lambda>(m, error, s). Inr (n + m, error, s)))
     else Inr (0, error, s))"
  by pat_completeness auto
termination by (relation "measure (\<lambda>(_, _, out, _, _). length out)") auto

declare bio_buffered_write_exactly.simps [simp del]

section \<open>Buffers as streams\<close>

text \<open>The buffer behind a handle, and the bytes it holds back.\<close>

definition buffer_at :: "addr \<Rightarrow> bio_handle \<Rightarrow> 'w bio_ctx \<Rightarrow> bio_io_buffer_impl \<Rightarrow> bool" where
  "buffer_at p h s b \<longleftrightarrow>
     p \<noteq> NULL \<and> bio_resolve_handle h BIO_BUFFER_HANDLE (handles s) = p \<and> map_of (io_buffers (rest s)) p = Some b"

definition unread :: "bio_io_buffer_impl \<Rightarrow> byte list" where
  "unread b = take (buf_data_size b - buf_offset b) (drop (buf_offset b) (buf_data b))"

definition unwritten :: "bio_io_buffer_impl \<Rightarrow> byte list" where
  "unwritten b = take (buf_offset b) (buf_data b)"

definition read_ok :: "bio_io_buffer_impl \<Rightarrow> bool" where
  "read_ok b \<longleftrightarrow> read_fn (buf_options b) \<noteq> NULL_FN \<and> length (buf_data b) = buf_size (buf_options b)
     \<and> buf_offset b \<le> buf_data_size b \<and> buf_data_size b \<le> buf_size (buf_options b)"

definition write_ok :: "bio_io_buffer_impl \<Rightarrow> bool" where
  "write_ok b \<longleftrightarrow> write_fn (buf_options b) \<noteq> NULL_FN \<and> length (buf_data b) = buf_size (buf_options b)
     \<and> buf_offset b \<le> buf_size (buf_options b)"

text \<open>
  What the buffering code relies on. While a callback runs nobody else uses the
  buffer, a read callback delivers the next bytes of its source \<open>src\<close>, and a write
  callback appends what it takes to its sink \<open>dst\<close>. A reliable source (\<open>reliable\<close>)
  delivers nothing only when it has come to its end.
\<close>

definition keeps_buffer :: "addr \<Rightarrow> bio_handle \<Rightarrow> 'w bio_ctx \<Rightarrow> 'w bio_ctx \<Rightarrow> bool" where
  "keeps_buffer p h s s' \<longleftrightarrow>
     bio_resolve_handle h BIO_BUFFER_HANDLE (handles s') = bio_resolve_handle h BIO_BUFFER_HANDLE (handles s)
   \<and> map_of (io_buffers (rest s')) p = map_of (io_buffers (rest s)) p"

definition reads_from :: "bool \<Rightarrow> 'w io_calls \<Rightarrow> bio_buffer_options \<Rightarrow> addr \<Rightarrow> bio_handle \<Rightarrow> ('w \<Rightarrow> byte list) \<Rightarrow> bool" where
  "reads_from reliable io opt p h src \<longleftrightarrow>
    (\<forall>n error s. safe (call_read io (read_fn opt) (buf_ctx opt) n error s) (\<lambda>(bs, _, s').
       length bs \<le> n \<and> src (world s) = bs @ src (world s') \<and> (reliable \<and> 0 < n \<and> bs = [] \<longrightarrow> src (world s) = []) \<and> keeps_buffer p h s s'))"

definition writes_to :: "'w io_calls \<Rightarrow> bio_buffer_options \<Rightarrow> addr \<Rightarrow> bio_handle \<Rightarrow> ('w \<Rightarrow> byte list) \<Rightarrow> bool" where
  "writes_to io opt p h dst \<longleftrightarrow>
    (\<forall>bs error s. safe (call_write io (write_fn opt) (buf_ctx opt) bs error s) (\<lambda>(n, _, s').
       n \<le> length bs \<and> dst (world s') = dst (world s) @ take n bs \<and> keeps_buffer p h s s'))
  \<and> (\<forall>error s. flush_fn opt \<noteq> NULL_FN \<longrightarrow>
       safe (call_flush io (flush_fn opt) (buf_ctx opt) error s) (\<lambda>(_, _, s'). dst (world s') = dst (world s) \<and> keeps_buffer p h s s'))"

lemma keeps_buffer_refl [simp]: "keeps_buffer p h s s"
  by (simp add: keeps_buffer_def)

lemma keeps_buffer_trans: "keeps_buffer p h a b \<Longrightarrow> keeps_buffer p h b c \<Longrightarrow> keeps_buffer p h a c"
  by (simp add: keeps_buffer_def)

lemma keeps_buffer_at: "keeps_buffer p h s s' \<Longrightarrow> buffer_at p h s' b = buffer_at p h s b"
  by (auto simp: keeps_buffer_def buffer_at_def)

lemma buffer_atD:
  assumes "buffer_at p h s b"
  shows "bio_resolve_handle h BIO_BUFFER_HANDLE (handles s) = p" "p \<noteq> NULL" "map_of (io_buffers (rest s)) p = Some b"
  using assms by (simp_all add: buffer_at_def)

lemma buffer_at_put [simp]: "buffer_at p h s b0 \<Longrightarrow> buffer_at p h (set_io_buffers (put p b bs) s) b' \<longleftrightarrow> b' = b"
  by (auto simp: buffer_at_def)

lemma slice_in: "off + n \<le> length data \<Longrightarrow> slice off n data = Inr (take n (drop off data))"
  by (simp add: slice_def)

section \<open>Reading\<close>

lemma refill_safe:
  assumes "buffer_at p h s b" "read_ok b" "reads_from reliable io (buf_options b) p h src"
  shows "safe (refill io p error s) (\<lambda>(ok, _, s').
    (\<exists>b'. buffer_at p h s' b' \<and> read_ok b' \<and> buf_options b' = buf_options b
        \<and> unread b @ src (world s) = unread b' @ src (world s') \<and> (ok \<longleftrightarrow> unread b' \<noteq> [])
        \<and> (\<not> ok \<and> reliable \<and> 0 < buf_size (buf_options b) \<longrightarrow> src (world s') = [])))"
proof -
  note b = buffer_atD [OF assms(1)]
  have r: "safe (call_read io (read_fn (buf_options b)) (buf_ctx (buf_options b)) n e s) (\<lambda>(bs, _, s').
      length bs \<le> n \<and> src (world s) = bs @ src (world s') \<and> (reliable \<and> 0 < n \<and> bs = [] \<longrightarrow> src (world s) = []) \<and> keeps_buffer p h s s')" for n e
    using assms(3) by (simp add: reads_from_def)
  show ?thesis
  proof (cases "buf_offset b < buf_data_size b")
    case True
    then have "unread b \<noteq> []" using assms(2) by (simp add: unread_def read_ok_def)
    with True b assms show ?thesis by (auto simp: refill_def)
  next
    case False
    then have nil: "unread b = []" by (simp add: unread_def)
    show ?thesis
      unfolding refill_def deref_Some [OF b(3)] rbind_simps using False
    proof (simp only: not_False_eq_True if_True, intro safe_bind [OF r], goal_cases)
      case (1 x)
      obtain bs e s1 where x: "x = (bs, e, s1)" by (cases x)
      with 1 have s1: "length bs \<le> buf_size (buf_options b)" "src (world s) = bs @ src (world s1)" "keeps_buffer p h s s1"
        "reliable \<and> 0 < buf_size (buf_options b) \<and> bs = [] \<longrightarrow> src (world s) = []" by auto
      have b1: "buffer_at p h s1 b" using assms(1) keeps_buffer_at [OF s1(3)] by simp
      note p1 = buffer_atD(3) [OF b1]
      have "0 < buf_size (buf_options b)" if "bs \<noteq> []" using s1(1) that by (cases bs) auto
      then show ?case
        using s1 b1 assms(2) nil by (auto simp: x p1 read_ok_def unread_def Let_def)
    qed
  qed
qed

lemma buffered_read_safe:
  assumes "buffer_at p h s b" "read_ok b" "reads_from reliable io (buf_options b) p h src"
  shows "safe (bio_buffered_read io h n error s) (\<lambda>(bs, _, s').
    \<exists>b'. buffer_at p h s' b' \<and> read_ok b' \<and> buf_options b' = buf_options b
      \<and> unread b @ src (world s) = bs @ unread b' @ src (world s') \<and> length bs \<le> n
      \<and> (bs = [] \<and> 0 < n \<longrightarrow> unread b' = [] \<and> (reliable \<and> 0 < buf_size (buf_options b) \<longrightarrow> src (world s') = [])))"
proof -
  note b = buffer_atD [OF assms(1)]
  have f: "read_fn (buf_options b) \<noteq> NULL_FN" using assms(2) by (simp add: read_ok_def)
  show ?thesis
    unfolding bio_buffered_read_def Let_def b(1) deref_Some [OF b(3)] rbind_simps if_P [OF b(2)] if_P [OF f]
  proof (rule safe_bind [OF refill_safe [OF assms]], goal_cases)
    case (1 x)
    obtain ok e s1 where x: "x = (ok, e, s1)" by (cases x)
    with 1 obtain b' where b': "buffer_at p h s1 b'"
        "read_ok b'" "buf_options b' = buf_options b" "unread b @ src (world s) = unread b' @ src (world s1)" "ok \<longleftrightarrow> unread b' \<noteq> []"
        "\<not> ok \<and> reliable \<and> 0 < buf_size (buf_options b) \<longrightarrow> src (world s1) = []" by auto
    note p1 = buffer_atD(3) [OF b'(1)]
    let ?n = "if n < buf_data_size b' - buf_offset b' then n else buf_data_size b' - buf_offset b'"
    have sl: "slice (buf_offset b') ?n (buf_data b') = Inr (take n (unread b'))"
      using b'(2) by (auto simp: slice_def read_ok_def unread_def)
    have drop_n: "unread (b'\<lparr>buf_offset := buf_offset b' + ?n\<rparr>) = drop n (unread b')"
      by (auto simp: unread_def drop_take ac_simps)
    have split: "take n (unread b') @ drop n (unread b') @ ys = unread b' @ ys" for ys
      by (metis append_assoc append_take_drop_id)
    show ?case
    proof (cases ok)
      case False
      then show ?thesis using b' by (auto simp: x)
    next
      case True
      then show ?thesis
        using b' p1 unfolding x prod.case if_P [OF True] deref_Some [OF p1] rbind_simps sl
        by (auto simp: drop_n split read_ok_def)
    qed
  qed
qed

text \<open>Reading in a loop delivers a prefix of what is left of the stream: all that was asked for if there is enough.\<close>

lemma read_exactly_safe:
  assumes "buffer_at p h s b" "read_ok b" "reads_from reliable io (buf_options b) p h src"
  shows "safe (bio_buffered_read_exactly io h n error s) (\<lambda>(bs, _, s').
    \<exists>b'. buffer_at p h s' b' \<and> read_ok b' \<and> buf_options b' = buf_options b
      \<and> unread b @ src (world s) = bs @ unread b' @ src (world s') \<and> length bs \<le> n
      \<and> (reliable \<and> 0 < buf_size (buf_options b) \<longrightarrow> bs = take n (unread b @ src (world s))))"
  using assms
proof (induction n arbitrary: s b error rule: less_induct)
  case (less n)
  show ?case
  proof (cases "n = 0")
    case True
    then show ?thesis using less.prems by (auto simp: bio_buffered_read_exactly.simps)
  next
    case False
    show ?thesis
      unfolding bio_buffered_read_exactly.simps [of io h n] if_P [OF False [unfolded neq0_conv]]
    proof (rule safe_bind [OF buffered_read_safe [OF less.prems]], goal_cases)
      case (1 x)
      obtain bs e s1 where x: "x = (bs, e, s1)" by (cases x)
      with 1 obtain b1 where b1: "buffer_at p h s1 b1" "read_ok b1" "buf_options b1 = buf_options b"
          "unread b @ src (world s) = bs @ unread b1 @ src (world s1)" "length bs \<le> n"
          "bs = [] \<and> 0 < n \<longrightarrow> unread b1 = [] \<and> (reliable \<and> 0 < buf_size (buf_options b) \<longrightarrow> src (world s1) = [])" by auto
      show ?case
      proof (cases "bs = []")
        case True
        then show ?thesis using b1 False by (auto simp: x)
      next
        case False
        then have lt: "n - length bs < n" using b1(5) \<open>n \<noteq> 0\<close> by simp
        have nz: "length bs \<noteq> 0" using False by simp
        show ?thesis
          unfolding x prod.case if_not_P [OF nz]
        proof (rule safe_bind [OF less.IH [OF lt b1(1,2), unfolded b1(3), OF less.prems(3)]], goal_cases)
          case (1 y)
          obtain bs' e' s2 where y: "y = (bs', e', s2)" by (cases y)
          from 1 [unfolded y prod.case] obtain b2 where b2: "buffer_at p h s2 b2" "read_ok b2" "buf_options b2 = buf_options b"
              "unread b1 @ src (world s1) = bs' @ unread b2 @ src (world s2)" "length bs' \<le> n - length bs"
              "reliable \<and> 0 < buf_size (buf_options b) \<longrightarrow> bs' = take (n - length bs) (unread b1 @ src (world s1))" by blast
          have "bs @ bs' = take n (unread b @ src (world s))" if "bs' = take (n - length bs) (unread b1 @ src (world s1))"
            using b1(4,5) that by simp
          moreover have "unread b @ src (world s) = (bs @ bs') @ unread b2 @ src (world s2)" "length (bs @ bs') \<le> n"
            using b1(4,5) b2(4,5) by simp_all
          ultimately show ?case unfolding y prod.case safe_simps using b2 by blast
        qed
      qed
    qed
  qed
qed

section \<open>Writing\<close>

lemma flush_loop_safe:
  assumes "buffer_at p h s b" "writes_to io (buf_options b) p h dst" "done_bytes + n \<le> length (buf_data b)"
  shows "safe (flush_loop io p done_bytes n error s) (\<lambda>(ok, _, s').
    keeps_buffer p h s s' \<and> (\<exists>k \<le> n. dst (world s') = dst (world s) @ take k (drop done_bytes (buf_data b)) \<and> (ok \<longleftrightarrow> k = n)))"
  using assms
proof (induction n arbitrary: s done_bytes error rule: less_induct)
  case (less n)
  note b = buffer_atD [OF less.prems(1)]
  show ?case
  proof (cases "0 < n")
    case False
    then show ?thesis by (simp add: flush_loop.simps)
  next
    case True
    have w: "safe (call_write io (write_fn (buf_options b)) (buf_ctx (buf_options b)) bs e s) (\<lambda>(m, _, s').
        m \<le> length bs \<and> dst (world s') = dst (world s) @ take m bs \<and> keeps_buffer p h s s')" for bs e
      using less.prems(2) by (simp add: writes_to_def)
    show ?thesis
      unfolding flush_loop.simps [of io _ done_bytes n] if_P [OF True] deref_Some [OF b(3)] rbind_simps slice_in [OF less.prems(3)]
    proof (rule safe_bind [OF w], goal_cases)
      case (1 x)
      obtain m e s1 where x: "x = (m, e, s1)" by (cases x)
      with 1 less.prems(3) have m: "m \<le> n" "dst (world s1) = dst (world s) @ take m (drop done_bytes (buf_data b))" "keeps_buffer p h s s1" by auto
      have b1: "buffer_at p h s1 b" using less.prems(1) keeps_buffer_at [OF m(3)] by simp
      show ?case
      proof (cases "m = 0")
        case True
        then show ?thesis using m \<open>0 < n\<close> by (auto simp: x)
      next
        case False
        have "safe (flush_loop io p (done_bytes + m) (n - m) e s1) (\<lambda>(ok, _, s').
            keeps_buffer p h s1 s' \<and> (\<exists>k \<le> n - m. dst (world s') = dst (world s1) @ take k (drop (done_bytes + m) (buf_data b)) \<and> (ok \<longleftrightarrow> k = n - m)))"
          using less.IH [of "n - m" s1 "done_bytes + m" e] b1 less.prems(2,3) m(1) False \<open>0 < n\<close> by simp
        then show ?thesis
          unfolding x prod.case if_not_P [OF False] if_P [OF m(1)]
        proof (rule safe_mono, goal_cases)
          case (1 y)
          obtain ok e' s2 where y: "y = (ok, e', s2)" by (cases y)
          with 1 obtain k where k: "k \<le> n - m" "dst (world s2) = dst (world s1) @ take k (drop (done_bytes + m) (buf_data b))"
              "ok \<longleftrightarrow> k = n - m" "keeps_buffer p h s1 s2" by auto
          have "dst (world s2) = dst (world s) @ take (m + k) (drop done_bytes (buf_data b))"
            by (simp add: k(2) m(2) take_add [of m k] add.commute [of m done_bytes])
          then show ?case using k m keeps_buffer_trans [OF m(3) k(4)] by (auto simp: y intro!: exI [of _ "m + k"])
        qed
      qed
    qed
  qed
qed

lemma flush_internal_safe:
  assumes "buffer_at p h s b" "write_ok b" "writes_to io (buf_options b) p h dst"
  shows "safe (bio_flush_internal_buffer io p error s) (\<lambda>(ok, _, s').
    (if ok then buffer_at p h s' (b\<lparr>buf_offset := 0\<rparr>) \<and> dst (world s') = dst (world s) @ unwritten b
       else buffer_at p h s' b \<and> (\<exists>k < length (unwritten b). dst (world s') = dst (world s) @ take k (unwritten b))))"
proof -
  note b = buffer_atD [OF assms(1)]
  have len: "0 + buf_offset b \<le> length (buf_data b)" using assms(2) by (simp add: write_ok_def)
  show ?thesis
    unfolding bio_flush_internal_buffer_def deref_Some [OF b(3)] rbind_simps
  proof (rule safe_bind [OF flush_loop_safe [OF assms(1,3) len]], goal_cases)
    case (1 x)
    obtain ok e s1 where x: "x = (ok, e, s1)" by (cases x)
    with 1 obtain k where k: "k \<le> buf_offset b" "dst (world s1) = dst (world s) @ take k (buf_data b)" "ok \<longleftrightarrow> k = buf_offset b"
      and kb: "keeps_buffer p h s s1" by auto
    have b1: "buffer_at p h s1 b" using assms(1) keeps_buffer_at [OF kb] by simp
    note p1 = buffer_atD(3) [OF b1]
    have lu: "length (unwritten b) = buf_offset b" using len by (simp add: unwritten_def)
    show ?case
    proof (cases ok)
      case True
      then show ?thesis using k b1 p1 by (simp add: x unwritten_def)
    next
      case False
      then have "k < length (unwritten b)" "take k (unwritten b) = take k (buf_data b)"
        using k lu by (auto simp: unwritten_def min_def)
      then show ?thesis using False k b1 by (auto simp: x)
    qed
  qed
qed

text \<open>
  The outcomes of a write of \<open>out\<close>: the stream of what was written and what is
  held back grows by the bytes that were taken; or nothing was taken because the
  buffer could not be flushed, and a part of it may have been written already.
\<close>

definition wrote :: "('w \<Rightarrow> byte list) \<Rightarrow> addr \<Rightarrow> bio_handle \<Rightarrow> bio_io_buffer_impl \<Rightarrow> byte list \<Rightarrow> nat \<Rightarrow> 'w bio_ctx \<Rightarrow> 'w bio_ctx \<Rightarrow> bool" where
  "wrote dst p h b out n s s' \<longleftrightarrow>
    (\<exists>b'. buffer_at p h s' b' \<and> write_ok b' \<and> buf_options b' = buf_options b
      \<and> dst (world s') @ unwritten b' = dst (world s) @ unwritten b @ take n out)
  \<or> (n = 0 \<and> buffer_at p h s' b \<and> (\<exists>k < length (unwritten b). dst (world s') = dst (world s) @ take k (unwritten b)))"

lemma buffered_write_safe:
  assumes "buffer_at p h s b" "write_ok b" "writes_to io (buf_options b) p h dst"
  shows "safe (bio_buffered_write io h out error s) (\<lambda>(n, _, s'). n \<le> length out \<and> wrote dst p h b out n s s')"
proof -
  note b = buffer_atD [OF assms(1)]
  have f: "write_fn (buf_options b) \<noteq> NULL_FN" and len: "length (buf_data b) = buf_size (buf_options b)" "buf_offset b \<le> buf_size (buf_options b)"
    using assms(2) by (simp_all add: write_ok_def)
  have w: "safe (call_write io (write_fn (buf_options b)) (buf_ctx (buf_options b)) bs e s1) (\<lambda>(m, _, s').
      m \<le> length bs \<and> dst (world s') = dst (world s1) @ take m bs \<and> keeps_buffer p h s1 s')" for bs e s1
    using assms(3) by (simp add: writes_to_def)
  have step: "safe (if buf_offset b + length out > buf_size (buf_options b)
      then bio_flush_internal_buffer io p error s else Inr (True, error, s)) (\<lambda>(ok, _, s').
      (if ok then \<exists>b'. buffer_at p h s' b' \<and> write_ok b' \<and> buf_options b' = buf_options b
             \<and> dst (world s') @ unwritten b' = dst (world s) @ unwritten b \<and> (buf_size (buf_options b) < buf_offset b' + length out \<longrightarrow> buf_offset b' = 0)
         else wrote dst p h b out 0 s s'))"
    using assms(1,2) len
    by (auto intro!: safe_mono [OF flush_internal_safe [OF assms]] simp: write_ok_def unwritten_def wrote_def split: if_splits)
  show ?thesis
    unfolding bio_buffered_write_def Let_def b(1) deref_Some [OF b(3)] rbind_simps if_P [OF b(2)] if_P [OF f]
  proof (rule safe_bind [OF step], goal_cases)
    case (1 x)
    obtain ok e s1 where x: "x = (ok, e, s1)" by (cases x)
    show ?case
    proof (cases ok)
      case False
      then show ?thesis using 1 by (simp add: x)
    next
      case True
      with 1 x obtain b1 where b1: "buffer_at p h s1 b1" "write_ok b1"
          "buf_options b1 = buf_options b" "dst (world s1) @ unwritten b1 = dst (world s) @ unwritten b"
          "buf_size (buf_options b) < buf_offset b1 + length out \<longrightarrow> buf_offset b1 = 0" by auto
      note p1 = buffer_atD(3) [OF b1(1)]
      show ?thesis
      proof (cases "buf_offset b1 + length out \<le> buf_size (buf_options b)")
        case fits: True
        have "dst (world s1) @ take (buf_offset b1) (buf_data b1) @ out = dst (world s) @ unwritten b @ out"
          using b1(4) by (simp add: unwritten_def flip: append_assoc)
        with fits True b1 p1 show ?thesis by (auto simp: x wrote_def write_ok_def unwritten_def)
      next
        case False
        then have "unwritten b1 = []" using b1(5) by (simp add: unwritten_def)
        then have d: "dst (world s1) = dst (world s) @ unwritten b" using b1(4) by simp
        have "wrote dst p h b out m s s2" if "dst (world s2) = dst (world s1) @ take m out" "keeps_buffer p h s1 s2" for m s2
          using b1(1-3) that keeps_buffer_at [OF that(2)] \<open>unwritten b1 = []\<close> by (auto simp: wrote_def d)
        then show ?thesis
          using True False p1 b1(3) by (auto simp: x intro!: safe_mono [OF w])
      qed
    qed
  qed
qed

lemma write_exactly_safe:
  assumes "buffer_at p h s b" "write_ok b" "writes_to io (buf_options b) p h dst"
  shows "safe (bio_buffered_write_exactly io h out error s) (\<lambda>(n, _, s'). n \<le> length out
    \<and> (n = length out \<longrightarrow> (\<exists>b'. buffer_at p h s' b' \<and> write_ok b' \<and> buf_options b' = buf_options b
          \<and> dst (world s') @ unwritten b' = dst (world s) @ unwritten b @ out)))"
  using assms
proof (induction "length out" arbitrary: out s b error rule: less_induct)
  case less
  show ?case
  proof (cases "0 < length out")
    case False
    then show ?thesis using less.prems by (auto simp: bio_buffered_write_exactly.simps)
  next
    case True
    show ?thesis
      unfolding bio_buffered_write_exactly.simps [of io h out] if_P [OF True]
    proof (rule safe_bind [OF buffered_write_safe [OF less.prems]], goal_cases)
      case (1 x)
      obtain n e s1 where x: "x = (n, e, s1)" by (cases x)
      show ?case
      proof (cases "n = 0")
        case True
        then show ?thesis using \<open>0 < length out\<close> by (simp add: x)
      next
        case False
        with 1 x obtain b1 where b1: "buffer_at p h s1 b1" "write_ok b1" "buf_options b1 = buf_options b" "n \<le> length out"
            "dst (world s1) @ unwritten b1 = dst (world s) @ unwritten b @ take n out" by (auto simp: wrote_def)
        have lt: "length (drop n out) < length out" using False True by simp
        have "dst (world s1) @ unwritten b1 @ drop n out = dst (world s) @ unwritten b @ out"
          using b1(5) by (metis append_assoc append_take_drop_id)
        then show ?thesis
          unfolding x prod.case if_not_P [OF False]
          by (intro safe_bind [OF less.hyps [OF lt b1(1,2), unfolded b1(3), OF less.prems(3)]]) (use b1(4) in auto)
      qed
    qed
  qed
qed

lemma flush_buffer_safe:
  assumes "buffer_at p h s b" "write_ok b" "writes_to io (buf_options b) p h dst"
  shows "safe (bio_flush_buffer io h error s) (\<lambda>(ok, _, s').
    ok \<longrightarrow> (\<exists>b'. buffer_at p h s' b' \<and> write_ok b' \<and> unwritten b' = [] \<and> dst (world s') = dst (world s) @ unwritten b))"
proof -
  note b = buffer_atD [OF assms(1)]
  have f: "write_fn (buf_options b) \<noteq> NULL_FN" using assms(2) by (simp add: write_ok_def)
  have step: "safe (if buf_offset b > 0 then bio_flush_internal_buffer io p error s else Inr (True, error, s)) (\<lambda>(ok, _, s').
      (ok \<longrightarrow> (\<exists>b'. buffer_at p h s' b' \<and> write_ok b' \<and> unwritten b' = [] \<and> buf_options b' = buf_options b \<and> dst (world s') = dst (world s) @ unwritten b)))"
    using assms(1,2)
    by (auto intro!: safe_mono [OF flush_internal_safe [OF assms]] simp: write_ok_def unwritten_def split: if_splits)
  show ?thesis
    unfolding bio_flush_buffer_def Let_def b(1) deref_Some [OF b(3)] rbind_simps if_P [OF b(2)] if_P [OF f]
  proof (rule safe_bind [OF step], goal_cases)
    case (1 x)
    obtain ok e s1 where x: "x = (ok, e, s1)" by (cases x)
    show ?case
    proof (cases ok)
      case False
      then show ?thesis by (simp add: x)
    next
      case True
      with 1 x obtain b1 where b1: "buffer_at p h s1 b1" "write_ok b1"
          "unwritten b1 = []" "buf_options b1 = buf_options b" "dst (world s1) = dst (world s) @ unwritten b" by auto
      note p1 = buffer_atD(3) [OF b1(1)]
      have "safe (call_flush io (flush_fn (buf_options b)) (buf_ctx (buf_options b)) e s1) (\<lambda>(_, _, s'). dst (world s') = dst (world s1) \<and> keeps_buffer p h s1 s')"
        if "flush_fn (buf_options b) \<noteq> NULL_FN" using assms(3) that by (simp add: writes_to_def)
      then show ?thesis
        using True b1 p1 by (auto simp: x keeps_buffer_at elim!: safe_mono) blast
    qed
  qed
qed

section \<open>The life of a buffer\<close>

text \<open>The buffers of a context: every live buffer handle names one, and every buffer has its handle.\<close>

definition buffer_inv :: "'w bio_ctx \<Rightarrow> bool" where
  "buffer_inv s \<longleftrightarrow> allocator_ok (allocator s) \<and> handle_inv (handles s) \<and> owned BIO_BUFFER_HANDLE (handles s) (io_buffers (rest s))"

lemma make_buffer_safe:
  assumes "buffer_inv s"
  shows "safe (bio_make_buffer opt s) (\<lambda>(h, s'). buffer_inv s' \<and> issued (handles s') h \<and> world s' = world s
    \<and> (\<exists>p b. buffer_at p h s' b \<and> buf_options b = opt \<and> unread b = [] \<and> unwritten b = []
        \<and> (read_fn opt \<noteq> NULL_FN \<longrightarrow> read_ok b) \<and> (write_fn opt \<noteq> NULL_FN \<longrightarrow> write_ok b)))"
proof -
  have a: "allocator_ok (allocator s)" "handle_inv (handles s)" "owned BIO_BUFFER_HANDLE (handles s) (io_buffers (rest s))"
    using assms by (auto simp: buffer_inv_def)
  note fresh = bio_malloc_fresh [OF a(1)]
  show ?thesis
    unfolding bio_make_buffer_def Let_def
  proof (rule safe_bind [OF make_safe [OF a(2)]], goal_cases)
    case (1 x)
    then obtain h ht where x: "x = (h, ht)" and m: "made (handles s) h (bio_malloc s) BIO_BUFFER_HANDLE ht" by (cases x) auto
    show ?case
      using m made_resolve [OF m] owned_make [OF a(3) m fresh(9,1)] fresh(1) a
      by (auto simp: x buffer_inv_def made_def unread_def unwritten_def read_ok_def write_ok_def buffer_at_def)
  qed
qed

text \<open>Destroying a buffer frees it and hands what it held back to the write callback, once.\<close>

lemma destroy_buffer_safe:
  assumes inv: "buffer_inv s" and h: "issued (handles s) h" and b: "buffer_at p h s b" "write_ok b"
    and w: "writes_to io (buf_options b) p h dst"
  shows "safe (bio_destroy_buffer io h s) (\<lambda>s'. map_of (io_buffers (rest s')) p = None
    \<and> bio_resolve_handle h BIO_BUFFER_HANDLE (handles s') = NULL
    \<and> (\<exists>n \<le> length (unwritten b). dst (world s') = dst (world s) @ take n (unwritten b)))"
proof -
  note D = buffer_atD [OF b(1)]
  have hi: "handle_inv (handles s)" using inv by (simp add: buffer_inv_def)
  note l = resolve_live [OF hi h D(1,2)]
  have len: "0 + buf_offset b \<le> length (buf_data b)" "length (unwritten b) = buf_offset b"
    using b(2) by (simp_all add: write_ok_def unwritten_def)
  have f: "write_fn (buf_options b) \<noteq> NULL_FN" using b(2) by (simp add: write_ok_def)
  have 1: "safe (call_write io (write_fn (buf_options b)) (buf_ctx (buf_options b)) bs e s1) (\<lambda>(m, _, s').
      m \<le> length bs \<and> dst (world s') = dst (world s1) @ take m bs \<and> keeps_buffer p h s1 s')" for bs e s1
    using w by (simp add: writes_to_def)
  have 2: "safe (call_flush io (flush_fn (buf_options b)) (buf_ctx (buf_options b)) e s1) (\<lambda>(_, _, s'). dst (world s') = dst (world s1) \<and> keeps_buffer p h s1 s')"
    if "flush_fn (buf_options b) \<noteq> NULL_FN" for e s1 using w that by (simp add: writes_to_def)
  let ?Q = "\<lambda>s'. map_of (io_buffers (rest s')) p = Some b \<and> bio_resolve_handle h BIO_BUFFER_HANDLE (handles s') = NULL
    \<and> (\<exists>n \<le> length (unwritten b). dst (world s') = dst (world s) @ take n (unwritten b))"
  have F: "safe (if flush_fn (buf_options b) \<noteq> NULL_FN
      then rbind (call_flush io (flush_fn (buf_options b)) (buf_ctx (buf_options b)) None s1) (\<lambda>(_, _, s). Inr s) else Inr s1) ?Q"
    if "?Q s1" for s1
    using that by (auto simp: keeps_buffer_def intro!: safe_mono [OF 2])
  show ?thesis
    unfolding bio_destroy_buffer_def
  proof (rule safe_bind [OF close_safe [OF hi l]], goal_cases)
    case (1 x)
    then obtain ht where x: "x = (p, ht)" and c: "closed (handles s) h p BIO_BUFFER_HANDLE ht" by (cases x) auto
    let ?s = "s\<lparr>handles := ht\<rparr>"
    have r: "bio_resolve_handle h BIO_BUFFER_HANDLE ht = NULL" by (rule closed_resolve [OF c hi])
    have W: "safe (call_write io (write_fn (buf_options b)) (buf_ctx (buf_options b)) (unwritten b) None ?s) (\<lambda>(_, _, s'). ?Q s')"
      by (rule safe_mono [OF \<open>\<And>bs e s1. safe (call_write io (write_fn (buf_options b)) (buf_ctx (buf_options b)) bs e s1) _\<close>])
        (auto simp: keeps_buffer_def r D(3))
    have B: "safe (if buf_offset b > 0 then
        rbind (if write_fn (buf_options b) \<noteq> NULL_FN then
          rbind (slice 0 (buf_offset b) (buf_data b)) (\<lambda>bs.
          rbind (call_write io (write_fn (buf_options b)) (buf_ctx (buf_options b)) bs None ?s) (\<lambda>(_, _, s). Inr s))
        else Inr ?s) (\<lambda>s.
        rbind (deref (io_buffers (rest s)) p) (\<lambda>impl.
        if flush_fn (buf_options impl) \<noteq> NULL_FN then
          rbind (call_flush io (flush_fn (buf_options impl)) (buf_ctx (buf_options impl)) None s) (\<lambda>(_, _, s). Inr s)
        else Inr s))
      else Inr ?s) ?Q"
    proof (cases "0 < buf_offset b")
      case True
      have u: "slice 0 (buf_offset b) (buf_data b) = Inr (unwritten b)" using slice_in [OF len(1)] by (simp add: unwritten_def)
      show ?thesis
        unfolding if_P [OF True] if_P [OF f] u rbind_simps safe_rbind
        by (rule safe_mono [OF W]) (use F in \<open>auto simp: split_beta\<close>)
    qed (use len r D(3) in \<open>auto intro: exI [of _ 0]\<close>)
    have d: "map_of (io_buffers (rest ?s)) p = Some b" using D(3) by simp
    show ?case
      unfolding x prod.case Let_def if_P [OF D(2)] deref_Some [OF d] rbind_simps
      by (rule safe_bind [OF B]) simp
  qed
qed

end
