(* ===== verification/IntrusiveList.thy ===== *)
theory IntrusiveList
  imports Prelude
begin

text \<open>
  The circular doubly linked lists of \<open>src/src/internal.h\<close>
  (\<open>BIO_DEFINE_LIST_LINK\<close>, \<open>BIO_LIST_APPEND\<close>, \<open>BIO_LIST_REMOVE\<close>, ...), on a store
  of link structs. The other theories keep such a list as the list of its
  items; the lemmas here show that the macros implement that view.
\<close>

section \<open>Model\<close>

record bio_link =
  link_next :: addr
  link_prev :: addr

definition get_next :: "addr \<Rightarrow> bio_link store \<Rightarrow> addr outcome" where
  "get_next a st = rbind (deref st a) (\<lambda>k. Inr (link_next k))"

definition get_prev :: "addr \<Rightarrow> bio_link store \<Rightarrow> addr outcome" where
  "get_prev a st = rbind (deref st a) (\<lambda>k. Inr (link_prev k))"

definition set_next :: "addr \<Rightarrow> addr \<Rightarrow> bio_link store \<Rightarrow> bio_link store outcome" where
  "set_next a v st = rbind (deref st a) (\<lambda>k. Inr (put a (k\<lparr>link_next := v\<rparr>) st))"

definition set_prev :: "addr \<Rightarrow> addr \<Rightarrow> bio_link store \<Rightarrow> bio_link store outcome" where
  "set_prev a v st = rbind (deref st a) (\<lambda>k. Inr (put a (k\<lparr>link_prev := v\<rparr>) st))"

definition BIO_LIST_INIT :: "addr \<Rightarrow> bio_link store \<Rightarrow> bio_link store outcome" where
  "BIO_LIST_INIT l st = rbind (set_next l l st) (set_prev l l)"

definition BIO_LIST_APPEND :: "addr \<Rightarrow> addr \<Rightarrow> bio_link store \<Rightarrow> bio_link store outcome" where
  "BIO_LIST_APPEND l item st =
    rbind (set_next item l st) (\<lambda>st.
    rbind (get_prev l st) (\<lambda>p.
    rbind (set_prev item p st) (\<lambda>st.
    rbind (get_prev l st) (\<lambda>p.
    rbind (set_next p item st) (\<lambda>st.
    set_prev l item st)))))"

definition BIO_LIST_REMOVE :: "addr \<Rightarrow> bio_link store \<Rightarrow> bio_link store outcome" where
  "BIO_LIST_REMOVE item st =
    rbind (get_next item st) (\<lambda>n.
    if n \<noteq> NULL then
      rbind (get_prev item st) (\<lambda>p.
      rbind (set_prev n p st) (\<lambda>st.
      rbind (get_prev item st) (\<lambda>p.
      rbind (get_next item st) (\<lambda>n.
      rbind (set_next p n st) (\<lambda>st.
      rbind (set_next item NULL st) (\<lambda>st.
      set_prev item NULL st))))))
    else Inr st)"

definition BIO_LIST_IS_EMPTY :: "addr \<Rightarrow> bio_link store \<Rightarrow> bool outcome" where
  "BIO_LIST_IS_EMPTY l st = rbind (get_next l st) (\<lambda>n. Inr (n = l \<or> n = NULL))"

definition BIO_LIST_POP :: "addr \<Rightarrow> bio_link store \<Rightarrow> bio_link store outcome" where
  "BIO_LIST_POP l st = rbind (get_next l st) (\<lambda>n. BIO_LIST_REMOVE n st)"

text \<open>
  The loop \<open>for (itr = list->next; itr != list; itr = next)\<close> that the code walks its
  lists with, with fuel: the items in the order in which it meets them.
\<close>

fun list_walk :: "nat \<Rightarrow> addr \<Rightarrow> addr \<Rightarrow> bio_link store \<Rightarrow> addr list outcome option" where
  "list_walk 0 l itr st = None"
| "list_walk (Suc n) l itr st =
    (if itr = l then Some (Inr [])
     else case get_next itr st of
       Inl e \<Rightarrow> Some (Inl e)
     | Inr nxt \<Rightarrow> map_option (\<lambda>r. rbind r (\<lambda>xs. Inr (itr # xs))) (list_walk n l nxt st))"

section \<open>The list a head stands for\<close>

definition edge :: "bio_link store \<Rightarrow> addr \<Rightarrow> addr \<Rightarrow> bool" where
  "edge st a b \<longleftrightarrow> (\<exists>k. map_of st a = Some k \<and> link_next k = b) \<and> (\<exists>k. map_of st b = Some k \<and> link_prev k = a)"

definition dll :: "bio_link store \<Rightarrow> addr \<Rightarrow> addr list \<Rightarrow> bool" where
  "dll st l xs \<longleftrightarrow> distinct (l # xs) \<and> NULL \<notin> set (l # xs) \<and> successively (edge st) (l # xs @ [l])"

text \<open>The item is not in any list.\<close>

definition unlinked :: "bio_link store \<Rightarrow> addr \<Rightarrow> bool" where
  "unlinked st x \<longleftrightarrow> (\<exists>k. map_of st x = Some k \<and> link_next k = NULL)"

lemma successively_cong_edges:
  assumes "successively (edge st) ys"
    "\<And>a b. (a, b) \<in> set (zip ys (tl ys)) \<Longrightarrow> edge st a b \<Longrightarrow> edge st' a b"
  shows "successively (edge st') ys"
  using assms
proof (induction ys rule: induct_list012)
  case (3 a b ys)
  have "successively (edge st') (b # ys)"
    using 3(3,4) by (intro 3(2)) auto
  with 3(3,4) show ?case by auto
qed auto

text \<open>Every list is its first part, an item and the rest, seen as a cycle through the head.\<close>

lemma dll_split:
  "dll st l (xs @ x # ys) \<longleftrightarrow>
     distinct (l # xs @ x # ys) \<and> NULL \<notin> set (l # xs @ x # ys)
   \<and> successively (edge st) (l # xs) \<and> edge st (last (l # xs)) x \<and> edge st x (hd (ys @ [l])) \<and> successively (edge st) (ys @ [l])"
proof -
  have "l # (xs @ x # ys) @ [l] = (l # xs) @ x # (ys @ [l])" by simp
  then have "successively (edge st) (l # (xs @ x # ys) @ [l]) \<longleftrightarrow>
      successively (edge st) (l # xs) \<and> edge st (last (l # xs)) x \<and> edge st x (hd (ys @ [l])) \<and> successively (edge st) (ys @ [l])"
    by (simp only: successively_append_iff successively_Cons) auto
  then show ?thesis by (auto simp: dll_def)
qed

lemma dll_join:
  "dll st l (xs @ ys) \<longleftrightarrow>
     distinct (l # xs @ ys) \<and> NULL \<notin> set (l # xs @ ys)
   \<and> successively (edge st) (l # xs) \<and> edge st (last (l # xs)) (hd (ys @ [l])) \<and> successively (edge st) (ys @ [l])"
proof -
  have "l # (xs @ ys) @ [l] = (l # xs) @ (ys @ [l])" by simp
  then have "successively (edge st) (l # (xs @ ys) @ [l]) \<longleftrightarrow>
      successively (edge st) (l # xs) \<and> edge st (last (l # xs)) (hd (ys @ [l])) \<and> successively (edge st) (ys @ [l])"
    by (simp only: successively_append_iff) auto
  then show ?thesis by (auto simp: dll_def)
qed

lemma dll_allocated: "dll st l xs \<Longrightarrow> a \<in> set (l # xs) \<Longrightarrow> \<exists>k. map_of st a = Some k"
proof -
  assume d: "dll st l xs" and a: "a \<in> set (l # xs)"
  show ?thesis
  proof (cases "a = l")
    case True
    then show ?thesis using d by (cases xs) (auto simp: dll_def edge_def successively_Cons)
  next
    case False
    with a obtain ys zs where "xs = ys @ a # zs" by (auto simp: in_set_conv_decomp)
    with d show ?thesis by (auto simp: dll_split edge_def)
  qed
qed

section \<open>The macros implement the list\<close>

lemma init_dll:
  assumes "map_of st l = Some k" "l \<noteq> NULL"
  shows "\<exists>st'. BIO_LIST_INIT l st = Inr st' \<and> dll st' l [] \<and> (\<forall>a. a \<noteq> l \<longrightarrow> map_of st' a = map_of st a)"
  using assms by (auto simp: BIO_LIST_INIT_def set_next_def set_prev_def dll_def edge_def)

lemma is_empty_dll: "dll st l xs \<Longrightarrow> BIO_LIST_IS_EMPTY l st = Inr (xs = [])"
  by (cases xs) (auto simp: BIO_LIST_IS_EMPTY_def get_next_def dll_def edge_def successively_Cons)

lemma edge_other:
  assumes "edge st a b" "link_next (the (map_of st a)) = link_next (the (map_of st' a))"
    "link_prev (the (map_of st b)) = link_prev (the (map_of st' b))" "map_of st' a \<noteq> None" "map_of st' b \<noteq> None"
  shows "edge st' a b"
  using assms by (auto simp: edge_def)

lemma zip_tl_mem: "(a, b) \<in> set (zip ys (tl ys)) \<Longrightarrow> a \<in> set (butlast ys) \<and> b \<in> set (tl ys)"
proof (induction ys)
  case (Cons y ys)
  then show ?case by (cases ys) auto
qed simp

lemma butlast_neq_last: "distinct ys \<Longrightarrow> a \<in> set (butlast ys) \<Longrightarrow> a \<noteq> last ys"
  by (cases ys rule: rev_cases) auto

lemma append_dll:
  assumes "dll st l xs" "map_of st x = Some k" "x \<notin> set (l # xs)" "x \<noteq> NULL"
  shows "\<exists>st'. BIO_LIST_APPEND l x st = Inr st' \<and> dll st' l (xs @ [x])
    \<and> (\<forall>a. a \<notin> set (l # x # xs) \<longrightarrow> map_of st' a = map_of st a)"
proof -
  define p where "p = last (l # xs)"
  from assms(1) have "dll st l (xs @ [])" by simp
  then have d: "distinct (l # xs)" "NULL \<notin> set (l # xs)" "successively (edge st) (l # xs)" "edge st p l"
    by (auto simp: dll_join p_def simp del: append_Nil2)
  then obtain kp kl where kp: "map_of st p = Some kp" "link_next kp = l" and kl: "map_of st l = Some kl" "link_prev kl = p"
    by (auto simp: edge_def)
  have pin: "p \<in> set (l # xs)" unfolding p_def by (rule last_in_set) simp
  then have px: "p \<noteq> x" "l \<noteq> x" using assms(3) by auto
  define st1 where "st1 = put x (k\<lparr>link_next := l, link_prev := p\<rparr>) (put x (k\<lparr>link_next := l\<rparr>) st)"
  define st2 where "st2 = put p (kp\<lparr>link_next := x\<rparr>) st1"
  define kl' where "kl' = (if p = l then kp\<lparr>link_next := x\<rparr> else kl)"
  define st3 where "st3 = put l (kl'\<lparr>link_prev := x\<rparr>) st2"
  have l2: "map_of st2 l = Some kl'" using kl px by (auto simp: st2_def st1_def kl'_def)
  have r: "BIO_LIST_APPEND l x st = Inr st3"
    using assms(2) kp kl px l2
    by (simp add: BIO_LIST_APPEND_def set_next_def get_prev_def set_prev_def st3_def st2_def st1_def del: last.simps)
  have m: "map_of st3 a = (if a = l then Some (kl'\<lparr>link_prev := x\<rparr>) else if a = p then Some (kp\<lparr>link_next := x\<rparr>)
      else if a = x then Some (k\<lparr>link_next := l, link_prev := p\<rparr>) else map_of st a)" for a
    by (simp add: st3_def st2_def st1_def)
  have "successively (edge st3) (l # xs)"
  proof (rule successively_cong_edges [OF d(3)])
    fix a b
    assume ab: "(a, b) \<in> set (zip (l # xs) (tl (l # xs)))" and e: "edge st a b"
    then have mem: "a \<in> set (butlast (l # xs))" "b \<in> set xs" using zip_tl_mem [OF ab] by auto
    then have "b \<noteq> l" "a \<noteq> p" "a \<in> set (l # xs)"
      using d(1) butlast_neq_last [OF d(1), of a, folded p_def] in_set_butlastD [of a "l # xs"] by auto
    moreover have "a \<noteq> x" "b \<noteq> x" using mem assms(3) \<open>a \<in> set (l # xs)\<close> by auto
    ultimately show "edge st3 a b" using e kl kp by (auto simp: edge_def m kl'_def)
  qed
  moreover have "edge st3 p x" "edge st3 x l" using px by (auto simp: edge_def m kl'_def)
  ultimately have "dll st3 l (xs @ [x])" using d assms(3,4) by (simp add: dll_split p_def del: last.simps)
  moreover have "map_of st3 a = map_of st a" if "a \<notin> set (l # x # xs)" for a
    using that pin by (auto simp: m split: if_splits)
  ultimately show ?thesis using r by blast
qed

lemma remove_dll:
  assumes "dll st l xs" "x \<in> set xs"
  shows "\<exists>st'. BIO_LIST_REMOVE x st = Inr st' \<and> dll st' l (remove1 x xs) \<and> unlinked st' x
    \<and> (\<forall>a. a \<notin> set (l # xs) \<longrightarrow> map_of st' a = map_of st a)"
proof -
  obtain ys zs where xs: "xs = ys @ x # zs" using assms(2) by (auto simp: in_set_conv_decomp)
  define p n where "p = last (l # ys)" and "n = hd (zs @ [l])"
  have d: "distinct (l # ys @ x # zs)" "NULL \<notin> set (l # ys @ x # zs)" "successively (edge st) (l # ys)" "edge st p x"
      "edge st x n" "successively (edge st) (zs @ [l])"
    using assms(1) by (auto simp: xs dll_split p_def n_def simp del: last.simps)
  obtain kp kx kn where k: "map_of st p = Some kp" "link_next kp = x" "map_of st x = Some kx" "link_prev kx = p" "link_next kx = n"
      "map_of st n = Some kn" "link_prev kn = x"
    using d(4,5) by (auto simp: edge_def)
  have pin: "p \<in> set (l # ys)" unfolding p_def by (rule last_in_set) simp
  have nin: "n \<in> set (l # zs)" unfolding n_def by (cases zs) auto
  from pin nin have neq: "p \<noteq> x" "n \<noteq> x" "n \<noteq> NULL" using d(1,2) by auto
  define kp' where "kp' = (if p = n then kn\<lparr>link_prev := p\<rparr> else kp)"
  define st1 where "st1 = put p (kp'\<lparr>link_next := n\<rparr>) (put n (kn\<lparr>link_prev := p\<rparr>) st)"
  define st2 where "st2 = put x (kx\<lparr>link_next := NULL, link_prev := NULL\<rparr>) (put x (kx\<lparr>link_next := NULL\<rparr>) st1)"
  have "map_of (put n (kn\<lparr>link_prev := p\<rparr>) st) p = Some kp'" using k by (auto simp: kp'_def)
  then have r: "BIO_LIST_REMOVE x st = Inr st2"
    using k neq
    by (simp add: BIO_LIST_REMOVE_def set_next_def get_prev_def get_next_def set_prev_def st2_def st1_def del: last.simps)
  have m: "map_of st2 a = (if a = x then Some (kx\<lparr>link_next := NULL, link_prev := NULL\<rparr>)
      else if a = p then Some (kp'\<lparr>link_next := n\<rparr>) else if a = n then Some (kn\<lparr>link_prev := p\<rparr>) else map_of st a)" for a
    by (simp add: st2_def st1_def)
  have e: "edge st2 a b" if "edge st a b" "a \<noteq> x" "b \<noteq> x" "a \<noteq> p" "b \<noteq> n" for a b
    using that k by (auto simp: edge_def m kp'_def)
  have "successively (edge st2) (l # ys)"
  proof (rule successively_cong_edges [OF d(3)])
    fix a b
    assume ab: "(a, b) \<in> set (zip (l # ys) (tl (l # ys)))" and "edge st a b"
    moreover have "distinct (l # ys)" using d(1) by simp
    ultimately show "edge st2 a b"
      using zip_tl_mem [OF ab] d(1) nin butlast_neq_last [of "l # ys" a, folded p_def] in_set_butlastD [of a "l # ys"] by (intro e) auto
  qed
  moreover have "successively (edge st2) (zs @ [l])"
  proof (rule successively_cong_edges [OF d(6)])
    fix a b
    assume ab: "(a, b) \<in> set (zip (zs @ [l]) (tl (zs @ [l])))" and eab: "edge st a b"
    then obtain z zs' where z: "zs = z # zs'" by (cases zs) auto
    with zip_tl_mem [OF ab] have "a \<in> set zs" "b \<in> set (zs' @ [l])" "n = z" by (auto simp: n_def)
    then show "edge st2 a b" using d(1) z pin eab by (intro e) auto
  qed
  moreover have "edge st2 p n" using neq by (auto simp: edge_def m kp'_def)
  ultimately have "dll st2 l (ys @ zs)" using d(1,2) by (simp add: dll_join p_def n_def del: last.simps)
  moreover have "remove1 x xs = ys @ zs" using d(1) by (simp add: xs remove1_append)
  moreover have "unlinked st2 x" by (simp add: unlinked_def m)
  moreover have "map_of st2 a = map_of st a" if "a \<notin> set (l # xs)" for a
    using that pin nin by (auto simp: m xs split: if_splits)
  ultimately show ?thesis using r by auto
qed

text \<open>Removing an item that is in no list does nothing.\<close>

lemma remove_unlinked: "unlinked st x \<Longrightarrow> BIO_LIST_REMOVE x st = Inr st"
  by (auto simp: unlinked_def BIO_LIST_REMOVE_def get_next_def)

lemma pop_dll:
  assumes "dll st l (x # xs)"
  shows "\<exists>st'. BIO_LIST_POP l st = Inr st' \<and> dll st' l xs \<and> unlinked st' x"
proof -
  have "get_next l st = Inr x" using assms by (auto simp: dll_def edge_def get_next_def)
  with remove_dll [OF assms, of x] show ?thesis by (auto simp: BIO_LIST_POP_def)
qed

lemma walk_suffix:
  "successively (edge st) (ys @ [l]) \<Longrightarrow> l \<notin> set ys \<Longrightarrow> length ys < n \<Longrightarrow> list_walk n l (hd (ys @ [l])) st = Some (Inr ys)"
proof (induction ys arbitrary: n)
  case Nil
  then show ?case by (cases n) auto
next
  case (Cons y ys)
  then obtain m where n: "n = Suc m" by (cases n) auto
  have e: "edge st y (hd (ys @ [l]))" "successively (edge st) (ys @ [l])"
    using Cons.prems(1) by (auto simp: successively_Cons)
  then have "list_walk m l (hd (ys @ [l])) st = Some (Inr ys)" using Cons.prems n by (intro Cons.IH) auto
  moreover have "get_next y st = Inr (hd (ys @ [l]))" using e(1) by (auto simp: edge_def get_next_def)
  ultimately show ?case using n Cons.prems(2) by simp
qed

text \<open>The walk over a list of any length ends and meets the items in order.\<close>

lemma walk_dll:
  assumes "dll st l xs" "length xs < n"
  shows "rbind (get_next l st) (\<lambda>itr. case list_walk n l itr st of Some r \<Rightarrow> r | None \<Rightarrow> Inl DanglingPointer) = Inr xs"
proof -
  have e: "edge st l (hd (xs @ [l]))" "successively (edge st) (xs @ [l])" "l \<notin> set xs"
    using assms(1) by (auto simp: dll_def successively_Cons)
  then have "get_next l st = Inr (hd (xs @ [l]))" by (auto simp: edge_def get_next_def)
  with walk_suffix [OF e(2,3) assms(2)] show ?thesis by simp
qed

text \<open>A list keeps its items when structs outside of it change.\<close>

lemma dll_frame:
  assumes "dll st l xs" "\<forall>a \<in> set (l # xs). map_of st' a = map_of st a"
  shows "dll st' l xs"
proof -
  have "successively (edge st') (l # xs @ [l])"
  proof (rule successively_cong_edges)
    show "successively (edge st) (l # xs @ [l])" using assms(1) by (simp add: dll_def)
    show "edge st' a b" if ab: "(a, b) \<in> set (zip (l # xs @ [l]) (tl (l # xs @ [l])))" and "edge st a b" for a b
      using zip_tl_mem [OF ab] that assms(2) by (auto simp: edge_def butlast_append split: if_splits dest: in_set_butlastD)
  qed
  then show ?thesis using assms(1) by (simp add: dll_def)
qed

end
