(* ===== verification/Timers.thy ===== *)
theory Timers
  imports EventLoop Owned
begin

text \<open>
  The timer objects of \<open>src/src/timer.c\<close> and \<open>src/include/bio/timer.h\<close>: each timer is
  a coroutine that waits for a delayed signal of its own and then calls the
  function it was given.
\<close>

section \<open>Model\<close>

text \<open>\<open>bio_current_time_ms\<close> of \<open>src/src/bio.c\<close>.\<close>

definition bio_current_time_ms :: "('w \<Rightarrow> int \<times> 'w) \<Rightarrow> 'w bio_ctx \<Rightarrow> int \<times> 'w bio_ctx" where
  "bio_current_time_ms clk s = (let (now, w) = clk (world s) in (now, s\<lparr>world := w\<rparr>))"

text \<open>One round of the loop of \<open>bio_timer_entry\<close>, up to the wait.\<close>

definition timer_arm :: "('w \<Rightarrow> int \<times> 'w) \<Rightarrow> addr \<Rightarrow> addr \<Rightarrow> 'w bio_ctx \<Rightarrow> (bio_handle \<times> 'w bio_ctx) outcome" where
  "timer_arm clk self p s =
    rbind (bio_make_signal self s) (\<lambda>(h, s).
    rbind (deref (timer_impls s) p) (\<lambda>impl.
    let s = s\<lparr>timer_impls := put p (impl\<lparr>tm_wake_signal := h\<rparr>) (timer_impls s)\<rparr>;
        (now, s) = bio_current_time_ms clk s in
    rbind (check64 (tm_due_time_ms impl - now)) (\<lambda>delay.
    rbind (bio_raise_signal_after h delay s) (\<lambda>s. Inr (h, s)))))"

text \<open>What happens after the timer's function has returned.\<close>

definition timer_fired :: "int \<Rightarrow> addr \<Rightarrow> 'w bio_ctx \<Rightarrow> (bool \<times> 'w bio_ctx) outcome" where
  "timer_fired now p s =
    rbind (deref (timer_impls s) p) (\<lambda>impl.
    if tm_type impl = BIO_TIMER_ONESHOT then Inr (False, s)
    else rbind (check64 (now + tm_timeout_ms impl)) (\<lambda>due.
         Inr (True, s\<lparr>timer_impls := put p (impl\<lparr>tm_due_time_ms := due\<rparr>) (timer_impls s)\<rparr>)))"

text \<open>
  The rest of the round; the \<open>bool\<close> tells whether the loop goes on. \<open>call f data\<close> is
  the application's function: it runs inside the timer's coroutine.
\<close>

definition timer_fire ::
    "('w \<Rightarrow> int \<times> 'w) \<Rightarrow> (addr \<Rightarrow> addr \<Rightarrow> 'w bio_ctx \<Rightarrow> 'w bio_ctx outcome) \<Rightarrow> addr \<Rightarrow> 'w bio_ctx \<Rightarrow> (bool \<times> 'w bio_ctx) outcome" where
  "timer_fire clk call p s =
    (let (now, s) = bio_current_time_ms clk s in
     rbind (deref (timer_impls s) p) (\<lambda>impl.
     if tm_cancelled impl then Inr (False, s)
     else if now \<ge> tm_due_time_ms impl then
       rbind (call (tm_fn impl) (tm_userdata impl) s) (timer_fired now p)
     else Inr (True, s)))"

definition timer_free :: "addr \<Rightarrow> 'w bio_ctx \<Rightarrow> 'w bio_ctx outcome" where
  "timer_free p s =
    rbind (deref (timer_impls s) p) (\<lambda>impl.
    rbind (bio_close_handle (tm_handle impl) BIO_TIMER_HANDLE (handles s)) (\<lambda>(_, ht).
    Inr (s\<lparr>handles := ht, timer_impls := del p (timer_impls s)\<rparr>)))"

definition timer_round ::
    "('w \<Rightarrow> int \<times> 'w) \<Rightarrow> (addr \<Rightarrow> 'w bio_ctx \<Rightarrow> 'w bio_ctx outcome) \<Rightarrow> (addr \<Rightarrow> addr \<Rightarrow> 'w bio_ctx \<Rightarrow> 'w bio_ctx outcome) \<Rightarrow>
     addr \<Rightarrow> addr \<Rightarrow> 'w bio_ctx \<Rightarrow> (bool \<times> 'w bio_ctx) outcome" where
  "timer_round clk mco_yield call self p s =
    rbind (timer_arm clk self p s) (\<lambda>(h, s).
    rbind (bio_wait_for_one_signal mco_yield self h s) (timer_fire clk call p))"

partial_function (option) bio_timer_entry ::
    "('w \<Rightarrow> int \<times> 'w) \<Rightarrow> (addr \<Rightarrow> 'w bio_ctx \<Rightarrow> 'w bio_ctx outcome) \<Rightarrow> (addr \<Rightarrow> addr \<Rightarrow> 'w bio_ctx \<Rightarrow> 'w bio_ctx outcome) \<Rightarrow>
     addr \<Rightarrow> addr \<Rightarrow> 'w bio_ctx \<Rightarrow> 'w bio_ctx outcome option" where
  "bio_timer_entry clk mco_yield call self p s =
    (case timer_round clk mco_yield call self p s of
       Inl e \<Rightarrow> Some (Inl e)
     | Inr r \<Rightarrow> if fst r then bio_timer_entry clk mco_yield call self p (snd r) else Some (timer_free p (snd r)))"

text \<open>The function pointer \<open>bio_timer_entry\<close> that \<open>bio_create_timer\<close> passes to \<open>bio_spawn\<close>.\<close>

definition bio_timer_entry_fn :: addr where
  "bio_timer_entry_fn = 1"

definition bio_create_timer ::
    "('w \<Rightarrow> int \<times> 'w) \<Rightarrow> (addr \<Rightarrow> 'w \<Rightarrow> 'w) \<Rightarrow> bio_timer_type \<Rightarrow> int \<Rightarrow> addr \<Rightarrow> addr \<Rightarrow> 'w bio_ctx \<Rightarrow> (bio_handle \<times> 'w bio_ctx) outcome" where
  "bio_create_timer clk mco_create ttype timeout_ms fn data s =
    (let p = bio_malloc s;
         (now, s) = bio_current_time_ms clk s in
     rbind (check64 (now + timeout_ms)) (\<lambda>due.
     rbind (bio_make_handle p BIO_TIMER_HANDLE (handles s)) (\<lambda>(h, ht).
     let impl = \<lparr>tm_type = ttype, tm_timeout_ms = timeout_ms, tm_fn = fn, tm_userdata = data,
                 tm_wake_signal = BIO_INVALID_HANDLE, tm_due_time_ms = due, tm_cancelled = False, tm_handle = h\<rparr>;
         s = s\<lparr>handles := ht, timer_impls := put p impl (timer_impls s)\<rparr> in
     rbind (bio_spawn_ex clk mco_create bio_timer_entry_fn p False s) (\<lambda>(_, s). Inr (h, s)))))"

definition bio_is_timer_pending :: "bio_handle \<Rightarrow> 'w bio_ctx \<Rightarrow> bool" where
  "bio_is_timer_pending timer s = (bio_resolve_handle timer BIO_TIMER_HANDLE (handles s) \<noteq> NULL)"

definition bio_reset_timer :: "('w \<Rightarrow> int \<times> 'w) \<Rightarrow> bio_handle \<Rightarrow> int \<Rightarrow> 'w bio_ctx \<Rightarrow> 'w bio_ctx outcome" where
  "bio_reset_timer clk timer timeout_ms s =
    (let p = bio_resolve_handle timer BIO_TIMER_HANDLE (handles s) in
     if p \<noteq> NULL then
       rbind (deref (timer_impls s) p) (\<lambda>impl.
       let (now, s) = bio_current_time_ms clk s in
       rbind (check64 (now + timeout_ms)) (\<lambda>due.
       Inr (s\<lparr>timer_impls := put p (impl\<lparr>tm_timeout_ms := timeout_ms, tm_due_time_ms := due\<rparr>) (timer_impls s)\<rparr>)))
     else Inr s)"

definition bio_cancel_timer :: "bio_handle \<Rightarrow> 'w bio_ctx \<Rightarrow> 'w bio_ctx outcome" where
  "bio_cancel_timer timer s =
    (let p = bio_resolve_handle timer BIO_TIMER_HANDLE (handles s) in
     if p \<noteq> NULL then
       rbind (deref (timer_impls s) p) (\<lambda>impl.
       let s = s\<lparr>timer_impls := put p (impl\<lparr>tm_cancelled := True\<rparr>) (timer_impls s)\<rparr> in
       rbind (bio_raise_signal (tm_wake_signal impl) s) (\<lambda>(_, s).
       rbind (deref (timer_impls s) p) (\<lambda>impl.
       rbind (bio_close_handle (tm_handle impl) BIO_TIMER_HANDLE (handles s)) (\<lambda>(_, ht).
       Inr (s\<lparr>handles := ht\<rparr>)))))
     else Inr s)"

section \<open>Invariant\<close>

text \<open>
  A live timer handle names a timer object that remembers it. The converse does
  not hold: a cancelled timer has no handle and lives until its coroutine ends.
\<close>

definition timers_ok :: "'w bio_ctx \<Rightarrow> bool" where
  "timers_ok s \<longleftrightarrow>
     map_of (timer_impls s) NULL = None
   \<and> (\<forall>h p. lookup_handle (handles s) h = Some (p, BIO_TIMER_HANDLE) \<longrightarrow> (\<exists>t. map_of (timer_impls s) p = Some t \<and> tm_handle t = h))
   \<and> (\<forall>p t. map_of (timer_impls s) p = Some t \<longrightarrow> issued (handles s) (tm_wake_signal t) \<and> issued (handles s) (tm_handle t))"

definition timer_world :: "addr list \<Rightarrow> addr option \<Rightarrow> 'w bio_ctx \<Rightarrow> bool" where
  "timer_world cur run s \<longleftrightarrow> loop_inv cur run s \<and> timers_ok s"

lemma timers_okD:
  assumes "timers_ok s"
  shows "map_of (timer_impls s) NULL = None"
    "lookup_handle (handles s) h = Some (p, BIO_TIMER_HANDLE) \<Longrightarrow> \<exists>t. map_of (timer_impls s) p = Some t \<and> tm_handle t = h"
    "map_of (timer_impls s) p = Some t \<Longrightarrow> issued (handles s) (tm_wake_signal t)"
    "map_of (timer_impls s) p = Some t \<Longrightarrow> issued (handles s) (tm_handle t)"
  using assms by (auto simp: timers_ok_def)

lemma timers_ok_world [simp]: "timers_ok (s\<lparr>world := w\<rparr>) = timers_ok s"
  by (simp add: timers_ok_def)

lemma sched_frame_lookup:
  "sched_frame s s' \<Longrightarrow> t \<notin> sched_tags \<Longrightarrow> lookup_handle (handles s') h = Some (p, t) \<longleftrightarrow> lookup_handle (handles s) h = Some (p, t)"
  by (simp add: sched_frame_def table_frame_def)

lemma timers_ok_frame:
  assumes "timers_ok s" "timer_frame s s'"
  shows "timers_ok s'" "timer_impls s' = timer_impls s"
proof -
  show e: "timer_impls s' = timer_impls s" using assms(2) by (simp add: timer_frame_def sched_frame_def)
  have "lookup_handle (handles s') h = Some (p, BIO_TIMER_HANDLE) \<longleftrightarrow> lookup_handle (handles s) h = Some (p, BIO_TIMER_HANDLE)" for h p
    using sched_frame_lookup [OF assms(2) [unfolded timer_frame_def], of BIO_TIMER_HANDLE h p] by (simp add: sched_tags_def)
  then show "timers_ok s'" using assms(1) timer_frame_issued [OF assms(2)] by (auto simp: timers_ok_def e)
qed

lemma timers_ok_put:
  assumes "timers_ok s" "map_of (timer_impls s) p = Some t" "tm_handle t' = tm_handle t" "issued (handles s) (tm_wake_signal t')"
  shows "timers_ok (s\<lparr>timer_impls := put p t' (timer_impls s)\<rparr>)"
proof -
  have "p \<noteq> NULL" using timers_okD(1) [OF assms(1)] assms(2) by (metis option.distinct(1))
  moreover have "tm_handle t = h" if "lookup_handle (handles s) h = Some (p, BIO_TIMER_HANDLE)" for h
    using timers_okD(2) [OF assms(1) that] assms(2) by auto
  ultimately show ?thesis using assms by (auto simp: timers_ok_def)
qed

lemma loop_inv_timer_handle:
  assumes "loop_inv cur run s" "made (handles s) h p BIO_TIMER_HANDLE ht \<or> closed (handles s) h p BIO_TIMER_HANDLE ht"
  shows "loop_inv cur run (s\<lparr>handles := ht\<rparr>)"
proof -
  have "table_frame {BIO_TIMER_HANDLE} (handles s) ht" "handle_inv ht"
    using assms(2) made_frame [of "handles s" h p BIO_TIMER_HANDLE ht "{BIO_TIMER_HANDLE}"]
      closed_frame [of "handles s" h p BIO_TIMER_HANDLE ht "{BIO_TIMER_HANDLE}"] by (auto simp: made_def closed_def)
  then have "sched_inv cur run (s\<lparr>handles := ht\<rparr>)" "\<forall>k. issued (handles s) k \<longrightarrow> issued ht k"
    using sched_inv_table [of Map.empty Map.empty cur run s ht "{BIO_TIMER_HANDLE}"] assms(1)
    by (auto simp: loop_inv_def sched_tags_def table_frame_def)
  then show ?thesis using assms(1) by (auto simp: loop_inv_def timer_inv_def timers_of_def)
qed

section \<open>Cancelling\<close>

lemma resolve_cases:
  assumes "timers_ok s" "handle_inv (handles s)" "issued (handles s) h"
  obtains (dead) "bio_resolve_handle h BIO_TIMER_HANDLE (handles s) = NULL" "\<nexists>p. lookup_handle (handles s) h = Some (p, BIO_TIMER_HANDLE)"
  | (live) p t where "bio_resolve_handle h BIO_TIMER_HANDLE (handles s) = p" "p \<noteq> NULL"
      "lookup_handle (handles s) h = Some (p, BIO_TIMER_HANDLE)" "map_of (timer_impls s) p = Some t" "tm_handle t = h"
proof (cases "\<exists>p. lookup_handle (handles s) h = Some (p, BIO_TIMER_HANDLE)")
  case True
  then obtain p where p: "lookup_handle (handles s) h = Some (p, BIO_TIMER_HANDLE)" by blast
  obtain t where t: "map_of (timer_impls s) p = Some t" "tm_handle t = h" using timers_okD(2) [OF assms(1) p] by blast
  have "p \<noteq> NULL" using timers_okD(1) [OF assms(1)] t(1) by (metis option.distinct(1))
  with p t show thesis by (intro live [of p t]) (simp_all add: resolve_lookup [OF assms(2,3)])
next
  case False
  then show thesis using assms(2,3) by (intro dead) (auto simp: resolve_lookup split: option.splits)
qed

lemma timers_ok_closed:
  assumes "timers_ok s" "closed (handles s) h p BIO_TIMER_HANDLE ht"
  shows "timers_ok (s\<lparr>handles := ht\<rparr>)"
  using assms by (auto simp: timers_ok_def closed_def)

text \<open>
  Cancelling closes the handle, marks the object, and raises the signal the
  timer's coroutine waits for.
\<close>

definition cancelled_in :: "bio_handle \<Rightarrow> 'w bio_ctx \<Rightarrow> 'w bio_ctx \<Rightarrow> bool" where
  "cancelled_in h s s' \<longleftrightarrow> \<not> bio_is_timer_pending h s'
   \<and> (\<forall>p t. lookup_handle (handles s) h = Some (p, BIO_TIMER_HANDLE) \<longrightarrow> map_of (timer_impls s) p = Some t \<longrightarrow>
        map_of (timer_impls s') = (map_of (timer_impls s))(p \<mapsto> t\<lparr>tm_cancelled := True\<rparr>) \<and> bio_check_signal (tm_wake_signal t) s')"

lemma cancel_timer_safe:
  assumes inv: "timer_world cur run s" and h: "issued (handles s) h"
  shows "safe (bio_cancel_timer h s) (\<lambda>s'. timer_world cur run s' \<and> cancelled_in h s s')"
proof -
  have L: "loop_inv cur run s" and ok: "timers_ok s" and I: "sched_inv cur run s" and T: "timer_inv s"
    using inv by (simp_all add: timer_world_def loop_inv_def)
  note hi = sched_inv_handles [OF I]
  from ok hi h show ?thesis
  proof (cases rule: resolve_cases)
    case dead
    then show ?thesis using inv by (simp add: bio_cancel_timer_def cancelled_in_def bio_is_timer_pending_def)
  next
    case (live p t)
    let ?t = "t\<lparr>tm_cancelled := True\<rparr>"
    let ?s = "s\<lparr>timer_impls := put p ?t (timer_impls s)\<rparr>"
    have I1: "sched_inv cur run ?s" and T1: "timer_inv ?s" and ok1: "timers_ok ?s"
      using L timers_ok_put [OF ok live(4), of ?t] timers_okD(3) [OF ok live(4)] by (simp_all add: loop_inv_def timer_inv_def timers_of_def)
    have wk: "issued (handles ?s) (tm_wake_signal t)" using timers_okD(3) [OF ok live(4)] by simp
    have e: "bio_cancel_timer h s = rbind (bio_raise_signal (tm_wake_signal t) ?s) (\<lambda>(_, s). rbind (deref (timer_impls s) p) (\<lambda>impl.
       rbind (bio_close_handle (tm_handle impl) BIO_TIMER_HANDLE (handles s)) (\<lambda>(_, ht). Inr (s\<lparr>handles := ht\<rparr>))))"
      using live by (simp add: bio_cancel_timer_def Let_def)
    show ?thesis
      unfolding e
    proof (rule safe_bind [OF raise_signal_safe [OF I1 emptied_simps(1) wk]], goal_cases)
      case (1 x)
      then obtain w s1 where x: "x = (w, s1)" and inv1: "sched_inv cur run s1" and fr: "sched_frame ?s s1"
          and chk: "bio_check_signal (tm_wake_signal t) s1"
        by (cases x) auto
      note F = timers_ok_frame [OF ok1 sched_timer_frame [OF fr]]
      have m: "map_of (timer_impls s1) p = Some ?t" by (simp add: F(2))
      have lk: "lookup_handle (handles s1) h = Some (p, BIO_TIMER_HANDLE)"
        using sched_frame_lookup [OF fr, of BIO_TIMER_HANDLE h p] live(3) by (simp add: sched_tags_def)
      have L1: "loop_inv cur run s1" using inv1 timer_inv_frame [OF T1 fr] by (simp add: loop_inv_def)
      note hi1 = sched_inv_handles [OF inv1]
      have "timer_world cur run (s1\<lparr>handles := ht\<rparr>) \<and> cancelled_in h s (s1\<lparr>handles := ht\<rparr>)"
        if c: "closed (handles s1) h p BIO_TIMER_HANDLE ht" for ht
      proof -
        have "timer_world cur run (s1\<lparr>handles := ht\<rparr>)"
          using loop_inv_timer_handle [OF L1] timers_ok_closed [OF F(1) c] c by (auto simp: timer_world_def)
        moreover have "issued (handles s1) (tm_wake_signal t)" using sched_frame_issued [OF fr wk] .
        then have "bio_check_signal (tm_wake_signal t) (s1\<lparr>handles := ht\<rparr>)"
          using chk c hi1 by (auto simp: bio_check_signal_def resolve_lookup closed_def split: option.splits if_splits)
        ultimately show ?thesis
          using closed_resolve [OF c hi1] live(3,4) by (auto simp: cancelled_in_def bio_is_timer_pending_def F(2))
      qed
      then show ?case
        unfolding x prod.case deref_Some [OF m] rbind_simps
        using close_safe [OF hi1 lk] live(5) by (auto elim!: safe_mono)
    qed
  qed
qed

section \<open>The timer's coroutine\<close>

lemma time_ms_simps [simp]:
  "timer_world cur run (snd (bio_current_time_ms clk s)) = timer_world cur run s"
  "timer_impls (snd (bio_current_time_ms clk s)) = timer_impls s"
  "handles (snd (bio_current_time_ms clk s)) = handles s"
  by (simp_all add: bio_current_time_ms_def timer_world_def split: prod.split)

lemma timer_world_put:
  assumes "timer_world cur run s" "map_of (timer_impls s) p = Some t" "tm_handle t' = tm_handle t" "issued (handles s) (tm_wake_signal t')"
  shows "timer_world cur run (s\<lparr>timer_impls := put p t' (timer_impls s)\<rparr>)"
  using assms timers_ok_put [OF _ assms(2-4)] by (simp add: timer_world_def)

lemma timer_world_frame:
  assumes "timer_world cur run s" "timer_frame s s'" "sched_inv cur run s'" "timer_inv s'"
  shows "timer_world cur run s'" "timer_impls s' = timer_impls s"
  using assms timers_ok_frame [OF _ assms(2)] by (auto simp: timer_world_def loop_inv_def)

text \<open>
  The coroutine makes a fresh signal, remembers it in the timer, and has it
  raised when the timer is due.
\<close>

lemma timer_arm_safe:
  assumes inv: "timer_world cur (Some self) s" and self: "self \<noteq> NULL" and t: "map_of (timer_impls s) p = Some t"
  shows "safe (timer_arm clk self p s) (\<lambda>(h, s'). timer_world cur (Some self) s' \<and> issued (handles s') h
    \<and> map_of (timer_impls s') = (map_of (timer_impls s))(p \<mapsto> t\<lparr>tm_wake_signal := h\<rparr>))"
proof -
  have I: "sched_inv cur (Some self) s" and T: "timer_inv s" and ok: "timers_ok s"
    using inv by (simp_all add: timer_world_def loop_inv_def)
  have "map_of (coros s) self \<noteq> None" using running_coro [OF I] by (metis option.distinct(1))
  then have M: "safe (bio_make_signal self s) (\<lambda>(h, s'). sched_inv cur (Some self) s' \<and> sched_frame s s' \<and> issued (handles s') h)"
    by (intro safe_mono [OF make_signal_safe [OF I]]) auto
  show ?thesis
    unfolding timer_arm_def
  proof (rule safe_bind [OF M], goal_cases)
    case (1 x)
    then obtain h s1 where x: "x = (h, s1)" and inv1: "sched_inv cur (Some self) s1" and fr: "sched_frame s s1" and h: "issued (handles s1) h"
      by (cases x) auto
    note F = timer_world_frame [OF inv sched_timer_frame [OF fr] inv1 timer_inv_frame [OF T fr]]
    have m: "map_of (timer_impls s1) p = Some t" using t by (simp add: F(2))
    let ?t = "t\<lparr>tm_wake_signal := h\<rparr>"
    let ?s2 = "s1\<lparr>timer_impls := put p ?t (timer_impls s1)\<rparr>"
    have W: "timer_world cur (Some self) ?s2" by (rule timer_world_put [OF F(1) m]) (simp_all add: h)
    obtain now s3 where now: "bio_current_time_ms clk ?s2 = (now, s3)" by (cases "bio_current_time_ms clk ?s2")
    have s3: "timer_world cur (Some self) s3" "timer_impls s3 = put p ?t (timer_impls s1)" "handles s3 = handles s1"
      using W time_ms_simps(1) [of cur "Some self" clk ?s2] time_ms_simps(2,3) [of clk ?s2] by (simp_all add: now)
    have I3: "sched_inv cur (Some self) s3" "timer_inv s3" using s3(1) by (simp_all add: timer_world_def loop_inv_def)
    have h3: "issued (handles s3) h" by (simp add: s3(3) h)
    have "safe (bio_raise_signal_after h d s3) (\<lambda>s'. timer_world cur (Some self) s' \<and> issued (handles s') h
        \<and> map_of (timer_impls s') = (map_of (timer_impls s))(p \<mapsto> ?t))" for d
      by (rule safe_mono [OF raise_after_safe [OF I3(1) emptied_simps(1) I3(2) h3]])
        (use timer_world_frame [OF s3(1)] timer_frame_issued h3 s3(2) F(2) in auto)
    then show ?case
      unfolding x prod.case deref_Some [OF m] rbind_simps Let_def now by (simp add: check64_def)
  qed
qed

text \<open>
  What the rest of a round does: a cancelled timer never calls its function, one
  that is not due yet waits again, and an interval timer starts its next
  interval when the function has returned.
\<close>

lemma timer_fire_cancelled:
  "map_of (timer_impls s) p = Some t \<Longrightarrow> tm_cancelled t \<Longrightarrow>
   timer_fire clk call p s = Inr (False, snd (bio_current_time_ms clk s))"
  using time_ms_simps(2) [of clk s] by (simp add: timer_fire_def split_beta)

lemma timer_fire_early:
  "map_of (timer_impls s) p = Some t \<Longrightarrow> \<not> tm_cancelled t \<Longrightarrow> fst (bio_current_time_ms clk s) < tm_due_time_ms t \<Longrightarrow>
   timer_fire clk call p s = Inr (True, snd (bio_current_time_ms clk s))"
  using time_ms_simps(2) [of clk s] by (simp add: timer_fire_def split_beta)

lemma timer_fire_due:
  "map_of (timer_impls s) p = Some t \<Longrightarrow> \<not> tm_cancelled t \<Longrightarrow> tm_due_time_ms t \<le> fst (bio_current_time_ms clk s) \<Longrightarrow>
   timer_fire clk call p s = rbind (call (tm_fn t) (tm_userdata t) (snd (bio_current_time_ms clk s))) (timer_fired (fst (bio_current_time_ms clk s)) p)"
  using time_ms_simps(2) [of clk s] by (simp add: timer_fire_def split_beta)

text \<open>What the coroutine relies on while it is suspended or runs the application's function.\<close>

definition keeps_timer :: "addr \<Rightarrow> addr \<Rightarrow> ('w bio_ctx \<Rightarrow> 'w bio_ctx outcome) \<Rightarrow> bool" where
  "keeps_timer self p f \<longleftrightarrow> (\<forall>cur s. timer_world cur (Some self) s \<longrightarrow> map_of (timer_impls s) p \<noteq> None \<longrightarrow>
     safe (f s) (\<lambda>s'. (\<exists>cur'. timer_world cur' (Some self) s') \<and> map_of (timer_impls s') p \<noteq> None))"

lemma timer_fire_safe:
  assumes call: "\<And>f data. keeps_timer self p (call f data)"
    and inv: "timer_world cur (Some self) s" and p: "map_of (timer_impls s) p \<noteq> None"
  shows "safe (timer_fire clk call p s) (\<lambda>(more, s'). (\<exists>cur'. timer_world cur' (Some self) s') \<and> map_of (timer_impls s') p \<noteq> None)"
proof -
  obtain t where t: "map_of (timer_impls s) p = Some t" using p by blast
  let ?s1 = "snd (bio_current_time_ms clk s)"
  let ?Q = "\<lambda>s'. (\<exists>cur'. timer_world cur' (Some self) s') \<and> map_of (timer_impls s') p \<noteq> None"
  have s1: "?Q ?s1" using inv p by auto
  then have C: "safe (call f data ?s1) ?Q" for f data
    using call [of f data] inv p by (simp add: keeps_timer_def)
  have after: "safe (timer_fired now p s') (\<lambda>(more, s'). ?Q s')" if Q: "?Q s'" for now s'
  proof -
    from Q obtain cur' t' where w: "timer_world cur' (Some self) s'" "map_of (timer_impls s') p = Some t'" by auto
    have "\<exists>cur'. timer_world cur' (Some self) (s'\<lparr>timer_impls := put p (t'\<lparr>tm_due_time_ms := due\<rparr>) (timer_impls s')\<rparr>)" for due
      using timer_world_put [OF w, of "t'\<lparr>tm_due_time_ms := due\<rparr>"] timers_okD(3) [OF _ w(2)] w(1) by (auto simp: timer_world_def)
    with Q w show ?thesis by (simp add: timer_fired_def)
  qed
  consider "tm_cancelled t" | "\<not> tm_cancelled t" "fst (bio_current_time_ms clk s) < tm_due_time_ms t"
    | "\<not> tm_cancelled t" "tm_due_time_ms t \<le> fst (bio_current_time_ms clk s)" by fastforce
  then show ?thesis
  proof cases
    case 1
    then show ?thesis using s1 unfolding timer_fire_cancelled [OF t 1] safe_simps prod.case by blast
  next
    case 2
    then show ?thesis using s1 unfolding timer_fire_early [OF t 2] safe_simps prod.case by blast
  next
    case 3
    show ?thesis unfolding timer_fire_due [OF t 3] by (rule safe_bind [OF C after])
  qed
qed

lemma timers_ok_free:
  assumes "timers_ok s" "map_of (timer_impls s) p = Some t" "closed (handles s) (tm_handle t) p BIO_TIMER_HANDLE ht"
  shows "timers_ok (s\<lparr>handles := ht, timer_impls := del p (timer_impls s)\<rparr>)"
proof -
  have "h = tm_handle t" if "lookup_handle (handles s) h = Some (p, BIO_TIMER_HANDLE)" for h
    using timers_okD(2) [OF assms(1) that] assms(2) by auto
  then show ?thesis using assms by (auto simp: timers_ok_def closed_def)
qed

lemma timer_free_safe:
  assumes inv: "timer_world cur run s" and t: "map_of (timer_impls s) p = Some t"
  shows "safe (timer_free p s) (\<lambda>s'. timer_world cur run s' \<and> map_of (timer_impls s') p = None \<and> \<not> bio_is_timer_pending (tm_handle t) s')"
proof -
  have L: "loop_inv cur run s" and ok: "timers_ok s" and hi: "handle_inv (handles s)"
    using inv by (auto simp: timer_world_def loop_inv_def intro: sched_inv_handles)
  have h: "issued (handles s) (tm_handle t)" by (rule timers_okD(4) [OF ok t])
  show ?thesis
  proof (cases "\<exists>q. lookup_handle (handles s) (tm_handle t) = Some (q, BIO_TIMER_HANDLE)")
    case True
    then obtain q where q: "lookup_handle (handles s) (tm_handle t) = Some (q, BIO_TIMER_HANDLE)" by blast
    have "timer_world cur run (s\<lparr>handles := ht, timer_impls := del p (timer_impls s)\<rparr>) \<and> \<not> bio_is_timer_pending (tm_handle t) (s\<lparr>handles := ht\<rparr>)"
      if c: "closed (handles s) (tm_handle t) q BIO_TIMER_HANDLE ht" for ht
    proof -
      have "loop_inv cur run (s\<lparr>handles := ht\<rparr>)" using loop_inv_timer_handle [OF L] c by blast
      moreover have "timers_ok (s\<lparr>handles := ht, timer_impls := del p (timer_impls s)\<rparr>)"
      proof (cases "q = p")
        case True
        then show ?thesis using timers_ok_free [OF ok t] c by blast
      next
        case False
        have "h' = tm_handle t" if "lookup_handle (handles s) h' = Some (p, BIO_TIMER_HANDLE)" for h'
          using timers_okD(2) [OF ok that] t by auto
        then show ?thesis using ok c False by (auto simp: timers_ok_def closed_def)
      qed
      ultimately show ?thesis using closed_resolve [OF c hi] by (simp add: timer_world_def bio_is_timer_pending_def)
    qed
    then show ?thesis
      unfolding timer_free_def deref_Some [OF t] rbind_simps using close_safe [OF hi q]
      by (auto simp: bio_is_timer_pending_def elim!: safe_mono)
  next
    case False
    have "timers_ok (s\<lparr>timer_impls := del p (timer_impls s)\<rparr>)"
    proof -
      have "lookup_handle (handles s) k \<noteq> Some (p, BIO_TIMER_HANDLE)" for k
        using timers_okD(2) [OF ok, of k p] t False by auto
      then show ?thesis using ok by (auto simp: timers_ok_def)
    qed
    then show ?thesis
      using False L close_none [OF hi h False] t h hi
      by (auto simp: timer_free_def timer_world_def bio_is_timer_pending_def resolve_lookup split: option.splits)
  qed
qed

lemma timer_round_safe:
  assumes yield: "keeps_timer self p (mco_yield self)" and call: "\<And>f data. keeps_timer self p (call f data)"
    and inv: "timer_world cur (Some self) s" and p: "map_of (timer_impls s) p \<noteq> None" "self \<noteq> NULL"
  shows "safe (timer_round clk mco_yield call self p s)
    (\<lambda>(more, s'). (\<exists>cur'. timer_world cur' (Some self) s') \<and> map_of (timer_impls s') p \<noteq> None)"
proof -
  obtain t where t: "map_of (timer_impls s) p = Some t" using p(1) by blast
  show ?thesis
    unfolding timer_round_def
  proof (rule safe_bind [OF timer_arm_safe [OF inv p(2) t]], goal_cases)
    case (1 x)
    then obtain h s1 where x: "x = (h, s1)" and s1: "timer_world cur (Some self) s1" "issued (handles s1) h" "map_of (timer_impls s1) p \<noteq> None"
      by (cases x) auto
    have I1: "sched_inv cur (Some self) s1" "timer_inv s1" using s1(1) by (simp_all add: timer_world_def loop_inv_def)
    have h: "\<forall>k \<in> set [h]. issued (handles s1) k" using s1(2) by simp
    have W: "safe (bio_wait_for_one_signal mco_yield self h s1)
        (\<lambda>s'. (\<exists>cur'. timer_world cur' (Some self) s') \<and> map_of (timer_impls s') p \<noteq> None)"
      unfolding bio_wait_for_one_signal_def bio_wait_for_signals_def
    proof (rule safe_bind [OF wait_prepare_safe [OF I1(1) h]], goal_cases)
      case (1 y)
      then obtain b s2 where y: "y = (b, s2)" and s2: "sched_inv cur (Some self) s2" "sched_frame s1 s2" by (cases y) auto
      note F = timer_world_frame [OF s1(1) sched_timer_frame [OF s2(2)] s2(1) timer_inv_frame [OF I1(2) s2(2)]]
      then show ?case using yield s1(3) unfolding y keeps_timer_def by auto
    qed
    show ?case unfolding x prod.case by (rule safe_bind [OF W]) (use timer_fire_safe [OF call] in auto)
  qed
qed

lemma timer_entry_safe:
  assumes "bio_timer_entry clk mco_yield call self p s = Some r"
    and "keeps_timer self p (mco_yield self)" "\<And>f data. keeps_timer self p (call f data)"
    and "timer_world cur (Some self) s" "map_of (timer_impls s) p \<noteq> None" "self \<noteq> NULL"
  shows "safe r (\<lambda>s'. (\<exists>cur'. timer_world cur' (Some self) s') \<and> map_of (timer_impls s') p = None)"
  using assms
proof (induction arbitrary: cur rule: bio_timer_entry.raw_induct [rotated, consumes 1, case_names step])
  case (step entry clk mco_yield call self p s r)
  note R = timer_round_safe [where mco_yield = mco_yield and call = call and clk = clk, OF step.prems]
  show ?case
  proof (cases "timer_round clk mco_yield call self p s")
    case (Inl e)
    then show ?thesis using step.hyps R by auto
  next
    case (Inr x)
    then obtain more s1 cur1 where x: "x = (more, s1)" and s1: "timer_world cur1 (Some self) s1" "map_of (timer_impls s1) p \<noteq> None"
      using R by (cases x) auto
    show ?thesis
    proof (cases more)
      case True
      then show ?thesis
        using step.IH [of clk mco_yield call self p s1 r cur1, OF _ step.prems(1,2) s1 step.prems(5)] step.hyps by (simp add: Inr x)
    next
      case False
      obtain t where t: "map_of (timer_impls s1) p = Some t" using s1(2) by blast
      have "r = timer_free p s1" using step.hyps False by (simp add: Inr x)
      then show ?thesis using timer_free_safe [OF s1(1) t] by (auto elim!: safe_mono)
    qed
  qed
qed

section \<open>Creating and resetting\<close>

lemma timers_ok_new:
  assumes "timers_ok s" "made (handles s) h p BIO_TIMER_HANDLE ht" "p \<noteq> NULL" "map_of (timer_impls s) p = None"
    "tm_handle t = h" "issued ht (tm_wake_signal t)"
  shows "timers_ok (s\<lparr>handles := ht, timer_impls := put p t (timer_impls s)\<rparr>)"
proof -
  have "lookup_handle (handles s) k \<noteq> Some (p, BIO_TIMER_HANDLE)" for k using timers_okD(2) [OF assms(1), of k p] assms(4) by auto
  then show ?thesis using assms by (auto simp: timers_ok_def made_def)
qed

lemma timers_ok_others:
  assumes "timers_ok s" "others_kept s s'"
  shows "timers_ok s'"
proof -
  have "lookup_handle (handles s') h = Some (p, BIO_TIMER_HANDLE) \<longleftrightarrow> lookup_handle (handles s) h = Some (p, BIO_TIMER_HANDLE)" for h p
    by (rule others_kept_lookup [OF assms(2)]) (simp add: sched_tags_def)
  moreover have "timer_impls s' = timer_impls s" using assms(2) by (simp add: others_kept_def)
  ultimately show ?thesis using assms(1) others_kept_issued [OF assms(2)] by (simp add: timers_ok_def)
qed

text \<open>A new timer is pending and due after its timeout.\<close>

definition timer_made :: "('w \<Rightarrow> int \<times> 'w) \<Rightarrow> bio_timer_type \<Rightarrow> int \<Rightarrow> addr \<Rightarrow> addr \<Rightarrow> 'w bio_ctx \<Rightarrow> bio_handle \<Rightarrow> 'w bio_ctx \<Rightarrow> bool" where
  "timer_made clk ttype timeout_ms fn data s h s' \<longleftrightarrow> bio_is_timer_pending h s' \<and>
     (\<exists>t. map_of (timer_impls s') (bio_resolve_handle h BIO_TIMER_HANDLE (handles s')) = Some t
        \<and> tm_type t = ttype \<and> tm_timeout_ms t = timeout_ms \<and> tm_fn t = fn \<and> tm_userdata t = data \<and> \<not> tm_cancelled t
        \<and> tm_due_time_ms t = fst (bio_current_time_ms clk s) + timeout_ms)"

lemma create_timer_safe:
  assumes inv: "timer_world cur run s"
  shows "safe (bio_create_timer clk create ttype timeout_ms fn data s)
    (\<lambda>(h, s'). timer_world cur run s' \<and> timer_made clk ttype timeout_ms fn data s h s')"
proof -
  let ?p = "bio_malloc s"
  obtain now s1 where now: "bio_current_time_ms clk s = (now, s1)" by (cases "bio_current_time_ms clk s")
  have s1: "timer_world cur run s1" "timer_impls s1 = timer_impls s" "handles s1 = handles s"
    using inv time_ms_simps(1) [of cur run clk s] time_ms_simps(2,3) [of clk s] by (simp_all add: now)
  have I: "sched_inv cur run s" "loop_inv cur run s1" "timers_ok s1" using inv s1(1) by (simp_all add: timer_world_def loop_inv_def)
  note fresh = bio_malloc_fresh [OF sched_invD(1) [OF I(1)]]
  have step: "safe (rbind (bio_spawn_ex clk create bio_timer_entry_fn ?p False (s1\<lparr>handles := ht, timer_impls := put ?p t (timer_impls s1)\<rparr>)) (\<lambda>(_, s). Inr (h, s)))
      (\<lambda>(h, s'). timer_world cur run s' \<and> timer_made clk ttype timeout_ms fn data s h s')"
    if m: "made (handles s1) h ?p BIO_TIMER_HANDLE ht" and t: "t = \<lparr>tm_type = ttype, tm_timeout_ms = timeout_ms, tm_fn = fn, tm_userdata = data,
      tm_wake_signal = BIO_INVALID_HANDLE, tm_due_time_ms = now + timeout_ms, tm_cancelled = False, tm_handle = h\<rparr>" for h ht t
  proof -
    let ?s2 = "s1\<lparr>handles := ht, timer_impls := put ?p t (timer_impls s1)\<rparr>"
    have L: "loop_inv cur run ?s2" using loop_inv_timer_handle [OF I(2) disjI1 [OF m]] by simp
    have ok: "timers_ok ?s2" by (rule timers_ok_new [OF I(3) m fresh(1)]) (simp_all add: s1 fresh t issued_def BIO_INVALID_HANDLE_def)
    have lk: "lookup_handle ht h = Some (?p, BIO_TIMER_HANDLE)" using m by (simp add: made_def)
    have post: "timer_world cur run s' \<and> timer_made clk ttype timeout_ms fn data s h s'"
      if L': "loop_inv cur run s'" and oth: "others_kept ?s2 s'" for s'
    proof -
      have hi: "handle_inv (handles s')" using L' by (auto simp: loop_inv_def intro: sched_inv_handles)
      have "lookup_handle (handles s') h = Some (?p, BIO_TIMER_HANDLE)"
        using others_kept_lookup [OF oth, of BIO_TIMER_HANDLE h ?p] lk by (simp add: sched_tags_def)
      moreover have "issued (handles s') h" using others_kept_issued [OF oth, of h] m by (simp add: made_def)
      moreover have "timer_impls s' = put ?p t (timer_impls s1)" using oth by (simp add: others_kept_def)
      ultimately show ?thesis
        using L' timers_ok_others [OF ok oth] hi fresh(1)
        by (simp add: timer_world_def timer_made_def bio_is_timer_pending_def resolve_lookup now t)
    qed
    show ?thesis by (rule safe_bind [OF spawn_safe [OF L]]) (use post in auto)
  qed
  have M: "safe (bio_make_handle ?p BIO_TIMER_HANDLE (handles s1)) (\<lambda>(h, ht). made (handles s1) h ?p BIO_TIMER_HANDLE ht)"
    using make_safe sched_inv_handles [OF I(1)] s1(3) by simp
  show ?thesis
  proof (cases "check64 (now + timeout_ms)")
    case (Inl e)
    then show ?thesis by (auto simp: bio_create_timer_def Let_def now check64_def split: if_splits)
  next
    case (Inr d)
    then have d: "d = now + timeout_ms" by simp
    show ?thesis
      unfolding bio_create_timer_def Let_def now prod.case Inr rbind_simps d
      by (rule safe_bind [OF M]) (use step in auto)
  qed
qed

text \<open>
  Resetting changes the deadline of the object only: the signal that wakes the
  timer's coroutine stays scheduled for the old deadline.
\<close>

lemma reset_timer_safe:
  assumes inv: "timer_world cur run s" and h: "issued (handles s) h"
  shows "safe (bio_reset_timer clk h timeout_ms s) (\<lambda>s'. timer_world cur run s' \<and> timers_of s' = timers_of s
    \<and> handles s' = handles s \<and> signals s' = signals s
    \<and> (\<forall>p t. lookup_handle (handles s) h = Some (p, BIO_TIMER_HANDLE) \<longrightarrow> map_of (timer_impls s) p = Some t \<longrightarrow>
        map_of (timer_impls s') = (map_of (timer_impls s))
          (p \<mapsto> t\<lparr>tm_timeout_ms := timeout_ms, tm_due_time_ms := fst (bio_current_time_ms clk s) + timeout_ms\<rparr>)))"
proof -
  have ok: "timers_ok s" and hi: "handle_inv (handles s)"
    using inv by (auto simp: timer_world_def loop_inv_def intro: sched_inv_handles)
  obtain now w where c: "clk (world s) = (now, w)" by (cases "clk (world s)")
  from ok hi h show ?thesis
  proof (cases rule: resolve_cases)
    case dead
    then show ?thesis using inv by (simp add: bio_reset_timer_def)
  next
    case (live p t)
    have "timer_world cur run ((s\<lparr>world := w\<rparr>)\<lparr>timer_impls := put p (t\<lparr>tm_timeout_ms := timeout_ms, tm_due_time_ms := d\<rparr>) (timer_impls (s\<lparr>world := w\<rparr>))\<rparr>)" for d
      by (rule timer_world_put) (use inv live timers_okD(3) [OF ok live(4)] in \<open>auto simp: timer_world_def\<close>)
    then show ?thesis
      using live by (simp add: bio_reset_timer_def Let_def bio_current_time_ms_def c timers_of_def)
  qed
qed

end
