(* ===== verification/FreeBsd.thy ===== *)
theory FreeBsd
  imports Uring
begin

text \<open>
  The FreeBSD platform layer (\<open>src/src/freebsd/platform.c\<close>, \<open>platform.h\<close>, \<open>common.h\<close>):
  kernel events, requests that wait for them, the exit signals. Names that the
  Linux layer uses too carry the suffix \<open>_freebsd\<close>.
\<close>

section \<open>Model\<close>

datatype kev_filter = EVFILT_READ | EVFILT_WRITE | EVFILT_AIO | EVFILT_SIGNAL | EVFILT_USER

text \<open>What \<open>udata\<close> of an event points to.\<close>

datatype kev_udata = NULL_UDATA | SIGNAL_POLL_DATA | IO_REQ addr

record kevent =
  kev_ident :: int
  kev_filter :: kev_filter
  kev_flags :: "16 word"
  kev_fflags :: "32 word"
  kev_data :: int
  kev_udata :: kev_udata

definition EV_ADD :: "16 word" where "EV_ADD = 0x0001"
definition EV_ENABLE :: "16 word" where "EV_ENABLE = 0x0004"
definition EV_CLEAR :: "16 word" where "EV_CLEAR = 0x0020"
definition EV_DISPATCH :: "16 word" where "EV_DISPATCH = 0x0080"
definition EV_ERROR :: "16 word" where "EV_ERROR = 0x4000"
definition NOTE_FFNOP :: "32 word" where "NOTE_FFNOP = 0"
definition NOTE_TRIGGER :: "32 word" where "NOTE_TRIGGER = 0x01000000"
definition SIGINT :: int where "SIGINT = 2"
definition SIGTERM :: int where "SIGTERM = 15"
definition EBUSY :: int where "EBUSY = 16"
definition ENOTSUP_freebsd :: int where "ENOTSUP_freebsd = 45"

record bio_io_req_freebsd =
  kreq_signal :: bio_handle
  kreq_result :: addr
  kreq_cancelled :: bool

record bio_socket_impl_freebsd =
  bsock_fd :: int
  bsock_read :: addr
  bsock_write :: addr

datatype bio_aio_support = BIO_AIO_SUPPORT_UNKNOWN | BIO_AIO_SUPPORT_ENABLED | BIO_AIO_SUPPORT_DISABLED

record bio_file_impl_freebsd =
  bfile_fd :: int
  bfile_offset :: int
  bfile_seekable :: bool
  bfile_aio_support :: bio_aio_support
  bfile_aio :: addr

text \<open>The part of \<open>struct aiocb\<close> that the code sets: \<open>aio_sigevent\<close> points to a request.\<close>

record aiocb =
  aio_fildes :: int
  aio_buf :: "byte list"
  aio_nbytes :: nat
  aio_offset :: int
  aio_req :: addr

record bio_fs_fopen_args =
  fopen_filename :: string
  fopen_flags :: "32 word"
  fopen_result :: int
  fopen_offset :: int

record bio_fs_io_args =
  io_fd :: int
  io_buf :: "byte list"
  io_size :: nat
  io_result :: int

record bio_fs_fstat_args =
  fstat_fd :: int
  fstat_result :: int
  fstat_size :: nat

text \<open>
  \<open>bio_ctx.platform\<close> of this platform, the objects of its files and sockets and the
  variables whose addresses the kernel or a worker thread is given. All this is
  the \<open>world\<close> of the context; \<open>fb_system\<close> is the state of the operating system.
\<close>

record 'v freebsd =
  fb_kqueue :: int
  fb_batch_size :: "32 word"
  fb_in_events :: "kevent bio_array"
  fb_signal_monitored :: bool
  fb_reqs :: "bio_io_req_freebsd store"
  fb_events :: "kevent store"
  fb_sockets :: "bio_socket_impl_freebsd store"
  fb_files :: "bio_file_impl_freebsd store"
  fb_aiocbs :: "aiocb store"
  fb_fopen_args :: "bio_fs_fopen_args store"
  fb_io_args :: "bio_fs_io_args store"
  fb_fstat_args :: "bio_fs_fstat_args store"
  fb_system :: 'v

type_synonym 'v bsd_ctx = "'v freebsd bio_ctx"

text \<open>
  The system calls. Those that fail by \<open>errno\<close> return the result and \<open>errno\<close>.
  \<open>kevent_wait\<close> takes the changes, the room for events and the timeout, and returns the
  number of events and the events.
\<close>

record 'v bsd =
  kqueuex :: "'v \<Rightarrow> int \<times> 'v"
  kevent_change :: "kevent \<Rightarrow> 'v \<Rightarrow> 'v"
  kevent_wait :: "kevent list \<Rightarrow> nat \<Rightarrow> (int \<times> int) option \<Rightarrow> 'v \<Rightarrow> int \<times> kevent list \<times> 'v"
  bsd_close :: "int \<Rightarrow> 'v \<Rightarrow> int \<times> int \<times> 'v"
  bsd_clock_gettime :: "'v \<Rightarrow> int \<times> int \<times> 'v"
  mask_all_signals :: "'v \<Rightarrow> 'v"
  unmask_signals :: "'v \<Rightarrow> 'v"
  ignore_exit_signals :: "'v \<Rightarrow> 'v"
  restore_exit_signals :: "'v \<Rightarrow> 'v"
  bsd_socket :: "int \<Rightarrow> 32 word \<Rightarrow> 'v \<Rightarrow> int \<times> int \<times> 'v"
  bsd_bind :: "int \<Rightarrow> sockaddr \<Rightarrow> nat \<Rightarrow> 'v \<Rightarrow> int \<times> int \<times> 'v"
  bsd_listen :: "int \<Rightarrow> int \<Rightarrow> 'v \<Rightarrow> int \<times> int \<times> 'v"
  bsd_accept :: "int \<Rightarrow> 'v \<Rightarrow> int \<times> int \<times> 'v"
  bsd_connect :: "int \<Rightarrow> sockaddr \<Rightarrow> nat \<Rightarrow> 'v \<Rightarrow> int \<times> int \<times> 'v"
  bsd_send :: "int \<Rightarrow> byte list \<Rightarrow> 'v \<Rightarrow> int \<times> int \<times> 'v"
  bsd_recv :: "int \<Rightarrow> nat \<Rightarrow> 'v \<Rightarrow> int \<times> int \<times> byte list \<times> 'v"
  aio_write :: "addr \<Rightarrow> aiocb \<Rightarrow> 'v \<Rightarrow> int \<times> int \<times> 'v"
  aio_read :: "addr \<Rightarrow> aiocb \<Rightarrow> 'v \<Rightarrow> int \<times> int \<times> 'v"
  aio_fsync :: "addr \<Rightarrow> aiocb \<Rightarrow> 'v \<Rightarrow> int \<times> int \<times> 'v"
  aio_error :: "addr \<Rightarrow> 'v \<Rightarrow> int \<times> 'v"
  aio_return :: "addr \<Rightarrow> 'v \<Rightarrow> int \<times> int \<times> byte list \<times> 'v"
  aio_cancel :: "int \<Rightarrow> addr \<Rightarrow> 'v \<Rightarrow> int \<times> 'v"
  bsd_open :: "string \<Rightarrow> 32 word \<Rightarrow> 'v \<Rightarrow> int \<times> int \<times> 'v"
  bsd_lseek :: "int \<Rightarrow> int \<Rightarrow> 'v \<Rightarrow> int \<times> 'v"
  bsd_write :: "int \<Rightarrow> byte list \<Rightarrow> 'v \<Rightarrow> int \<times> int \<times> 'v"
  bsd_read :: "int \<Rightarrow> nat \<Rightarrow> 'v \<Rightarrow> int \<times> int \<times> byte list \<times> 'v"
  bsd_fsync :: "int \<Rightarrow> 'v \<Rightarrow> int \<times> int \<times> 'v"
  bsd_fstat :: "int \<Rightarrow> 'v \<Rightarrow> int \<times> int \<times> nat \<times> 'v"

text \<open>A change of the platform's state, and a call of the operating system.\<close>

abbreviation on_fb :: "('v freebsd \<Rightarrow> 'v freebsd) \<Rightarrow> 'v bsd_ctx \<Rightarrow> 'v bsd_ctx" where
  "on_fb f s \<equiv> s\<lparr>world := f (world s)\<rparr>"

definition sys :: "('v \<Rightarrow> int \<times> int \<times> 'v) \<Rightarrow> 'v freebsd \<Rightarrow> int \<times> int \<times> 'v freebsd" where
  "sys f w = (let (result, errno, v) = f (fb_system w) in (result, errno, w\<lparr>fb_system := v\<rparr>))"

definition sys_data :: "('v \<Rightarrow> int \<times> int \<times> 'd \<times> 'v) \<Rightarrow> 'v freebsd \<Rightarrow> int \<times> int \<times> 'd \<times> 'v freebsd" where
  "sys_data f w = (let (result, errno, d, v) = f (fb_system w) in (result, errno, d, w\<lparr>fb_system := v\<rparr>))"

text \<open>A system call on the context.\<close>

definition bsd_call :: "('v \<Rightarrow> int \<times> int \<times> 'v) \<Rightarrow> 'v bsd_ctx \<Rightarrow> int \<times> int \<times> 'v bsd_ctx" where
  "bsd_call f s = (let (result, errno, w) = sys f (world s) in (result, errno, s\<lparr>world := w\<rparr>))"

text \<open>
  A fresh address, also for a variable on a stack. The objects of this layer are only
  looked up in the stores of \<open>freebsd\<close> and those of the core only in the stores of \<open>bio_ctx\<close>.
\<close>

definition fb_malloc :: "'v bsd_ctx \<Rightarrow> addr" where
  "fb_malloc s = allocator s (live_addrs s @ addrs (fb_reqs (world s)) @ addrs (fb_events (world s)) @ addrs (fb_sockets (world s))
     @ addrs (fb_files (world s)) @ addrs (fb_aiocbs (world s)) @ addrs (fb_fopen_args (world s)) @ addrs (fb_io_args (world s)) @ addrs (fb_fstat_args (world s)))"

definition BIO_FREEBSD_DEFAULT_BATCH_SIZE :: "32 word" where
  "BIO_FREEBSD_DEFAULT_BATCH_SIZE = 4"

unbundle bit_operations_syntax

definition bio_platform_init_freebsd :: "'v bsd \<Rightarrow> 32 word \<Rightarrow> 'v bsd_ctx \<Rightarrow> 'v bsd_ctx" where
  "bio_platform_init_freebsd B opt_batch_size s =
    (let (fd, v) = kqueuex B (fb_system (world s));
         event = \<lparr>kev_ident = 0, kev_filter = EVFILT_USER, kev_flags = EV_ADD OR EV_CLEAR, kev_fflags = NOTE_FFNOP, kev_data = 0, kev_udata = NULL_UDATA\<rparr>;
         v = kevent_change B event v in
     on_fb (\<lambda>w. w\<lparr>fb_kqueue := fd, fb_batch_size := (if opt_batch_size = 0 then BIO_FREEBSD_DEFAULT_BATCH_SIZE else opt_batch_size), fb_system := v\<rparr>) s)"

definition bio_platform_cleanup_freebsd :: "'v bsd \<Rightarrow> 'v bsd_ctx \<Rightarrow> 'v bsd_ctx" where
  "bio_platform_cleanup_freebsd B s =
    on_fb (\<lambda>w. let (_, _, w) = sys (bsd_close B (fb_kqueue w)) (w\<lparr>fb_in_events := None\<rparr>) in w) s"

definition bio_platform_unblock_exit_signal_freebsd :: "'v bsd \<Rightarrow> 'v freebsd \<Rightarrow> 'v freebsd" where
  "bio_platform_unblock_exit_signal_freebsd B w = w\<lparr>fb_system := restore_exit_signals B (fb_system w)\<rparr>"

text \<open>One event of \<open>bio_platform_dispatch_events\<close>.\<close>

definition dispatch_event :: "'v bsd \<Rightarrow> kevent \<Rightarrow> 'v bsd_ctx \<Rightarrow> 'v bsd_ctx outcome" where
  "dispatch_event B event s =
    (case kev_udata event of
       SIGNAL_POLL_DATA \<Rightarrow> bio_handle_exit_signal (bio_platform_unblock_exit_signal_freebsd B) s
     | IO_REQ p \<Rightarrow>
         rbind (deref (fb_reqs (world s)) p) (\<lambda>req.
         rbind (if kreq_result req \<noteq> NULL
                then rbind (deref (fb_events (world s)) (kreq_result req)) (\<lambda>_.
                     Inr (on_fb (\<lambda>w. w\<lparr>fb_events := put (kreq_result req) event (fb_events w)\<rparr>) s))
                else Inr s) (\<lambda>s.
         rbind (bio_raise_signal (kreq_signal req) s) (\<lambda>(_, s). Inr s)))
     | NULL_UDATA \<Rightarrow> Inr s)"

fun bio_platform_dispatch_events :: "'v bsd \<Rightarrow> kevent list \<Rightarrow> nat list \<Rightarrow> 'v bsd_ctx \<Rightarrow> 'v bsd_ctx outcome" where
  "bio_platform_dispatch_events B events [] s = Inr s"
| "bio_platform_dispatch_events B events (i # is) s =
    rbind (aget events i) (\<lambda>event. rbind (dispatch_event B event s) (bio_platform_dispatch_events B events is))"

text \<open>
  The loop of \<open>bio_platform_update\<close> that moves the events that were not cancelled to
  the front of the array: \<open>xs\<close> are the elements, \<open>out_index\<close> the number kept so far.
\<close>

fun filter_events :: "bio_io_req_freebsd store \<Rightarrow> nat list \<Rightarrow> nat \<Rightarrow> kevent list \<Rightarrow> (nat \<times> kevent list) outcome" where
  "filter_events reqs [] out_index xs = Inr (out_index, xs)"
| "filter_events reqs (i # is) out_index xs =
    rbind (aget xs i) (\<lambda>event.
    case kev_udata event of
      SIGNAL_POLL_DATA \<Rightarrow> filter_events reqs is (out_index + 1) (xs[out_index := event])
    | IO_REQ p \<Rightarrow>
        rbind (deref reqs p) (\<lambda>req.
        if kreq_cancelled req then filter_events reqs is out_index xs
        else filter_events reqs is (out_index + 1) (xs[out_index := event]))
    | NULL_UDATA \<Rightarrow> Inl DanglingPointer)"

text \<open>A call of \<open>kevent\<close> for events and their dispatch; the number of events is the first result.\<close>

definition fetch_events :: "'v bsd \<Rightarrow> kevent list \<Rightarrow> (int \<times> int) option \<Rightarrow> 'v bsd_ctx \<Rightarrow> (int \<times> 'v bsd_ctx) outcome" where
  "fetch_events B changes timeout s =
    (let (num_events, events, v) = kevent_wait B changes (unat (fb_batch_size (world s))) timeout (fb_system (world s));
         s = on_fb (\<lambda>w. w\<lparr>fb_in_events := bio_array_clear (fb_in_events w), fb_system := v\<rparr>) s in
     rbind (bio_platform_dispatch_events B events [0..<nat num_events] s) (\<lambda>s. Inr (num_events, s)))"

text \<open>The loop that drains the queue as long as it fills the whole batch.\<close>

definition fetch_more :: "'v bsd \<Rightarrow> 'v bsd_ctx \<Rightarrow> (int \<times> 'v bsd_ctx) outcome" where
  "fetch_more B s =
    (let (num_events, events, v) = kevent_wait B [] (unat (fb_batch_size (world s))) (Some (0, 0)) (fb_system (world s));
         s = on_fb (\<lambda>w. w\<lparr>fb_system := v\<rparr>) s in
     rbind (bio_platform_dispatch_events B events [0..<nat num_events] s) (\<lambda>s. Inr (num_events, s)))"

partial_function (option) drain_events :: "'v bsd \<Rightarrow> int \<Rightarrow> 'v bsd_ctx \<Rightarrow> 'v bsd_ctx run" where
  "drain_events B num_events s =
    (if num_events = sint (fb_batch_size (world s))
     then obind (lift (fetch_more B s)) (\<lambda>r. drain_events B (fst r) (snd r))
     else ret s)"

definition bio_platform_update_freebsd :: "'v bsd \<Rightarrow> int \<Rightarrow> bool \<Rightarrow> 'v bsd_ctx \<Rightarrow> 'v bsd_ctx run" where
  "bio_platform_update_freebsd B wait_timeout_ms notifiable s =
    (let xs = array_list (fb_in_events (world s)) in
     obind (lift (filter_events (fb_reqs (world s)) [0..<bio_array_len (fb_in_events (world s))] 0 xs)) (\<lambda>(out_index, xs).
     obind (lift (fetch_events B (take out_index xs)
       (if wait_timeout_ms \<ge> 0 then Some (wait_timeout_ms div 1000, (wait_timeout_ms mod 1000) * 1000000) else None) s)) (\<lambda>r.
     drain_events B (fst r) (snd r))))"

definition bio_platform_notify_freebsd :: "'v bsd \<Rightarrow> 'v bsd_ctx \<Rightarrow> 'v bsd_ctx" where
  "bio_platform_notify_freebsd B s =
    (let event = \<lparr>kev_ident = 0, kev_filter = EVFILT_USER, kev_flags = 0, kev_fflags = NOTE_FFNOP OR NOTE_TRIGGER, kev_data = 0, kev_udata = NULL_UDATA\<rparr> in
     on_fb (\<lambda>w. w\<lparr>fb_system := kevent_change B event (fb_system w)\<rparr>) s)"

definition bio_platform_current_time_ms_freebsd :: "'v bsd \<Rightarrow> 'v \<Rightarrow> int outcome \<times> 'v" where
  "bio_platform_current_time_ms_freebsd B v =
    (let (tv_sec, tv_nsec, v) = bsd_clock_gettime B v in
     (rbind (check64 (tv_sec * 1000)) (\<lambda>ms. check64 (ms + tv_nsec div 1000000)), v))"

definition bio_platform_begin_create_thread_pool_freebsd :: "'v bsd \<Rightarrow> 'v freebsd \<Rightarrow> 'v freebsd" where
  "bio_platform_begin_create_thread_pool_freebsd B w = w\<lparr>fb_system := mask_all_signals B (fb_system w)\<rparr>"

definition bio_platform_end_create_thread_pool_freebsd :: "'v bsd \<Rightarrow> 'v freebsd \<Rightarrow> 'v freebsd" where
  "bio_platform_end_create_thread_pool_freebsd B w = w\<lparr>fb_system := unmask_signals B (fb_system w)\<rparr>"

definition bio_prepare_io_req :: "addr \<Rightarrow> addr \<Rightarrow> 'v bsd_ctx \<Rightarrow> (bio_io_req_freebsd \<times> 'v bsd_ctx) outcome" where
  "bio_prepare_io_req self result s =
    rbind (bio_make_signal self s) (\<lambda>(h, s). Inr (\<lparr>kreq_signal = h, kreq_result = result, kreq_cancelled = False\<rparr>, s))"

definition bio_wait_for_io :: "(addr \<Rightarrow> 'v bsd_ctx \<Rightarrow> 'v bsd_ctx outcome) \<Rightarrow> addr \<Rightarrow> addr \<Rightarrow> 'v bsd_ctx \<Rightarrow> 'v bsd_ctx outcome" where
  "bio_wait_for_io mco_yield self p s =
    rbind (deref (fb_reqs (world s)) p) (\<lambda>req. bio_wait_for_one_signal mco_yield self (kreq_signal req) s)"

definition bio_cancel_io :: "addr \<Rightarrow> 'v bsd_ctx \<Rightarrow> 'v bsd_ctx outcome" where
  "bio_cancel_io p s =
    rbind (deref (fb_reqs (world s)) p) (\<lambda>req.
    let s = on_fb (\<lambda>w. w\<lparr>fb_reqs := put p (req\<lparr>kreq_cancelled := True\<rparr>) (fb_reqs w)\<rparr>) s in
    rbind (bio_raise_signal (kreq_signal req) s) (\<lambda>(_, s). Inr s))"

definition bio_platform_block_exit_signal_freebsd :: "'v bsd \<Rightarrow> 'v bsd_ctx \<Rightarrow> 'v bsd_ctx" where
  "bio_platform_block_exit_signal_freebsd B s =
    on_fb (\<lambda>w.
      let w = w\<lparr>fb_system := ignore_exit_signals B (fb_system w)\<rparr> in
      if \<not> fb_signal_monitored w then
        let event = \<lparr>kev_ident = SIGTERM, kev_filter = EVFILT_SIGNAL, kev_flags = EV_ADD, kev_fflags = 0, kev_data = 0, kev_udata = SIGNAL_POLL_DATA\<rparr>;
            evs = bio_array_push (fb_in_events w) event;
            evs = bio_array_push evs (event\<lparr>kev_ident := SIGINT\<rparr>) in
        w\<lparr>fb_in_events := evs, fb_signal_monitored := True\<rparr>
      else w) s"

section \<open>The events that reach the kernel\<close>

text \<open>
  An event of the array is known when its request is alive, and wanted when that
  request was not cancelled; the events of the exit signals are always wanted.
\<close>

definition known_event :: "bio_io_req_freebsd store \<Rightarrow> kevent \<Rightarrow> bool" where
  "known_event reqs event =
    (case kev_udata event of SIGNAL_POLL_DATA \<Rightarrow> True | IO_REQ p \<Rightarrow> map_of reqs p \<noteq> None | NULL_UDATA \<Rightarrow> False)"

definition wanted_event :: "bio_io_req_freebsd store \<Rightarrow> kevent \<Rightarrow> bool" where
  "wanted_event reqs event =
    (case kev_udata event of
       IO_REQ p \<Rightarrow> (case map_of reqs p of Some req \<Rightarrow> \<not> kreq_cancelled req | None \<Rightarrow> False)
     | SIGNAL_POLL_DATA \<Rightarrow> True | NULL_UDATA \<Rightarrow> False)"

lemma filter_events_step:
  assumes "i < length xs" "known_event reqs (xs ! i)"
  shows "filter_events reqs (i # is) k xs =
    (if wanted_event reqs (xs ! i) then filter_events reqs is (k + 1) (xs[k := xs ! i]) else filter_events reqs is k xs)"
  using assms
  by (auto simp: known_event_def wanted_event_def aget_def deref_def split: kev_udata.splits option.splits)

text \<open>
  The loop with \<open>kept\<close> already moved to the front: the places behind it hold elements
  that were dropped or moved, and \<open>todo\<close> is still in its place.
\<close>

lemma filter_events_moves:
  "\<forall>event \<in> set todo. known_event reqs event \<Longrightarrow>
   \<exists>junk'. filter_events reqs [length kept + length junk..<length kept + length junk + length todo] (length kept) (kept @ junk @ todo)
     = Inr (length kept + length (filter (wanted_event reqs) todo), kept @ filter (wanted_event reqs) todo @ junk')"
proof (induction todo arbitrary: kept junk)
  case Nil
  then show ?case by simp
next
  case (Cons event todo)
  let ?i = "length kept + length junk"
  have upt: "[?i..<?i + length (event # todo)] = ?i # [Suc ?i..<Suc ?i + length todo]" 
    using upt_conv_Cons [of ?i "?i + length (event # todo)"] by (simp del: upt_Suc)
  have at: "(kept @ junk @ event # todo) ! ?i = event" by (simp add: nth_append)
  have step: "filter_events reqs (?i # is) (length kept) (kept @ junk @ event # todo) =
      (if wanted_event reqs event then filter_events reqs is (length kept + 1) ((kept @ junk @ event # todo)[length kept := event])
       else filter_events reqs is (length kept) (kept @ junk @ event # todo))" for "is"
    using filter_events_step [of ?i "kept @ junk @ event # todo"] Cons.prems by (simp add: at)
  show ?case
  proof (cases "wanted_event reqs event")
    case True
    obtain junk2 where j: "(kept @ junk @ event # todo)[length kept := event] = (kept @ [event]) @ junk2 @ todo" "length junk2 = length junk"
      by (cases junk) (auto simp: list_update_append)
    show ?thesis using Cons.IH [of "kept @ [event]" junk2] Cons.prems True unfolding upt step by (simp add: j)
  next
    case False
    show ?thesis using Cons.IH [of kept "junk @ [event]"] Cons.prems False unfolding upt step by simp
  qed
qed

lemma filter_events_filter:
  assumes "\<forall>event \<in> set xs. known_event reqs event"
  shows "\<exists>ys. filter_events reqs [0..<length xs] 0 xs = Inr (length (filter (wanted_event reqs) xs), ys)
    \<and> take (length (filter (wanted_event reqs) xs)) ys = filter (wanted_event reqs) xs"
  using filter_events_moves [OF assms, of "[]" "[]"] by auto

text \<open>
  The well-formedness of the queue: the array is one, and every event in it names a
  live request or an exit signal. It is what \<open>bio_platform_update\<close> relies on.
\<close>

definition events_inv :: "'v bsd_ctx \<Rightarrow> bool" where
  "events_inv s \<longleftrightarrow> array_inv (fb_in_events (world s))
     \<and> (\<forall>event \<in> set (array_list (fb_in_events (world s))). known_event (fb_reqs (world s)) event)"

text \<open>So the kernel is given the wanted events, and nothing else of the array.\<close>

lemma update_submits_wanted:
  assumes "events_inv s"
  shows "bio_platform_update_freebsd B wait_timeout_ms notifiable s =
    obind (lift (fetch_events B (filter (wanted_event (fb_reqs (world s))) (array_list (fb_in_events (world s))))
      (if wait_timeout_ms \<ge> 0 then Some (wait_timeout_ms div 1000, (wait_timeout_ms mod 1000) * 1000000) else None) s)) (\<lambda>r.
    drain_events B (fst r) (snd r))"
  using filter_events_filter [of "array_list (fb_in_events (world s))" "fb_reqs (world s)"] array_len_list [of "fb_in_events (world s)"] assms
  by (auto simp: bio_platform_update_freebsd_def Let_def events_inv_def)

section \<open>The queue stays well-formed\<close>

lemma known_put: "known_event reqs event \<Longrightarrow> known_event (put p req reqs) event"
  by (auto simp: known_event_def split: kev_udata.splits)

lemma known_signal: "kev_udata event = SIGNAL_POLL_DATA \<Longrightarrow> known_event reqs event"
  by (simp add: known_event_def)

lemma raise_signal_world: "bio_raise_signal h s = Inr (woken, s') \<Longrightarrow> world s' = world s"
  by (cases "bio_close_handle h BIO_SIGNAL_HANDLE (handles s)";
      simp add: bio_raise_signal_def Let_def deref_def split: if_splits prod.splits option.splits; auto)

lemma make_signal_world: "bio_make_signal self s = Inr (h, s') \<Longrightarrow> world s' = world s"
  by (auto simp: bio_make_signal_def rbind_eq_Inr Let_def split: if_splits)

lemma block_exit_signal_events: "events_inv s \<Longrightarrow> events_inv (bio_platform_block_exit_signal_freebsd B s)"
  by (cases "fb_signal_monitored (world s)") (auto simp: events_inv_def bio_platform_block_exit_signal_freebsd_def Let_def known_signal)

lemma cancel_io_events: "events_inv s \<Longrightarrow> bio_cancel_io p s = Inr s' \<Longrightarrow> events_inv s'"
  by (auto simp: events_inv_def bio_cancel_io_def rbind_eq_Inr Let_def known_put dest!: raise_signal_world)

text \<open>Delivering events changes neither the queue nor the requests.\<close>

definition same_queue :: "'v bsd_ctx \<Rightarrow> 'v bsd_ctx \<Rightarrow> bool" where
  "same_queue s s' \<longleftrightarrow> fb_in_events (world s') = fb_in_events (world s) \<and> fb_reqs (world s') = fb_reqs (world s)"

lemma dispatch_handlers_world: "dispatch_handlers reason is s = Inr s' \<Longrightarrow> world s' = world s"
proof (induction "is" arbitrary: s)
  case (Cons i "is")
  then obtain p info x s1 where "bio_raise_signal (exit_signal info) (set_exit_infos (put p (info\<lparr>exit_reason := reason\<rparr>) (exit_infos (rest s))) s) = Inr (x, s1)"
      "dispatch_handlers reason is s1 = Inr s'"
    by (auto simp: rbind_eq_Inr Let_def)
  with Cons.IH [of s1] raise_signal_world show ?case by fastforce
qed simp

lemma exit_signal_queue:
  "bio_handle_exit_signal (bio_platform_unblock_exit_signal_freebsd B) s = Inr s' \<Longrightarrow> same_queue s s'"
  using dispatch_handlers_world [of BIO_EXIT_OS_REQUEST "[0..<bio_array_len (exit_handlers (rest s))]" s]
  by (auto simp: bio_handle_exit_signal_def bio_dispatch_exit_signal_def rbind_eq_Inr same_queue_def bio_platform_unblock_exit_signal_freebsd_def Let_def)

lemma dispatch_event_queue:
  assumes "dispatch_event B event s = Inr s'"
  shows "same_queue s s'"
proof (cases "kev_udata event")
  case SIGNAL_POLL_DATA
  then show ?thesis using assms exit_signal_queue by (simp add: dispatch_event_def)
next
  case (IO_REQ p)
  then obtain req where d: "deref (fb_reqs (world s)) p = Inr req" using assms by (auto simp: dispatch_event_def rbind_eq_Inr)
  let ?s = "if kreq_result req = NULL then s else on_fb (\<lambda>w. w\<lparr>fb_events := put (kreq_result req) event (fb_events w)\<rparr>) s"
  obtain x where "bio_raise_signal (kreq_signal req) ?s = Inr (x, s')"
    using assms IO_REQ d by (cases "kreq_result req = NULL") (auto simp: dispatch_event_def rbind_eq_Inr)
  from raise_signal_world [OF this] show ?thesis by (auto simp: same_queue_def)
qed (use assms in \<open>simp add: dispatch_event_def same_queue_def\<close>)

lemma dispatch_events_queue: "bio_platform_dispatch_events B events is s = Inr s' \<Longrightarrow> same_queue s s'"
  by (induction "is" arbitrary: s) (auto simp: rbind_eq_Inr same_queue_def dest!: dispatch_event_queue)

lemma fetch_more_queue: "fetch_more B s = Inr (n, s') \<Longrightarrow> same_queue s s'"
  by (auto simp: fetch_more_def rbind_eq_Inr Let_def same_queue_def dest!: dispatch_events_queue split: prod.splits)

lemma fetch_events_queue: "fetch_events B changes timeout s = Inr (n, s') \<Longrightarrow> fb_in_events (world s') = bio_array_clear (fb_in_events (world s))"
  by (auto simp: fetch_events_def rbind_eq_Inr Let_def same_queue_def dest!: dispatch_events_queue split: prod.splits)

lemma drain_events_queue: "drain_events B n s = Some r \<Longrightarrow> (\<forall>s'. r = Inr s' \<longrightarrow> same_queue s s')"
proof (induction rule: drain_events.raw_induct [rotated, consumes 1, case_names step])
  case (step f B n s r)
  show ?case
  proof (cases "n = sint (fb_batch_size (world s))")
    case True
    show ?thesis
    proof (cases "fetch_more B s")
      case (Inr x)
      then have "f B (fst x) (snd x) = Some r" using step.hyps True by simp
      from step.IH [OF this] fetch_more_queue [of B s "fst x" "snd x"] Inr show ?thesis by (auto simp: same_queue_def)
    qed (use step.hyps True in auto)
  qed (use step.hyps in \<open>auto simp: same_queue_def ret_def\<close>)
qed

lemma update_events:
  assumes "events_inv s" "bio_platform_update_freebsd B wait_timeout_ms notifiable s = Some (Inr s')"
  shows "array_inv (fb_in_events (world s')) \<and> array_list (fb_in_events (world s')) = []"
proof -
  let ?timeout = "if wait_timeout_ms \<ge> 0 then Some (wait_timeout_ms div 1000, (wait_timeout_ms mod 1000) * 1000000) else None"
  let ?f = "fetch_events B (filter (wanted_event (fb_reqs (world s))) (array_list (fb_in_events (world s)))) ?timeout s"
  obtain n s1 where f: "?f = Inr (n, s1)" "drain_events B n s1 = Some (Inr s')"
    using assms(2) unfolding update_submits_wanted [OF assms(1)] by (cases ?f) auto
  have "fb_in_events (world s') = bio_array_clear (fb_in_events (world s))"
    using drain_events_queue [OF f(2)] fetch_events_queue [OF f(1)] by (simp add: same_queue_def)
  then show ?thesis using assms(1) by (simp add: events_inv_def)
qed

end
