(* ===== verification/FreeBsdNet.thy ===== *)
theory FreeBsdNet
  imports FreeBsd LinuxNet
begin

text \<open>
  Sockets on FreeBSD (\<open>src/src/freebsd/net.c\<close>): non-blocking calls that wait for an
  event of the socket when they would block. The translation of addresses and the
  constants that agree with Linux are those of theory \<open>LinuxNet\<close>.
\<close>

section \<open>Model\<close>

text \<open>Constants that differ from Linux.\<close>

definition AF_INET6_freebsd :: int where "AF_INET6_freebsd = 28"
definition SOCK_NONBLOCK_freebsd :: "32 word" where "SOCK_NONBLOCK_freebsd = 0x20000000"
definition SOCK_CLOEXEC_freebsd :: "32 word" where "SOCK_CLOEXEC_freebsd = 0x10000000"
definition SUN_PATH_SIZE_freebsd :: nat where "SUN_PATH_SIZE_freebsd = 104"
definition EWOULDBLOCK :: int where "EWOULDBLOCK = 35"
definition EINPROGRESS :: int where "EINPROGRESS = 36"

definition sa_family_freebsd :: "sockaddr \<Rightarrow> int" where
  "sa_family_freebsd a = (case a of SOCKADDR_IN _ _ \<Rightarrow> AF_INET | SOCKADDR_IN6 _ _ \<Rightarrow> AF_INET6_freebsd | SOCKADDR_UN _ \<Rightarrow> AF_UNIX)"

abbreviation net_c :: "int \<Rightarrow> location" where
  "net_c line \<equiv> (''src/freebsd/net.c'', line)"

definition bio_translate_address_freebsd ::
    "bio_addr \<Rightarrow> bio_port \<Rightarrow> error_ptr \<Rightarrow> bio_addr_translation_result option \<times> error_ptr" where
  "bio_translate_address_freebsd addr port error =
    (case addr of
       BIO_ADDR_IPV4 ipv4 \<Rightarrow>
         (if bio_net_address_compare addr BIO_ADDR_IPV4_ANY \<noteq> 0 \<or> port \<noteq> BIO_PORT_ANY
          then (Some \<lparr>tr_addr = SOCKADDR_IN (htons port) ipv4, tr_addr_len = SOCKADDR_IN_SIZE, should_bind = True\<rparr>, error)
          else (Some \<lparr>tr_addr = SOCKADDR_IN [0, 0] [0, 0, 0, 0], tr_addr_len = SOCKADDR_IN_SIZE, should_bind = False\<rparr>, error))
     | BIO_ADDR_IPV6 ipv6 \<Rightarrow>
         (if bio_net_address_compare addr BIO_ADDR_IPV6_ANY \<noteq> 0 \<or> port \<noteq> BIO_PORT_ANY
          then (Some \<lparr>tr_addr = SOCKADDR_IN6 (htons port) ipv6, tr_addr_len = SOCKADDR_IN6_SIZE, should_bind = True\<rparr>, error)
          else (Some \<lparr>tr_addr = SOCKADDR_IN6 [0, 0] (replicate 16 0), tr_addr_len = SOCKADDR_IN6_SIZE, should_bind = False\<rparr>, error))
     | BIO_ADDR_NAMED name_len name \<Rightarrow>
         if name_len > 0 then
           if name_len < SUN_PATH_SIZE_freebsd then
             let sun_path = take name_len name @ replicate (SUN_PATH_SIZE_freebsd - name_len) 0 in
             if sun_path ! 0 = of_char (CHR ''@'') then (None, bio_set_errno (net_c 76) error ENOTSUP_freebsd)
             else (Some \<lparr>tr_addr = SOCKADDR_UN sun_path, tr_addr_len = SUN_PATH_OFFSET + name_len, should_bind = True\<rparr>, error)
           else (None, bio_set_core_error (net_c 84) error BIO_ERROR_INVALID_ARGUMENT)
         else (Some \<lparr>tr_addr = SOCKADDR_UN (replicate SUN_PATH_SIZE_freebsd 0), tr_addr_len = 0, should_bind = False\<rparr>, error))"

text \<open>\<open>close\<close> whose result is ignored.\<close>

definition close_fd_freebsd :: "'v bsd \<Rightarrow> int \<Rightarrow> 'v bsd_ctx \<Rightarrow> 'v bsd_ctx" where
  "close_fd_freebsd B fd s = (let (_, _, s) = bsd_call (bsd_close B fd) s in s)"

definition bio_make_socket_freebsd ::
    "'v bsd \<Rightarrow> bio_socket_type \<Rightarrow> bio_addr \<Rightarrow> bio_port \<Rightarrow> error_ptr \<Rightarrow> 'v bsd_ctx \<Rightarrow> int \<times> error_ptr \<times> 'v bsd_ctx" where
  "bio_make_socket_freebsd B socket_type addr port error s =
    (case bio_translate_address_freebsd addr port error of
       (None, error) \<Rightarrow> (-1, error, s)
     | (Some tr, error) \<Rightarrow>
         let (fd, errno, s) = bsd_call (bsd_socket B (sa_family_freebsd (tr_addr tr))
               (socket_type_flag socket_type OR SOCK_NONBLOCK_freebsd OR SOCK_CLOEXEC_freebsd)) s in
         if fd < 0 then (-1, bio_set_errno (net_c 123) error errno, s)
         else if should_bind tr then
           let (result, errno, s) = bsd_call (bsd_bind B fd (tr_addr tr) (tr_addr_len tr)) s in
           if result < 0 then (-1, bio_set_errno (net_c 130) error errno, close_fd_freebsd B fd s)
           else (fd, error, s)
         else (fd, error, s))"

definition bio_socket_from_fd_freebsd :: "int \<Rightarrow> 'v bsd_ctx \<Rightarrow> (bio_handle \<times> 'v bsd_ctx) outcome" where
  "bio_socket_from_fd_freebsd fd s =
    (let p = fb_malloc s in
     rbind (bio_make_handle p BIO_SOCKET_HANDLE (handles s)) (\<lambda>(h, ht).
     Inr (h, on_fb (\<lambda>w. w\<lparr>fb_sockets := put p \<lparr>bsock_fd = fd, bsock_read = NULL, bsock_write = NULL\<rparr> (fb_sockets w)\<rparr>) (s\<lparr>handles := ht\<rparr>))))"

text \<open>
  The common part of \<open>bio_net_wait_for_read\<close>, \<open>bio_net_wait_for_write\<close> and \<open>bio_net_connect\<close>:
  the event and the request are variables of the caller at \<open>e\<close> and \<open>r\<close>; the event is
  queued for the kernel. \<open>with_result\<close> says whether the request points back to the event.
\<close>

definition io_event :: "int \<Rightarrow> kev_filter \<Rightarrow> kevent" where
  "io_event fd flt = \<lparr>kev_ident = fd, kev_filter = flt, kev_flags = EV_ADD OR EV_DISPATCH OR EV_ENABLE,
     kev_fflags = 0, kev_data = 0, kev_udata = NULL_UDATA\<rparr>"

definition queue_event ::
    "addr \<Rightarrow> int \<Rightarrow> kev_filter \<Rightarrow> bool \<Rightarrow> 'v bsd_ctx \<Rightarrow> (addr \<times> addr \<times> 'v bsd_ctx) outcome" where
  "queue_event self fd flt with_result s =
    (let e = fb_malloc s;
         s = on_fb (\<lambda>w. w\<lparr>fb_events := put e (io_event fd flt) (fb_events w)\<rparr>) s in
     rbind (bio_prepare_io_req self (if with_result then e else NULL) s) (\<lambda>(req, s).
     let r = fb_malloc s;
         event = (io_event fd flt)\<lparr>kev_udata := IO_REQ r\<rparr> in
     Inr (e, r, on_fb (\<lambda>w. w\<lparr>fb_reqs := put r req (fb_reqs w), fb_events := put e event (fb_events w),
                              fb_in_events := bio_array_push (fb_in_events w) event\<rparr>) s)))"

text \<open>The event after the wait, with the variables of the caller gone.\<close>

definition finish_event :: "addr \<Rightarrow> addr \<Rightarrow> 'v bsd_ctx \<Rightarrow> (kevent \<times> 'v bsd_ctx) outcome" where
  "finish_event e r s =
    rbind (deref (fb_events (world s)) e) (\<lambda>event.
    Inr (event, on_fb (\<lambda>w. w\<lparr>fb_events := del e (fb_events w), fb_reqs := del r (fb_reqs w)\<rparr>) s))"

definition event_result :: "kevent \<Rightarrow> int" where
  "event_result event = (if kev_flags event AND EV_ERROR > 0 then sint (word_of_int (kev_data event) :: 32 word) else 0)"

definition bio_net_wait_for_read ::
    "(addr \<Rightarrow> 'v bsd_ctx \<Rightarrow> 'v bsd_ctx outcome) \<Rightarrow> addr \<Rightarrow> bio_handle \<Rightarrow> addr \<Rightarrow> 'v bsd_ctx \<Rightarrow> (int \<times> 'v bsd_ctx) outcome" where
  "bio_net_wait_for_read mco_yield self ref p s =
    rbind (deref (fb_sockets (world s)) p) (\<lambda>impl.
    if bsock_read impl = NULL then
      rbind (queue_event self (bsock_fd impl) EVFILT_READ True s) (\<lambda>(e, r, s).
      let s = on_fb (\<lambda>w. w\<lparr>fb_sockets := put p (impl\<lparr>bsock_read := e\<rparr>) (fb_sockets w)\<rparr>) s in
      rbind (bio_wait_for_io mco_yield self r s) (\<lambda>s.
      let p = bio_resolve_handle ref BIO_SOCKET_HANDLE (handles s) in
      rbind (if p \<noteq> NULL
             then rbind (deref (fb_sockets (world s)) p) (\<lambda>impl.
                  Inr (on_fb (\<lambda>w. w\<lparr>fb_sockets := put p (impl\<lparr>bsock_read := NULL\<rparr>) (fb_sockets w)\<rparr>) s))
             else Inr s) (\<lambda>s.
      rbind (finish_event e r s) (\<lambda>(event, s). Inr (event_result event, s)))))
    else Inr (EBUSY, s))"

definition bio_net_wait_for_write ::
    "(addr \<Rightarrow> 'v bsd_ctx \<Rightarrow> 'v bsd_ctx outcome) \<Rightarrow> addr \<Rightarrow> bio_handle \<Rightarrow> addr \<Rightarrow> 'v bsd_ctx \<Rightarrow> (int \<times> 'v bsd_ctx) outcome" where
  "bio_net_wait_for_write mco_yield self ref p s =
    rbind (deref (fb_sockets (world s)) p) (\<lambda>impl.
    if bsock_write impl = NULL then
      rbind (queue_event self (bsock_fd impl) EVFILT_WRITE True s) (\<lambda>(e, r, s).
      let s = on_fb (\<lambda>w. w\<lparr>fb_sockets := put p (impl\<lparr>bsock_write := e\<rparr>) (fb_sockets w)\<rparr>) s in
      rbind (bio_wait_for_io mco_yield self r s) (\<lambda>s.
      let p = bio_resolve_handle ref BIO_SOCKET_HANDLE (handles s) in
      rbind (if p \<noteq> NULL
             then rbind (deref (fb_sockets (world s)) p) (\<lambda>impl.
                  Inr (on_fb (\<lambda>w. w\<lparr>fb_sockets := put p (impl\<lparr>bsock_write := NULL\<rparr>) (fb_sockets w)\<rparr>) s))
             else Inr s) (\<lambda>s.
      rbind (finish_event e r s) (\<lambda>(event, s). Inr (event_result event, s)))))
    else Inr (EBUSY, s))"

definition bio_net_init_freebsd :: "'v bsd_ctx \<Rightarrow> 'v bsd_ctx" where
  "bio_net_init_freebsd s = s"

definition bio_net_cleanup_freebsd :: "'v bsd_ctx \<Rightarrow> 'v bsd_ctx" where
  "bio_net_cleanup_freebsd s = s"

text \<open>The socket out-parameter is not assigned.\<close>

definition bio_net_wrap_freebsd :: "int \<Rightarrow> 'v bsd_ctx \<Rightarrow> (bool \<times> 'v bsd_ctx) outcome" where
  "bio_net_wrap_freebsd fd s = rbind (bio_socket_from_fd_freebsd fd s) (\<lambda>(_, s). Inr (True, s))"

definition bio_net_unwrap_freebsd :: "bio_handle \<Rightarrow> 'v bsd_ctx \<Rightarrow> int outcome" where
  "bio_net_unwrap_freebsd socket s =
    (let p = bio_resolve_handle socket BIO_SOCKET_HANDLE (handles s) in
     if p \<noteq> NULL then rbind (deref (fb_sockets (world s)) p) (\<lambda>impl. Inr (bsock_fd impl)) else Inr (-1))"

definition bio_net_listen_freebsd ::
    "'v bsd \<Rightarrow> bio_socket_type \<Rightarrow> bio_addr \<Rightarrow> bio_port \<Rightarrow> error_ptr \<Rightarrow> 'v bsd_ctx \<Rightarrow> (bio_handle option \<times> error_ptr \<times> 'v bsd_ctx) outcome" where
  "bio_net_listen_freebsd B socket_type addr port error s =
    (let (fd, error, s) = bio_make_socket_freebsd B socket_type addr port error s in
     if fd < 0 then Inr (None, error, s)
     else
       let backlog = 5;
           (result, errno, s) = bsd_call (bsd_listen B fd backlog) s in
       if result < 0 then Inr (None, bio_set_errno (net_c 249) error errno, close_fd_freebsd B fd s)
       else rbind (bio_socket_from_fd_freebsd fd s) (\<lambda>(h, s). Inr (Some h, error, s)))"

definition bio_net_accept_freebsd ::
    "'v bsd \<Rightarrow> (addr \<Rightarrow> 'v bsd_ctx \<Rightarrow> 'v bsd_ctx outcome) \<Rightarrow> addr \<Rightarrow> bio_handle \<Rightarrow> error_ptr \<Rightarrow> 'v bsd_ctx \<Rightarrow>
     (bio_handle option \<times> error_ptr \<times> 'v bsd_ctx) outcome" where
  "bio_net_accept_freebsd B mco_yield self socket error s =
    (let p = bio_resolve_handle socket BIO_SOCKET_HANDLE (handles s) in
     if p \<noteq> NULL then
       rbind (deref (fb_sockets (world s)) p) (\<lambda>impl.
       let server_fd = bsock_fd impl;
           (client_fd, errno, s) = bsd_call (bsd_accept B server_fd) s in
       if client_fd = -1 then
         if errno = EWOULDBLOCK then
           rbind (bio_net_wait_for_read mco_yield self socket p s) (\<lambda>(read_wait_result, s).
           if read_wait_result = 0 then
             let (client_fd, errno, s) = bsd_call (bsd_accept B server_fd) s in
             if client_fd \<ge> 0 then rbind (bio_socket_from_fd_freebsd client_fd s) (\<lambda>(h, s). Inr (Some h, error, s))
             else Inr (None, bio_set_errno (net_c 278) error errno, s)
           else Inr (None, bio_set_errno (net_c 282) error read_wait_result, s))
         else Inr (None, bio_set_errno (net_c 286) error errno, s)
       else rbind (bio_socket_from_fd_freebsd client_fd s) (\<lambda>(h, s). Inr (Some h, error, s)))
     else Inr (None, bio_set_core_error (net_c 294) error BIO_ERROR_INVALID_ARGUMENT, s))"

text \<open>
  The end of \<open>bio_net_connect\<close> when the connection is under way. The request is made with
  a null result, so the event the code looks at afterwards is the one it filled in.
\<close>

definition connect_wait ::
    "'v bsd \<Rightarrow> (addr \<Rightarrow> 'v bsd_ctx \<Rightarrow> 'v bsd_ctx outcome) \<Rightarrow> addr \<Rightarrow> int \<Rightarrow> error_ptr \<Rightarrow> 'v bsd_ctx \<Rightarrow>
     (bio_handle option \<times> error_ptr \<times> 'v bsd_ctx) outcome" where
  "connect_wait B mco_yield self fd error s =
    rbind (queue_event self fd EVFILT_WRITE False s) (\<lambda>(e, r, s).
    rbind (bio_wait_for_io mco_yield self r s) (\<lambda>s.
    rbind (finish_event e r s) (\<lambda>(event, s).
    if kev_flags event AND EV_ERROR > 0
    then Inr (None, bio_set_errno (net_c 334) error (kev_data event), close_fd_freebsd B fd s)
    else rbind (bio_socket_from_fd_freebsd fd s) (\<lambda>(h, s). Inr (Some h, error, s)))))"

definition bio_net_connect_freebsd ::
    "'v bsd \<Rightarrow> (addr \<Rightarrow> 'v bsd_ctx \<Rightarrow> 'v bsd_ctx outcome) \<Rightarrow> addr \<Rightarrow> bio_socket_type \<Rightarrow> bio_addr \<Rightarrow> bio_port \<Rightarrow> error_ptr \<Rightarrow> 'v bsd_ctx \<Rightarrow>
     (bio_handle option \<times> error_ptr \<times> 'v bsd_ctx) outcome" where
  "bio_net_connect_freebsd B mco_yield self socket_type addr port error s =
    (case bio_translate_address_freebsd addr port error of
       (None, error) \<Rightarrow> Inr (None, error, s)
     | (Some tr, error) \<Rightarrow>
         let (fd, error, s) = bio_make_socket_freebsd B socket_type (src_addr addr) BIO_PORT_ANY error s in
         if fd < 0 then Inr (None, error, s)
         else
           let (result, errno, s) = bsd_call (bsd_connect B fd (tr_addr tr) (tr_addr_len tr)) s in
           if result \<noteq> 0 then
             if errno = EINPROGRESS then connect_wait B mco_yield self fd error s
             else
               let (close_result, close_errno, s) = bsd_call (bsd_close B fd) s in
               Inr (None, bio_set_errno (net_c 342) error (if close_result < 0 then close_errno else errno), s)
           else rbind (bio_socket_from_fd_freebsd fd s) (\<lambda>(h, s). Inr (Some h, error, s)))"

definition bio_net_send_freebsd ::
    "'v bsd \<Rightarrow> (addr \<Rightarrow> 'v bsd_ctx \<Rightarrow> 'v bsd_ctx outcome) \<Rightarrow> addr \<Rightarrow> bio_handle \<Rightarrow> byte list \<Rightarrow> error_ptr \<Rightarrow> 'v bsd_ctx \<Rightarrow>
     (nat \<times> error_ptr \<times> 'v bsd_ctx) outcome" where
  "bio_net_send_freebsd B mco_yield self socket buf error s =
    (let p = bio_resolve_handle socket BIO_SOCKET_HANDLE (handles s) in
     if p \<noteq> NULL then
       rbind (deref (fb_sockets (world s)) p) (\<lambda>impl.
       let fd = bsock_fd impl;
           (result, errno, s) = bsd_call (bsd_send B fd buf) s in
       if result < 0 then
         if errno = EWOULDBLOCK then
           rbind (bio_net_wait_for_write mco_yield self socket p s) (\<lambda>(write_wait_result, s).
           if write_wait_result = 0 then
             let (result, errno, s) = bsd_call (bsd_send B fd buf) s in
             if result \<ge> 0 then Inr (nat result, error, s)
             else Inr (0, bio_set_errno (net_c 371) error errno, s)
           else Inr (0, bio_set_errno (net_c 375) error write_wait_result, s))
         else Inr (0, bio_set_errno (net_c 379) error errno, s)
       else Inr (nat result, error, s))
     else Inr (0, bio_set_core_error (net_c 386) error BIO_ERROR_INVALID_ARGUMENT, s))"

text \<open>\<open>recv\<close> into the caller's buffer: the result, \<open>errno\<close> and the bytes.\<close>

definition recv_call :: "'v bsd \<Rightarrow> int \<Rightarrow> nat \<Rightarrow> 'v bsd_ctx \<Rightarrow> int \<times> int \<times> byte list \<times> 'v bsd_ctx" where
  "recv_call B fd n s = (let (result, errno, bytes, w) = sys_data (bsd_recv B fd n) (world s) in (result, errno, bytes, s\<lparr>world := w\<rparr>))"

definition bio_net_recv_freebsd ::
    "'v bsd \<Rightarrow> (addr \<Rightarrow> 'v bsd_ctx \<Rightarrow> 'v bsd_ctx outcome) \<Rightarrow> addr \<Rightarrow> bio_handle \<Rightarrow> nat \<Rightarrow> error_ptr \<Rightarrow> 'v bsd_ctx \<Rightarrow>
     (byte list \<times> error_ptr \<times> 'v bsd_ctx) outcome" where
  "bio_net_recv_freebsd B mco_yield self socket num_bytes error s =
    (let p = bio_resolve_handle socket BIO_SOCKET_HANDLE (handles s) in
     if p \<noteq> NULL then
       rbind (deref (fb_sockets (world s)) p) (\<lambda>impl.
       let fd = bsock_fd impl;
           (result, errno, bytes, s) = recv_call B fd num_bytes s in
       if result < 0 then
         if errno = EWOULDBLOCK then
           rbind (bio_net_wait_for_read mco_yield self socket p s) (\<lambda>(read_wait_result, s).
           if read_wait_result = 0 then
             let (result, errno, bytes, s) = recv_call B fd num_bytes s in
             if result \<ge> 0 then Inr (take (nat result) bytes, error, s)
             else Inr ([], bio_set_errno (net_c 411) error errno, s)
           else Inr ([], bio_set_errno (net_c 415) error read_wait_result, s))
         else Inr ([], bio_set_errno (net_c 419) error errno, s)
       else Inr (take (nat result) bytes, error, s))
     else Inr ([], bio_set_core_error (net_c 426) error BIO_ERROR_INVALID_ARGUMENT, s))"

text \<open>\<open>bio_cancel_io(event->udata)\<close> for the event at \<open>e\<close>.\<close>

definition cancel_event :: "addr \<Rightarrow> 'v bsd_ctx \<Rightarrow> 'v bsd_ctx outcome" where
  "cancel_event e s =
    rbind (deref (fb_events (world s)) e) (\<lambda>event.
    case kev_udata event of IO_REQ r \<Rightarrow> bio_cancel_io r s | _ \<Rightarrow> Inl DanglingPointer)"

text \<open>
  The code cancels the request of the reader in both cases, also when it is the
  writer that is to be cancelled.
\<close>

definition bio_net_close_freebsd ::
    "'v bsd \<Rightarrow> bio_handle \<Rightarrow> error_ptr \<Rightarrow> 'v bsd_ctx \<Rightarrow> (bool \<times> error_ptr \<times> 'v bsd_ctx) outcome" where
  "bio_net_close_freebsd B socket error s =
    rbind (bio_close_handle socket BIO_SOCKET_HANDLE (handles s)) (\<lambda>(p, ht).
    let s = s\<lparr>handles := ht\<rparr> in
    if p \<noteq> NULL then
      rbind (deref (fb_sockets (world s)) p) (\<lambda>impl.
      rbind (if bsock_read impl \<noteq> NULL then cancel_event (bsock_read impl) s else Inr s) (\<lambda>s.
      rbind (if bsock_write impl \<noteq> NULL then cancel_event (bsock_read impl) s else Inr s) (\<lambda>s.
      let fd = bsock_fd impl;
          s = on_fb (\<lambda>w. w\<lparr>fb_sockets := del p (fb_sockets w)\<rparr>) s;
          (result, errno, s) = bsd_call (bsd_close B fd) s in
      if result = 0 then Inr (True, error, s)
      else Inr (False, bio_set_errno (net_c 450) error errno, s))))
    else Inr (False, bio_set_core_error (net_c 454) error BIO_ERROR_INVALID_ARGUMENT, s))"

section \<open>Waiting\<close>

lemma queue_event_events:
  assumes "events_inv s" "queue_event self fd flt with_result s = Inr (e, r, s')"
  shows "events_inv s'"
proof -
  obtain h s1 req where "bio_make_signal self (on_fb (\<lambda>w. w\<lparr>fb_events := put (fb_malloc s) (io_event fd flt) (fb_events w)\<rparr>) s) = Inr (h, s1)"
    and "fb_reqs (world s') = put r req (fb_reqs (world s1))"
      "fb_in_events (world s') = bio_array_push (fb_in_events (world s1)) ((io_event fd flt)\<lparr>kev_udata := IO_REQ r\<rparr>)"
    using assms(2) by (fastforce simp: queue_event_def bio_prepare_io_req_def rbind_eq_Inr Let_def)
  with make_signal_world [OF this(1)] assms(1) show ?thesis
    by (auto simp: events_inv_def known_put) (simp add: known_event_def)
qed

section \<open>Closing\<close>

text \<open>
  A socket nobody waits on is closed. A socket a writer waits on, and no reader, makes
  the code follow the null pointer that stands for the missing reader.
\<close>

lemma close_idle_socket:
  assumes "bio_close_handle h BIO_SOCKET_HANDLE (handles s) = Inr (p, ht)" "p \<noteq> NULL" "map_of (fb_sockets (world s)) p = Some impl"
    "bsock_read impl = NULL" "bsock_write impl = NULL" "bsd_close B (bsock_fd impl) (fb_system (world s)) = (0, errno, v)"
  shows "\<exists>s1. bio_net_close_freebsd B h e s = Inr (True, e, s1) \<and> handles s1 = ht \<and> fb_sockets (world s1) = del p (fb_sockets (world s))"
  using assms by (simp add: bio_net_close_freebsd_def bsd_call_def sys_def)

lemma close_with_writer_crashes:
  assumes "bio_close_handle h BIO_SOCKET_HANDLE (handles s) = Inr (p, ht)" "p \<noteq> NULL" "map_of (fb_sockets (world s)) p = Some impl"
    "bsock_read impl = NULL" "bsock_write impl \<noteq> NULL" "map_of (fb_events (world s)) NULL = None"
  shows "bio_net_close_freebsd B h e s = Inl DanglingPointer"
  using assms by (simp add: bio_net_close_freebsd_def cancel_event_def deref_def)

section \<open>Connecting\<close>

text \<open>
  The request of \<open>bio_net_connect\<close> has no place for the event of the kernel: the event
  it looks at after the wait is the one it made. When nobody else changes that, no
  failure of the connection is ever reported.
\<close>

lemma dispatch_without_result:
  assumes "kev_udata event = IO_REQ r" "map_of (fb_reqs (world s)) r = Some req" "kreq_result req = NULL"
  shows "dispatch_event B event s = rbind (bio_raise_signal (kreq_signal req) s) (\<lambda>(_, s). Inr s)"
  using assms by (simp add: dispatch_event_def)

lemma queue_event_flags:
  assumes "queue_event self fd flt with_result s = Inr (e, r, s1)"
  shows "\<exists>event. map_of (fb_events (world s1)) e = Some event \<and> kev_flags event AND EV_ERROR = 0"
  using assms
  by (auto simp: queue_event_def Let_def io_event_def EV_ADD_def EV_DISPATCH_def EV_ENABLE_def EV_ERROR_def rbind_eq_Inr split: prod.splits)

lemma connect_wait_succeeds:
  assumes q: "queue_event self fd EVFILT_WRITE False s = Inr (e, r, s1)" and w: "bio_wait_for_io mco_yield self r s1 = Inr s2"
    and keep: "map_of (fb_events (world s2)) e = map_of (fb_events (world s1)) e"
    and c: "connect_wait B mco_yield self fd err s = Inr (res, err', s')"
  shows "res \<noteq> None \<and> err' = err"
proof -
  obtain event where "map_of (fb_events (world s2)) e = Some event" "kev_flags event AND EV_ERROR = 0"
    using queue_event_flags [OF q] keep by metis
  with c show ?thesis
    by (auto simp: connect_wait_def q w finish_event_def rbind_eq_Inr split: prod.splits)
qed

end
