(* ===== verification/FreeBsdFile.thy ===== *)
theory FreeBsdFile
  imports FreeBsd LinuxFile
begin

text \<open>
  Files on FreeBSD (\<open>src/src/freebsd/file.c\<close>): asynchronous requests of the kernel where the
  file allows them, the thread pool where it does not. The constants that agree
  with Linux and \<open>cchar\<close> are those of theory \<open>LinuxFile\<close>.
\<close>

section \<open>Model\<close>

definition O_CREAT_freebsd :: "32 word" where "O_CREAT_freebsd = 0x0200"
definition O_TRUNC_freebsd :: "32 word" where "O_TRUNC_freebsd = 0x0400"
definition O_APPEND_freebsd :: "32 word" where "O_APPEND_freebsd = 0x0008"
definition O_NONBLOCK_freebsd :: "32 word" where "O_NONBLOCK_freebsd = 0x0004"
definition O_CLOEXEC_freebsd :: "32 word" where "O_CLOEXEC_freebsd = 0x00100000"
definition EOPNOTSUPP :: int where "EOPNOTSUPP = 45"
definition ECANCELED :: int where "ECANCELED = 85"
definition AIO_NOTCANCELED :: int where "AIO_NOTCANCELED = 2"

abbreviation file_c :: "int \<Rightarrow> location" where
  "file_c line \<equiv> (''src/freebsd/file.c'', line)"

abbreviation set_fb_files :: "bio_file_impl_freebsd store \<Rightarrow> 'v bsd_ctx \<Rightarrow> 'v bsd_ctx" where
  "set_fb_files fs s \<equiv> on_fb (\<lambda>w. w\<lparr>fb_files := fs\<rparr>) s"

definition bio_file_from_fd_freebsd :: "int \<Rightarrow> int \<Rightarrow> bool \<Rightarrow> 'v bsd_ctx \<Rightarrow> (bio_handle \<times> 'v bsd_ctx) outcome" where
  "bio_file_from_fd_freebsd fd offset seekable s =
    (let p = fb_malloc s;
         file_impl = \<lparr>bfile_fd = fd, bfile_offset = (if seekable then offset else 0), bfile_seekable = seekable,
                      bfile_aio_support = BIO_AIO_SUPPORT_UNKNOWN, bfile_aio = NULL\<rparr> in
     rbind (bio_make_handle p BIO_FILE_HANDLE (handles s)) (\<lambda>(h, ht).
     Inr (h, set_fb_files (put p file_impl (fb_files (world s))) (s\<lparr>handles := ht\<rparr>))))"

definition bio_fs_init_freebsd :: "'v bsd_ctx \<Rightarrow> 'v bsd_ctx outcome" where
  "bio_fs_init_freebsd s =
    rbind (bio_file_from_fd_freebsd 0 0 False s) (\<lambda>(h, s).
    let s = s\<lparr>rest := (rest s)\<lparr>BIO_STDIN := h\<rparr>\<rparr> in
    rbind (bio_file_from_fd_freebsd 1 0 False s) (\<lambda>(h, s).
    let s = s\<lparr>rest := (rest s)\<lparr>BIO_STDOUT := h\<rparr>\<rparr> in
    rbind (bio_file_from_fd_freebsd 2 0 False s) (\<lambda>(h, s).
    Inr (s\<lparr>rest := (rest s)\<lparr>BIO_STDERR := h\<rparr>\<rparr>))))"

definition free_file_freebsd :: "bio_handle \<Rightarrow> 'v bsd_ctx \<Rightarrow> 'v bsd_ctx outcome" where
  "free_file_freebsd h s =
    rbind (bio_close_handle h BIO_FILE_HANDLE (handles s)) (\<lambda>(p, ht).
    Inr (set_fb_files (if p = NULL then fb_files (world s) else del p (fb_files (world s))) (s\<lparr>handles := ht\<rparr>)))"

definition bio_fs_cleanup_freebsd :: "'v bsd_ctx \<Rightarrow> 'v bsd_ctx outcome" where
  "bio_fs_cleanup_freebsd s =
    rbind (free_file_freebsd (BIO_STDIN (rest s)) s) (\<lambda>s.
    rbind (free_file_freebsd (BIO_STDOUT (rest s)) s) (\<lambda>s.
    free_file_freebsd (BIO_STDERR (rest s)) s))"

definition bio_fdopen_freebsd :: "int \<Rightarrow> 'v bsd_ctx \<Rightarrow> (bool \<times> bio_handle \<times> 'v bsd_ctx) outcome" where
  "bio_fdopen_freebsd fd s = rbind (bio_file_from_fd_freebsd fd (-1) False s) (\<lambda>(h, s). Inr (True, h, s))"

definition bio_funwrap_freebsd :: "bio_handle \<Rightarrow> 'v bsd_ctx \<Rightarrow> int outcome" where
  "bio_funwrap_freebsd file s =
    (let p = bio_resolve_handle file BIO_FILE_HANDLE (handles s) in
     if p \<noteq> NULL then rbind (deref (fb_files (world s)) p) (\<lambda>impl. Inr (bfile_fd impl)) else Inr (-1))"

unbundle bit_operations_syntax

text \<open>
  The functions that run on a worker thread, on the arguments at \<open>p\<close>, which live on
  the stack of the coroutine that waits for them.
\<close>

definition bio_fs_fopen :: "'v bsd \<Rightarrow> addr \<Rightarrow> 'v freebsd \<Rightarrow> 'v freebsd outcome" where
  "bio_fs_fopen B p w =
    rbind (deref (fb_fopen_args w) p) (\<lambda>args.
    let (fd, errno, w) = sys (bsd_open B (fopen_filename args) (fopen_flags args)) w in
    if fd < 0 then Inr (w\<lparr>fb_fopen_args := put p (args\<lparr>fopen_result := - errno\<rparr>) (fb_fopen_args w)\<rparr>)
    else
      let (offset, v) = bsd_lseek B fd (if fopen_flags args AND O_APPEND_freebsd > 0 then SEEK_END else SEEK_CUR) (fb_system w) in
      Inr (w\<lparr>fb_system := v, fb_fopen_args := put p (args\<lparr>fopen_result := fd, fopen_offset := offset\<rparr>) (fb_fopen_args w)\<rparr>))"

definition bio_fs_write :: "'v bsd \<Rightarrow> addr \<Rightarrow> 'v freebsd \<Rightarrow> 'v freebsd outcome" where
  "bio_fs_write B p w =
    rbind (deref (fb_io_args w) p) (\<lambda>args.
    let (result, errno, w) = sys (bsd_write B (io_fd args) (take (io_size args) (io_buf args))) w in
    Inr (w\<lparr>fb_io_args := put p (args\<lparr>io_result := (if result \<ge> 0 then result else - errno)\<rparr>) (fb_io_args w)\<rparr>))"

definition bio_fs_read :: "'v bsd \<Rightarrow> addr \<Rightarrow> 'v freebsd \<Rightarrow> 'v freebsd outcome" where
  "bio_fs_read B p w =
    rbind (deref (fb_io_args w) p) (\<lambda>args.
    let (result, errno, bytes, w) = sys_data (bsd_read B (io_fd args) (io_size args)) w in
    Inr (w\<lparr>fb_io_args := put p (args\<lparr>io_buf := bytes, io_result := (if result \<ge> 0 then result else - errno)\<rparr>) (fb_io_args w)\<rparr>))"

definition bio_fs_fsync :: "'v bsd \<Rightarrow> addr \<Rightarrow> 'v freebsd \<Rightarrow> 'v freebsd outcome" where
  "bio_fs_fsync B p w =
    rbind (deref (fb_io_args w) p) (\<lambda>args.
    let (result, errno, w) = sys (bsd_fsync B (io_fd args)) w in
    Inr (w\<lparr>fb_io_args := put p (args\<lparr>io_result := (if result \<ge> 0 then result else - errno)\<rparr>) (fb_io_args w)\<rparr>))"

definition bio_fs_fstat :: "'v bsd \<Rightarrow> addr \<Rightarrow> 'v freebsd \<Rightarrow> 'v freebsd outcome" where
  "bio_fs_fstat B p w =
    rbind (deref (fb_fstat_args w) p) (\<lambda>args.
    let (result, errno, st_size, w) = sys_data (bsd_fstat B (fstat_fd args)) w in
    Inr (w\<lparr>fb_fstat_args := put p (if result = 0 then args\<lparr>fstat_result := 0, fstat_size := st_size\<rparr>
                                    else args\<lparr>fstat_result := errno\<rparr>) (fb_fstat_args w)\<rparr>))"

text \<open>The pointers to these functions.\<close>

definition bio_fs_fopen_fn :: addr where "bio_fs_fopen_fn = 4"
definition bio_fs_write_fn :: addr where "bio_fs_write_fn = 5"
definition bio_fs_read_fn :: addr where "bio_fs_read_fn = 6"
definition bio_fs_fsync_fn :: addr where "bio_fs_fsync_fn = 7"
definition bio_fs_fstat_fn :: addr where "bio_fs_fstat_fn = 8"

definition open_flags_freebsd :: "string \<Rightarrow> 32 word option" where
  "open_flags_freebsd mode =
    (if cchar mode 0 = CHR ''r'' then
       Some (if cchar mode 1 = CHR ''+'' then O_RDWR else O_RDONLY)
     else if cchar mode 0 = CHR ''w'' then
       Some (if cchar mode 1 = CHR ''+'' then O_RDWR OR O_CREAT_freebsd OR O_TRUNC_freebsd else O_WRONLY OR O_CREAT_freebsd OR O_TRUNC_freebsd)
     else if cchar mode 0 = CHR ''a'' then
       Some (if cchar mode 1 = CHR ''+'' then O_RDWR OR O_CREAT_freebsd OR O_APPEND_freebsd else O_WRONLY OR O_CREAT_freebsd OR O_APPEND_freebsd)
     else None)"

definition bio_fopen_freebsd ::
    "(addr \<Rightarrow> 'v bsd_ctx \<Rightarrow> 'v bsd_ctx outcome) \<Rightarrow> addr \<Rightarrow> string \<Rightarrow> string \<Rightarrow> error_ptr \<Rightarrow> 'v bsd_ctx \<Rightarrow>
     (bio_handle option \<times> error_ptr \<times> 'v bsd_ctx) run" where
  "bio_fopen_freebsd mco_yield self filename mode error s =
    (case open_flags_freebsd mode of
       None \<Rightarrow> ret (None, bio_set_core_error (file_c 123) error BIO_ERROR_INVALID_ARGUMENT, s)
     | Some flags \<Rightarrow>
         let p = fb_malloc s;
             args = \<lparr>fopen_filename = filename, fopen_flags = flags OR O_CLOEXEC_freebsd OR O_NONBLOCK_freebsd, fopen_result = 0, fopen_offset = 0\<rparr>;
             s = on_fb (\<lambda>w. w\<lparr>fb_fopen_args := put p args (fb_fopen_args w)\<rparr>) s in
         obind (bio_run_async_and_wait mco_yield self bio_fs_fopen_fn p s) (\<lambda>s.
         obind (lift (deref (fb_fopen_args (world s)) p)) (\<lambda>args.
         let s = on_fb (\<lambda>w. w\<lparr>fb_fopen_args := del p (fb_fopen_args w)\<rparr>) s in
         if fopen_result args \<ge> 0 then
           obind (lift (bio_file_from_fd_freebsd (fopen_result args) (fopen_offset args) (fopen_offset args \<ge> 0) s)) (\<lambda>(h, s).
           ret (Some h, error, s))
         else ret (None, bio_set_errno (file_c 136) error (- fopen_result args), s))))"

text \<open>When the kernel cannot cancel the request the handle is closed and the object stays.\<close>

definition bio_fclose_freebsd ::
    "'v bsd \<Rightarrow> bio_handle \<Rightarrow> error_ptr \<Rightarrow> 'v bsd_ctx \<Rightarrow> (bool \<times> error_ptr \<times> 'v bsd_ctx) outcome" where
  "bio_fclose_freebsd B file error s =
    rbind (bio_close_handle file BIO_FILE_HANDLE (handles s)) (\<lambda>(p, ht).
    let s = s\<lparr>handles := ht\<rparr> in
    if p \<noteq> NULL then
      rbind (deref (fb_files (world s)) p) (\<lambda>impl.
      let fd = bfile_fd impl;
          (cancel_result, v) = (if bfile_aio impl \<noteq> NULL then aio_cancel B fd (bfile_aio impl) (fb_system (world s)) else (0, fb_system (world s)));
          s = on_fb (\<lambda>w. w\<lparr>fb_system := v\<rparr>) s in
      if bfile_aio impl \<noteq> NULL \<and> cancel_result = AIO_NOTCANCELED then
        Inr (False, bio_set_errno (file_c 150) error EBUSY, s)
      else
        let s = set_fb_files (del p (fb_files (world s))) s;
            (result, errno, s) = bsd_call (bsd_close B fd) s in
        if result = 0 then Inr (True, error, s)
        else Inr (False, bio_set_errno (file_c 158) error errno, s))
    else Inr (False, bio_set_core_error (file_c 163) error BIO_ERROR_INVALID_ARGUMENT, s))"

definition bio_fseek_freebsd :: "bio_handle \<Rightarrow> int \<Rightarrow> int \<Rightarrow> error_ptr \<Rightarrow> 'v bsd_ctx \<Rightarrow> (bool \<times> error_ptr \<times> 'v bsd_ctx) outcome" where
  "bio_fseek_freebsd file offset origin error s =
    (let p = bio_resolve_handle file BIO_FILE_HANDLE (handles s) in
     if p \<noteq> NULL then
       rbind (deref (fb_files (world s)) p) (\<lambda>impl.
       if bfile_seekable impl then
         (if origin = SEEK_SET then
            Inr (True, error, set_fb_files (put p (impl\<lparr>bfile_offset := offset\<rparr>) (fb_files (world s))) s)
          else if origin = SEEK_CUR then
            rbind (check64 (bfile_offset impl + offset)) (\<lambda>off.
            Inr (True, error, set_fb_files (put p (impl\<lparr>bfile_offset := off\<rparr>) (fb_files (world s))) s))
          else Inr (False, bio_set_errno (file_c 185) error ENOTSUP_freebsd, s))
       else Inr (False, bio_set_errno (file_c 189) error ENOTSUP_freebsd, s))
     else Inr (False, bio_set_core_error (file_c 193) error BIO_ERROR_INVALID_ARGUMENT, s))"

definition bio_ftell_freebsd :: "bio_handle \<Rightarrow> error_ptr \<Rightarrow> 'v bsd_ctx \<Rightarrow> (int \<times> error_ptr) outcome" where
  "bio_ftell_freebsd file error s =
    (let p = bio_resolve_handle file BIO_FILE_HANDLE (handles s) in
     if p \<noteq> NULL then
       rbind (deref (fb_files (world s)) p) (\<lambda>impl.
       if bfile_seekable impl then Inr (bfile_offset impl, error)
       else Inr (-1, bio_set_errno (file_c 208) error ENOTSUP_freebsd))
     else Inr (-1, bio_set_core_error (file_c 212) error BIO_ERROR_INVALID_ARGUMENT))"

text \<open>
  \<open>bio_fwrite_in_async_thread\<close> and its two siblings: the arguments are at \<open>a\<close> while the
  worker runs; the file is not looked at afterwards.
\<close>

definition run_io_args ::
    "(addr \<Rightarrow> 'v bsd_ctx \<Rightarrow> 'v bsd_ctx outcome) \<Rightarrow> addr \<Rightarrow> addr \<Rightarrow> bio_fs_io_args \<Rightarrow> 'v bsd_ctx \<Rightarrow> (bio_fs_io_args \<times> 'v bsd_ctx) run" where
  "run_io_args mco_yield self task args s =
    (let a = fb_malloc s;
         s = on_fb (\<lambda>w. w\<lparr>fb_io_args := put a args (fb_io_args w)\<rparr>) s in
     obind (bio_run_async_and_wait mco_yield self task a s) (\<lambda>s.
     obind (lift (deref (fb_io_args (world s)) a)) (\<lambda>args.
     ret (args, on_fb (\<lambda>w. w\<lparr>fb_io_args := del a (fb_io_args w)\<rparr>) s))))"

definition bio_fwrite_in_async_thread ::
    "(addr \<Rightarrow> 'v bsd_ctx \<Rightarrow> 'v bsd_ctx outcome) \<Rightarrow> addr \<Rightarrow> addr \<Rightarrow> byte list \<Rightarrow> error_ptr \<Rightarrow> 'v bsd_ctx \<Rightarrow> (nat \<times> error_ptr \<times> 'v bsd_ctx) run" where
  "bio_fwrite_in_async_thread mco_yield self p buf error s =
    obind (lift (deref (fb_files (world s)) p)) (\<lambda>impl.
    obind (run_io_args mco_yield self bio_fs_write_fn \<lparr>io_fd = bfile_fd impl, io_buf = buf, io_size = length buf, io_result = 0\<rparr> s) (\<lambda>(args, s).
    if io_result args \<ge> 0 then ret (nat (io_result args), error, s)
    else ret (0, bio_set_errno (file_c 273) error (- io_result args), s)))"

definition bio_fread_in_async_thread ::
    "(addr \<Rightarrow> 'v bsd_ctx \<Rightarrow> 'v bsd_ctx outcome) \<Rightarrow> addr \<Rightarrow> addr \<Rightarrow> nat \<Rightarrow> error_ptr \<Rightarrow> 'v bsd_ctx \<Rightarrow> (byte list \<times> error_ptr \<times> 'v bsd_ctx) run" where
  "bio_fread_in_async_thread mco_yield self p n error s =
    obind (lift (deref (fb_files (world s)) p)) (\<lambda>impl.
    obind (run_io_args mco_yield self bio_fs_read_fn \<lparr>io_fd = bfile_fd impl, io_buf = [], io_size = n, io_result = 0\<rparr> s) (\<lambda>(args, s).
    if io_result args \<ge> 0 then ret (take (nat (io_result args)) (io_buf args), error, s)
    else ret ([], bio_set_errno (file_c 294) error (- io_result args), s)))"

definition bio_fsync_in_async_thread ::
    "(addr \<Rightarrow> 'v bsd_ctx \<Rightarrow> 'v bsd_ctx outcome) \<Rightarrow> addr \<Rightarrow> addr \<Rightarrow> error_ptr \<Rightarrow> 'v bsd_ctx \<Rightarrow> (bool \<times> error_ptr \<times> 'v bsd_ctx) run" where
  "bio_fsync_in_async_thread mco_yield self p error s =
    obind (lift (deref (fb_files (world s)) p)) (\<lambda>impl.
    obind (run_io_args mco_yield self bio_fs_fsync_fn \<lparr>io_fd = bfile_fd impl, io_buf = [], io_size = 0, io_result = 0\<rparr> s) (\<lambda>(args, s).
    if io_result args \<ge> 0 then ret (True, error, s)
    else ret (False, bio_set_errno (file_c 306) error (- io_result args), s)))"

text \<open>
  The common part of \<open>bio_fwrite_aio\<close>, \<open>bio_fread_aio\<close> and \<open>bio_fsync_aio\<close>: the code returns
  early with a number, or gets to its end with the number of bytes, the bytes and
  the object the handle resolves to after the wait. The request and the control
  block are variables of the caller at \<open>r\<close> and \<open>c\<close>.
\<close>

datatype aio_progress = AIO_RETURNS int | AIO_RESULT int "byte list" addr

definition end_aio :: "addr \<Rightarrow> addr \<Rightarrow> 'v bsd_ctx \<Rightarrow> 'v bsd_ctx" where
  "end_aio r c s = on_fb (\<lambda>w. w\<lparr>fb_reqs := del r (fb_reqs w), fb_aiocbs := del c (fb_aiocbs w)\<rparr>) s"

definition aio_result :: "'v bsd \<Rightarrow> addr \<Rightarrow> addr \<Rightarrow> addr \<Rightarrow> 'v bsd_ctx \<Rightarrow> (aio_progress \<times> 'v bsd_ctx) outcome" where
  "aio_result B r c p s =
    rbind (deref (fb_reqs (world s)) r) (\<lambda>req.
    if kreq_cancelled req then Inr (AIO_RETURNS (- ECANCELED), end_aio r c s)
    else
      let (error_code, v) = aio_error B c (fb_system (world s));
          s = on_fb (\<lambda>w. w\<lparr>fb_system := v\<rparr>) s in
      if error_code \<noteq> 0 then Inr (AIO_RETURNS (- error_code), end_aio r c s)
      else
        let (result, errno, bytes, w) = sys_data (aio_return B c) (world s);
            s = end_aio r c (s\<lparr>world := w\<rparr>) in
        if result < 0 then Inr (AIO_RETURNS (- errno), s)
        else Inr (AIO_RESULT result (take (nat result) bytes) p, s))"

text \<open>Up to the submission: a number to return, or the request and the control block.\<close>

definition aio_start ::
    "(addr \<Rightarrow> aiocb \<Rightarrow> 'v \<Rightarrow> int \<times> int \<times> 'v) \<Rightarrow> addr \<Rightarrow> addr \<Rightarrow> (bio_file_impl_freebsd \<Rightarrow> addr \<Rightarrow> aiocb) \<Rightarrow> 'v bsd_ctx \<Rightarrow>
     ((int + addr \<times> addr) \<times> 'v bsd_ctx) outcome" where
  "aio_start submit self p mk_aio s =
    rbind (deref (fb_files (world s)) p) (\<lambda>impl.
    if bfile_aio impl \<noteq> NULL then Inr (Inl (- EBUSY), s)
    else
      rbind (bio_prepare_io_req self NULL s) (\<lambda>(req, s).
      let r = fb_malloc s;
          s = on_fb (\<lambda>w. w\<lparr>fb_reqs := put r req (fb_reqs w)\<rparr>) s;
          c = fb_malloc s;
          aio = mk_aio impl r;
          s = on_fb (\<lambda>w. w\<lparr>fb_aiocbs := put c aio (fb_aiocbs w)\<rparr>) s;
          (submission_status, errno, s) = bsd_call (submit c aio) s in
      if submission_status \<noteq> 0 then Inr (Inl (- errno), end_aio r c s)
      else Inr (Inr (r, c), set_fb_files (put p (impl\<lparr>bfile_aio := c\<rparr>) (fb_files (world s))) s)))"

text \<open>After the wait: the handle is resolved again.\<close>

definition aio_finish :: "'v bsd \<Rightarrow> bio_handle \<Rightarrow> addr \<Rightarrow> addr \<Rightarrow> 'v bsd_ctx \<Rightarrow> (aio_progress \<times> 'v bsd_ctx) outcome" where
  "aio_finish B file r c s =
    (let p = bio_resolve_handle file BIO_FILE_HANDLE (handles s) in
     rbind (if p \<noteq> NULL
            then rbind (deref (fb_files (world s)) p) (\<lambda>impl. Inr (set_fb_files (put p (impl\<lparr>bfile_aio := NULL\<rparr>) (fb_files (world s))) s))
            else Inr s) (aio_result B r c p))"

definition aio_run ::
    "'v bsd \<Rightarrow> (addr \<Rightarrow> aiocb \<Rightarrow> 'v \<Rightarrow> int \<times> int \<times> 'v) \<Rightarrow> (addr \<Rightarrow> 'v bsd_ctx \<Rightarrow> 'v bsd_ctx outcome) \<Rightarrow> addr \<Rightarrow> bio_handle \<Rightarrow> addr \<Rightarrow>
     (bio_file_impl_freebsd \<Rightarrow> addr \<Rightarrow> aiocb) \<Rightarrow> 'v bsd_ctx \<Rightarrow> (aio_progress \<times> 'v bsd_ctx) outcome" where
  "aio_run B submit mco_yield self file p mk_aio s =
    rbind (aio_start submit self p mk_aio s) (\<lambda>(start, s).
    case start of
      Inl n \<Rightarrow> Inr (AIO_RETURNS n, s)
    | Inr (r, c) \<Rightarrow> rbind (bio_wait_for_io mco_yield self r s) (aio_finish B file r c))"

text \<open>The control blocks of a write and of a read.\<close>

definition write_cb :: "byte list \<Rightarrow> bio_file_impl_freebsd \<Rightarrow> addr \<Rightarrow> aiocb" where
  "write_cb buf impl r =
    \<lparr>aio_fildes = bfile_fd impl, aio_buf = buf, aio_nbytes = length buf, aio_offset = bfile_offset impl, aio_req = r\<rparr>"

definition read_cb :: "nat \<Rightarrow> bio_file_impl_freebsd \<Rightarrow> addr \<Rightarrow> aiocb" where
  "read_cb n impl r =
    \<lparr>aio_fildes = bfile_fd impl, aio_buf = [], aio_nbytes = n, aio_offset = bfile_offset impl, aio_req = r\<rparr>"

text \<open>The end of \<open>bio_fwrite_aio\<close> and \<open>bio_fread_aio\<close>: \<open>impl->seekable\<close> is read also when \<open>impl\<close> is null.\<close>

definition aio_advance :: "aio_progress \<times> 'v bsd_ctx \<Rightarrow> (int \<times> byte list \<times> 'v bsd_ctx) outcome" where
  "aio_advance ps =
    (case ps of
       (AIO_RETURNS n, s) \<Rightarrow> Inr (n, [], s)
     | (AIO_RESULT result bytes p, s) \<Rightarrow>
         rbind (deref (fb_files (world s)) p) (\<lambda>impl.
         Inr (result, bytes,
           if bfile_seekable impl
           then set_fb_files (put p (impl\<lparr>bfile_offset := wrap64 (bfile_offset impl + result)\<rparr>) (fb_files (world s))) s
           else s)))"

definition bio_fwrite_aio ::
    "'v bsd \<Rightarrow> (addr \<Rightarrow> 'v bsd_ctx \<Rightarrow> 'v bsd_ctx outcome) \<Rightarrow> addr \<Rightarrow> bio_handle \<Rightarrow> addr \<Rightarrow> byte list \<Rightarrow> 'v bsd_ctx \<Rightarrow>
     (int \<times> byte list \<times> 'v bsd_ctx) outcome" where
  "bio_fwrite_aio B mco_yield self file p buf s =
    rbind (aio_run B (aio_write B) mco_yield self file p (write_cb buf) s) aio_advance"

definition bio_fread_aio ::
    "'v bsd \<Rightarrow> (addr \<Rightarrow> 'v bsd_ctx \<Rightarrow> 'v bsd_ctx outcome) \<Rightarrow> addr \<Rightarrow> bio_handle \<Rightarrow> addr \<Rightarrow> nat \<Rightarrow> 'v bsd_ctx \<Rightarrow>
     (int \<times> byte list \<times> 'v bsd_ctx) outcome" where
  "bio_fread_aio B mco_yield self file p n s =
    rbind (aio_run B (aio_read B) mco_yield self file p (read_cb n) s) aio_advance"

definition bio_fsync_aio ::
    "'v bsd \<Rightarrow> (addr \<Rightarrow> 'v bsd_ctx \<Rightarrow> 'v bsd_ctx outcome) \<Rightarrow> addr \<Rightarrow> bio_handle \<Rightarrow> addr \<Rightarrow> 'v bsd_ctx \<Rightarrow>
     (int \<times> byte list \<times> 'v bsd_ctx) outcome" where
  "bio_fsync_aio B mco_yield self file p s =
    rbind (aio_run B (aio_fsync B) mco_yield self file p
      (\<lambda>impl r. \<lparr>aio_fildes = bfile_fd impl, aio_buf = [], aio_nbytes = 0, aio_offset = 0, aio_req = r\<rparr>) s) (\<lambda>(pr, s).
    case pr of AIO_RETURNS n \<Rightarrow> Inr (n, [], s) | AIO_RESULT result bytes p \<Rightarrow> Inr (result, [], s))"

text \<open>
  The switch on \<open>aio_support\<close> of \<open>bio_fwrite\<close>, \<open>bio_fread\<close> and \<open>bio_fflush\<close>: \<open>aio\<close> and \<open>thread\<close> are
  the two ways, \<open>succ\<close> makes the result of a number of bytes and the bytes, \<open>fail\<close> is
  the result on an error. \<open>l1\<close> and \<open>l2\<close> are the lines the errors name. The object at \<open>p\<close>
  is used again after the wait.
\<close>

definition set_aio_support :: "addr \<Rightarrow> bio_aio_support \<Rightarrow> 'v bsd_ctx \<Rightarrow> 'v bsd_ctx outcome" where
  "set_aio_support p support s =
    rbind (deref (fb_files (world s)) p) (\<lambda>impl.
    Inr (set_fb_files (put p (impl\<lparr>bfile_aio_support := support\<rparr>) (fb_files (world s))) s))"

definition aio_switch ::
    "('v bsd_ctx \<Rightarrow> (int \<times> byte list \<times> 'v bsd_ctx) outcome) \<Rightarrow> (error_ptr \<Rightarrow> 'v bsd_ctx \<Rightarrow> ('a \<times> error_ptr \<times> 'v bsd_ctx) run) \<Rightarrow>
     (int \<Rightarrow> byte list \<Rightarrow> 'a) \<Rightarrow> 'a \<Rightarrow> int \<Rightarrow> int \<Rightarrow> addr \<Rightarrow> error_ptr \<Rightarrow> 'v bsd_ctx \<Rightarrow> ('a \<times> error_ptr \<times> 'v bsd_ctx) run" where
  "aio_switch aio thread succ fail l1 l2 p error s =
    obind (lift (deref (fb_files (world s)) p)) (\<lambda>impl.
    case bfile_aio_support impl of
      BIO_AIO_SUPPORT_UNKNOWN \<Rightarrow>
        obind (lift (aio s)) (\<lambda>(result, bytes, s).
        if result \<ge> 0 then
          obind (lift (set_aio_support p BIO_AIO_SUPPORT_ENABLED s)) (\<lambda>s. ret (succ result bytes, error, s))
        else if result = - EOPNOTSUPP then
          obind (lift (set_aio_support p BIO_AIO_SUPPORT_DISABLED s)) (thread error)
        else ret (fail, bio_set_errno (file_c l1) error (- result), s))
    | BIO_AIO_SUPPORT_ENABLED \<Rightarrow>
        obind (lift (aio s)) (\<lambda>(result, bytes, s).
        if result \<ge> 0 then ret (succ result bytes, error, s)
        else ret (fail, bio_set_errno (file_c l2) error (- result), s))
    | BIO_AIO_SUPPORT_DISABLED \<Rightarrow> thread error s)"

definition bio_fwrite_freebsd ::
    "'v bsd \<Rightarrow> (addr \<Rightarrow> 'v bsd_ctx \<Rightarrow> 'v bsd_ctx outcome) \<Rightarrow> addr \<Rightarrow> bio_handle \<Rightarrow> byte list \<Rightarrow> error_ptr \<Rightarrow> 'v bsd_ctx \<Rightarrow>
     (nat \<times> error_ptr \<times> 'v bsd_ctx) run" where
  "bio_fwrite_freebsd B mco_yield self file buf error s =
    (let p = bio_resolve_handle file BIO_FILE_HANDLE (handles s) in
     if p \<noteq> NULL then
       aio_switch (bio_fwrite_aio B mco_yield self file p buf) (bio_fwrite_in_async_thread mco_yield self p buf)
         (\<lambda>result _. nat result) 0 472 481 p error s
     else ret (0, bio_set_core_error (file_c 489) error BIO_ERROR_INVALID_ARGUMENT, s))"

definition bio_fread_freebsd ::
    "'v bsd \<Rightarrow> (addr \<Rightarrow> 'v bsd_ctx \<Rightarrow> 'v bsd_ctx outcome) \<Rightarrow> addr \<Rightarrow> bio_handle \<Rightarrow> nat \<Rightarrow> error_ptr \<Rightarrow> 'v bsd_ctx \<Rightarrow>
     (byte list \<times> error_ptr \<times> 'v bsd_ctx) run" where
  "bio_fread_freebsd B mco_yield self file n error s =
    (let p = bio_resolve_handle file BIO_FILE_HANDLE (handles s) in
     if p \<noteq> NULL then
       aio_switch (bio_fread_aio B mco_yield self file p n) (bio_fread_in_async_thread mco_yield self p n)
         (\<lambda>_ bytes. bytes) [] 513 522 p error s
     else ret ([], bio_set_core_error (file_c 530) error BIO_ERROR_INVALID_ARGUMENT, s))"

definition bio_fflush_freebsd ::
    "'v bsd \<Rightarrow> (addr \<Rightarrow> 'v bsd_ctx \<Rightarrow> 'v bsd_ctx outcome) \<Rightarrow> addr \<Rightarrow> bio_handle \<Rightarrow> error_ptr \<Rightarrow> 'v bsd_ctx \<Rightarrow>
     (bool \<times> error_ptr \<times> 'v bsd_ctx) run" where
  "bio_fflush_freebsd B mco_yield self file error s =
    (let p = bio_resolve_handle file BIO_FILE_HANDLE (handles s) in
     if p \<noteq> NULL then
       aio_switch (bio_fsync_aio B mco_yield self file p) (bio_fsync_in_async_thread mco_yield self p)
         (\<lambda>_ _. True) False 549 558 p error s
     else ret (False, bio_set_core_error (file_c 566) error BIO_ERROR_INVALID_ARGUMENT, s))"

definition bio_fstat_freebsd ::
    "(addr \<Rightarrow> 'v bsd_ctx \<Rightarrow> 'v bsd_ctx outcome) \<Rightarrow> addr \<Rightarrow> bio_handle \<Rightarrow> error_ptr \<Rightarrow> 'v bsd_ctx \<Rightarrow>
     (bool \<times> nat option \<times> error_ptr \<times> 'v bsd_ctx) run" where
  "bio_fstat_freebsd mco_yield self file error s =
    (let p = bio_resolve_handle file BIO_FILE_HANDLE (handles s) in
     if p \<noteq> NULL then
       obind (lift (deref (fb_files (world s)) p)) (\<lambda>impl.
       let a = fb_malloc s;
           s = on_fb (\<lambda>w. w\<lparr>fb_fstat_args := put a \<lparr>fstat_fd = bfile_fd impl, fstat_result = 0, fstat_size = 0\<rparr> (fb_fstat_args w)\<rparr>) s in
       obind (bio_run_async_and_wait mco_yield self bio_fs_fstat_fn a s) (\<lambda>s.
       obind (lift (deref (fb_fstat_args (world s)) a)) (\<lambda>args.
       let s = on_fb (\<lambda>w. w\<lparr>fb_fstat_args := del a (fb_fstat_args w)\<rparr>) s in
       if fstat_result args = 0 then ret (True, Some (fstat_size args), error, s)
       else ret (False, None, bio_set_errno (file_c 601) error (fstat_result args), s))))
     else ret (False, None, bio_set_core_error (file_c 605) error BIO_ERROR_INVALID_ARGUMENT, s))"

section \<open>Positions\<close>

definition bsd_file_at :: "addr \<Rightarrow> bio_handle \<Rightarrow> 'v bsd_ctx \<Rightarrow> bio_file_impl_freebsd \<Rightarrow> bool" where
  "bsd_file_at p h s f \<longleftrightarrow>
     p \<noteq> NULL \<and> bio_resolve_handle h BIO_FILE_HANDLE (handles s) = p \<and> map_of (fb_files (world s)) p = Some f"

lemma bsd_file_atD:
  assumes "bsd_file_at p h s f"
  shows "bio_resolve_handle h BIO_FILE_HANDLE (handles s) = p" "p \<noteq> NULL" "map_of (fb_files (world s)) p = Some f"
    "deref (fb_files (world s)) p = Inr f"
  using assms by (simp_all add: bsd_file_at_def)

lemma seek_tell_freebsd:
  assumes "bsd_file_at p h s f" "bfile_seekable f" "- INT64_MAX - 1 \<le> bfile_offset f + d" "bfile_offset f + d \<le> INT64_MAX"
  shows "\<exists>s1. bio_fseek_freebsd h offset SEEK_SET e s = Inr (True, e, s1) \<and> bio_ftell_freebsd h e s1 = Inr (offset, e)"
    "\<exists>s1. bio_fseek_freebsd h d SEEK_CUR e s = Inr (True, e, s1) \<and> bio_ftell_freebsd h e s1 = Inr (bfile_offset f + d, e)"
  using bsd_file_atD [OF assms(1)] assms(2-4)
  by (simp_all add: bio_fseek_freebsd_def bio_ftell_freebsd_def SEEK_SET_def SEEK_CUR_def check64_def)

section \<open>Requests of the kernel\<close>

text \<open>What a transfer of \<open>n\<close> bytes does to the object.\<close>

definition transferred :: "int \<Rightarrow> bio_file_impl_freebsd \<Rightarrow> bio_file_impl_freebsd" where
  "transferred n f = (if bfile_seekable f then f\<lparr>bfile_offset := wrap64 (bfile_offset f + n), bfile_aio := NULL\<rparr> else f\<lparr>bfile_aio := NULL\<rparr>)"

text \<open>The kernel's answer to the control block \<open>c\<close>: \<open>n\<close> bytes were transferred.\<close>

definition aio_answers :: "'v bsd \<Rightarrow> addr \<Rightarrow> int \<Rightarrow> byte list \<Rightarrow> 'v bsd_ctx \<Rightarrow> bool" where
  "aio_answers B c n bytes s =
    (let (code, v) = aio_error B c (fb_system (world s)); (result, errno, bs, v) = aio_return B c v in
     code = 0 \<and> result = n \<and> 0 \<le> n \<and> take (nat n) bs = bytes)"

lemma aio_result_done:
  assumes "map_of (fb_reqs (world s)) r = Some req" "\<not> kreq_cancelled req" "aio_answers B c n bytes s"
  shows "\<exists>v. aio_result B r c p s = Inr (AIO_RESULT n bytes p, end_aio r c (on_fb (\<lambda>w. w\<lparr>fb_system := v\<rparr>) s))"
  using assms by (auto simp: aio_result_def aio_answers_def sys_data_def Let_def split: prod.splits)

lemma aio_finish_open:
  assumes "bsd_file_at p h s g" "map_of (fb_reqs (world s)) r = Some req" "\<not> kreq_cancelled req" "aio_answers B c n bytes s"
  shows "\<exists>s1. rbind (aio_finish B h r c s) aio_advance = Inr (n, bytes, s1) \<and> bsd_file_at p h s1 (transferred n g)"
proof -
  let ?s = "set_fb_files (put p (g\<lparr>bfile_aio := NULL\<rparr>) (fb_files (world s))) s"
  obtain v where "aio_result B r c p ?s = Inr (AIO_RESULT n bytes p, end_aio r c (on_fb (\<lambda>w. w\<lparr>fb_system := v\<rparr>) ?s))"
    using aio_result_done [of ?s r req B c n bytes p] assms(2-4) by (auto simp: aio_answers_def)
  then show ?thesis
    using bsd_file_atD [OF assms(1)]
    by (auto simp: aio_finish_def aio_advance_def end_aio_def transferred_def bsd_file_at_def)
qed

lemma aio_finish_closed:
  assumes "bio_resolve_handle h BIO_FILE_HANDLE (handles s) = NULL" "map_of (fb_files (world s)) NULL = None"
    "map_of (fb_reqs (world s)) r = Some req" "\<not> kreq_cancelled req" "aio_answers B c n bytes s"
  shows "rbind (aio_finish B h r c s) aio_advance = Inl DanglingPointer"
  using aio_result_done [OF assms(3-5), of NULL] assms(1,2) by (auto simp: aio_finish_def aio_advance_def end_aio_def deref_def)

text \<open>A file that is used through requests of the kernel, as far as is known.\<close>

definition supported :: "bio_file_impl_freebsd \<Rightarrow> bio_file_impl_freebsd \<Rightarrow> bio_file_impl_freebsd" where
  "supported f g = (if bfile_aio_support f = BIO_AIO_SUPPORT_UNKNOWN then g\<lparr>bfile_aio_support := BIO_AIO_SUPPORT_ENABLED\<rparr> else g)"

lemma aio_switch_done:
  assumes "bsd_file_at p h s f" "bfile_aio_support f \<noteq> BIO_AIO_SUPPORT_DISABLED" "aio s = Inr (n, bytes, s1)" "0 \<le> n" "bsd_file_at p h s1 g"
  shows "\<exists>s2. aio_switch aio thread succ fail l1 l2 p e s = ret (succ n bytes, e, s2) \<and> bsd_file_at p h s2 (supported f g)"
  using bsd_file_atD [OF assms(1)] bsd_file_atD [OF assms(5)] assms(2-4)
  by (cases "bfile_aio_support f") (auto simp: aio_switch_def set_aio_support_def supported_def bsd_file_at_def)

lemma aio_switch_crash:
  assumes "bsd_file_at p h s f" "bfile_aio_support f \<noteq> BIO_AIO_SUPPORT_DISABLED" "aio s = Inl DanglingPointer"
  shows "aio_switch aio thread succ fail l1 l2 p e s = Some (Inl DanglingPointer)"
  using bsd_file_atD [OF assms(1)] assms(2,3) by (cases "bfile_aio_support f") (auto simp: aio_switch_def)

text \<open>
  A request that the kernel accepted and answered with success, by the way the
  handle resolves after the wait.
\<close>

definition aio_answered ::
    "'v bsd \<Rightarrow> (addr \<Rightarrow> aiocb \<Rightarrow> 'v \<Rightarrow> int \<times> int \<times> 'v) \<Rightarrow> (bio_file_impl_freebsd \<Rightarrow> addr \<Rightarrow> aiocb) \<Rightarrow>
     (addr \<Rightarrow> 'v bsd_ctx \<Rightarrow> 'v bsd_ctx outcome) \<Rightarrow> addr \<Rightarrow> addr \<Rightarrow> int \<Rightarrow> byte list \<Rightarrow> 'v bsd_ctx \<Rightarrow> 'v bsd_ctx \<Rightarrow> bool" where
  "aio_answered B submit mk_aio mco_yield self p n bytes s s2 \<longleftrightarrow>
    (\<exists>r c s1 req. aio_start submit self p mk_aio s = Inr (Inr (r, c), s1) \<and> bio_wait_for_io mco_yield self r s1 = Inr s2
      \<and> map_of (fb_reqs (world s2)) r = Some req \<and> \<not> kreq_cancelled req \<and> aio_answers B c n bytes s2)"

lemma aio_run_answered:
  assumes "aio_answered B submit mk_aio mco_yield self p n bytes s s2"
  shows "bsd_file_at p h s2 g \<Longrightarrow>
      \<exists>s3. rbind (aio_run B submit mco_yield self h p mk_aio s) aio_advance = Inr (n, bytes, s3) \<and> bsd_file_at p h s3 (transferred n g)"
    "bio_resolve_handle h BIO_FILE_HANDLE (handles s2) = NULL \<Longrightarrow> map_of (fb_files (world s2)) NULL = None \<Longrightarrow>
      rbind (aio_run B submit mco_yield self h p mk_aio s) aio_advance = Inl DanglingPointer"
    "0 \<le> n"
proof -
  obtain r c s1 req where a: "aio_start submit self p mk_aio s = Inr (Inr (r, c), s1)" "bio_wait_for_io mco_yield self r s1 = Inr s2"
      "map_of (fb_reqs (world s2)) r = Some req" "\<not> kreq_cancelled req" "aio_answers B c n bytes s2"
    using assms by (auto simp: aio_answered_def)
  have run: "aio_run B submit mco_yield self h p mk_aio s = aio_finish B h r c s2" by (simp add: aio_run_def a(1,2))
  show "bsd_file_at p h s2 g \<Longrightarrow>
      \<exists>s3. rbind (aio_run B submit mco_yield self h p mk_aio s) aio_advance = Inr (n, bytes, s3) \<and> bsd_file_at p h s3 (transferred n g)"
    unfolding run by (rule aio_finish_open [OF _ a(3-5)])
  show "bio_resolve_handle h BIO_FILE_HANDLE (handles s2) = NULL \<Longrightarrow> map_of (fb_files (world s2)) NULL = None \<Longrightarrow>
      rbind (aio_run B submit mco_yield self h p mk_aio s) aio_advance = Inl DanglingPointer"
    unfolding run by (rule aio_finish_closed [OF _ _ a(3-5)])
  show "0 \<le> n" using a(5) by (simp add: aio_answers_def split: prod.splits)
qed

lemma fwrite_answered:
  assumes "bsd_file_at p h s f" "bfile_aio_support f \<noteq> BIO_AIO_SUPPORT_DISABLED"
    "aio_answered B (aio_write B) (write_cb buf) mco_yield self p n bytes s s2"
  shows "bsd_file_at p h s2 g \<Longrightarrow>
      \<exists>s3. bio_fwrite_freebsd B mco_yield self h buf e s = ret (nat n, e, s3) \<and> bsd_file_at p h s3 (supported f (transferred n g))"
    "bio_resolve_handle h BIO_FILE_HANDLE (handles s2) = NULL \<Longrightarrow> map_of (fb_files (world s2)) NULL = None \<Longrightarrow>
      bio_fwrite_freebsd B mco_yield self h buf e s = Some (Inl DanglingPointer)"
proof -
  have eq: "bio_fwrite_freebsd B mco_yield self h buf e s =
      aio_switch (bio_fwrite_aio B mco_yield self h p buf) (bio_fwrite_in_async_thread mco_yield self p buf) (\<lambda>result _. nat result) 0 472 481 p e s"
    using bsd_file_atD(1,2) [OF assms(1)] by (simp add: bio_fwrite_freebsd_def)
  show "\<exists>s3. bio_fwrite_freebsd B mco_yield self h buf e s = ret (nat n, e, s3) \<and> bsd_file_at p h s3 (supported f (transferred n g))"
    if g: "bsd_file_at p h s2 g"
  proof -
    obtain s3 where s3: "bio_fwrite_aio B mco_yield self h p buf s = Inr (n, bytes, s3)" "bsd_file_at p h s3 (transferred n g)"
      using aio_run_answered(1) [OF assms(3) g] unfolding bio_fwrite_aio_def by blast
    show ?thesis
      using aio_switch_done [where succ = "\<lambda>result _. nat result" and aio = "bio_fwrite_aio B mco_yield self h p buf", OF assms(1,2) s3(1) aio_run_answered(3) [OF assms(3)] s3(2)] unfolding eq by simp
  qed
  show "bio_fwrite_freebsd B mco_yield self h buf e s = Some (Inl DanglingPointer)"
    if "bio_resolve_handle h BIO_FILE_HANDLE (handles s2) = NULL" "map_of (fb_files (world s2)) NULL = None"
    unfolding eq by (rule aio_switch_crash [OF assms(1,2)]) (simp add: bio_fwrite_aio_def aio_run_answered(2) [OF assms(3) that])
qed

lemma fread_answered:
  assumes "bsd_file_at p h s f" "bfile_aio_support f \<noteq> BIO_AIO_SUPPORT_DISABLED"
    "aio_answered B (aio_read B) (read_cb m) mco_yield self p n bytes s s2"
  shows "bsd_file_at p h s2 g \<Longrightarrow>
      \<exists>s3. bio_fread_freebsd B mco_yield self h m e s = ret (bytes, e, s3) \<and> bsd_file_at p h s3 (supported f (transferred n g))"
    "bio_resolve_handle h BIO_FILE_HANDLE (handles s2) = NULL \<Longrightarrow> map_of (fb_files (world s2)) NULL = None \<Longrightarrow>
      bio_fread_freebsd B mco_yield self h m e s = Some (Inl DanglingPointer)"
proof -
  have eq: "bio_fread_freebsd B mco_yield self h m e s =
      aio_switch (bio_fread_aio B mco_yield self h p m) (bio_fread_in_async_thread mco_yield self p m) (\<lambda>_ bytes. bytes) [] 513 522 p e s"
    using bsd_file_atD(1,2) [OF assms(1)] by (simp add: bio_fread_freebsd_def)
  show "\<exists>s3. bio_fread_freebsd B mco_yield self h m e s = ret (bytes, e, s3) \<and> bsd_file_at p h s3 (supported f (transferred n g))"
    if g: "bsd_file_at p h s2 g"
  proof -
    obtain s3 where s3: "bio_fread_aio B mco_yield self h p m s = Inr (n, bytes, s3)" "bsd_file_at p h s3 (transferred n g)"
      using aio_run_answered(1) [OF assms(3) g] unfolding bio_fread_aio_def by blast
    show ?thesis
      using aio_switch_done [where succ = "\<lambda>_ bytes. bytes" and aio = "bio_fread_aio B mco_yield self h p m", OF assms(1,2) s3(1) aio_run_answered(3) [OF assms(3)] s3(2)] unfolding eq by simp
  qed
  show "bio_fread_freebsd B mco_yield self h m e s = Some (Inl DanglingPointer)"
    if "bio_resolve_handle h BIO_FILE_HANDLE (handles s2) = NULL" "map_of (fb_files (world s2)) NULL = None"
    unfolding eq by (rule aio_switch_crash [OF assms(1,2)]) (simp add: bio_fread_aio_def aio_run_answered(2) [OF assms(3) that])
qed

section \<open>Closing\<close>

text \<open>A file whose request cannot be cancelled: the handle is dead, the object and the descriptor stay.\<close>

lemma fclose_busy:
  assumes "bio_close_handle h BIO_FILE_HANDLE (handles s) = Inr (p, ht)" "p \<noteq> NULL" "map_of (fb_files (world s)) p = Some f"
    "bfile_aio f \<noteq> NULL" "aio_cancel B (bfile_fd f) (bfile_aio f) (fb_system (world s)) = (AIO_NOTCANCELED, v)"
  shows "\<exists>s1. bio_fclose_freebsd B h e s = Inr (False, bio_set_errno (file_c 150) e EBUSY, s1) \<and> handles s1 = ht
    \<and> map_of (fb_files (world s1)) p = Some f"
  using assms by (simp add: bio_fclose_freebsd_def)

lemma fclose_idle:
  assumes "bio_close_handle h BIO_FILE_HANDLE (handles s) = Inr (p, ht)" "p \<noteq> NULL" "map_of (fb_files (world s)) p = Some f"
    "bfile_aio f = NULL" "bsd_close B (bfile_fd f) (fb_system (world s)) = (0, errno, v)"
  shows "\<exists>s1. bio_fclose_freebsd B h e s = Inr (True, e, s1) \<and> handles s1 = ht \<and> fb_files (world s1) = del p (fb_files (world s))"
  using assms by (simp add: bio_fclose_freebsd_def bsd_call_def sys_def)

end
