(* ===== verification/Examples.thy ===== *)
theory Examples
  imports Lifecycle WaitProtocol Cls Buffering ThreadPool IntrusiveList Timers Service FreeBsdNet FreeBsdFile
begin

text \<open>
  Concrete contexts: the framework after its start, with one coroutine spawned,
  and with that coroutine running. They show that the invariants can hold and
  serve as inputs on which the properties are tried.
\<close>

lemma case_Inr_iff: "(case m of Inl e \<Rightarrow> False | Inr x \<Rightarrow> P x) \<longleftrightarrow> (\<exists>x. m = Inr x \<and> P x)"
  by (cases m) auto

definition ex_clock :: "unit \<Rightarrow> int \<times> unit" where
  "ex_clock w = (5, w)"

definition ex_create :: "addr \<Rightarrow> unit \<Rightarrow> unit" where
  "ex_create c w = w"

text \<open>An environment in which every coroutine ends as soon as it is resumed.\<close>

definition ex_env :: "unit env" where
  "ex_env = \<lparr>mco_resume = (\<lambda>c s. Inr (True, s)), mco_destroy = (\<lambda>c w. w), cls_cleanup = (\<lambda>spec. None),
    clock = ex_clock, platform_update = (\<lambda>timeout notifiable s. Inr s), thread_update = Inr\<rparr>"

definition ex_init :: "unit bio_ctx" where
  "ex_init = init_core ex_clock bump_allocator 0 ()"

definition ex_spawned :: "unit bio_ctx" where
  "ex_spawned = (case bio_spawn_ex ex_clock ex_create 100 0 False ex_init of Inr (h, s) \<Rightarrow> s | Inl e \<Rightarrow> ex_init)"

definition ex_ready :: "unit bio_ctx" where
  "ex_ready = swap_ready ex_spawned"

text \<open>The address the allocation function gave to the coroutine.\<close>

definition ex_self :: addr where
  "ex_self = 1"

definition ex_running :: "unit bio_ctx" where
  "ex_running = (case map_of (coros ex_ready) ex_self of
     Some k \<Rightarrow> ex_ready\<lparr>coros := put ex_self (k\<lparr>coro_state := BIO_CORO_RUNNING, num_blocking_signals := 0\<rparr>) (coros ex_ready)\<rparr>
   | None \<Rightarrow> ex_ready)"

lemma ex_env_ok: "env_ok ex_create ex_env"
  by (simp add: env_ok_def ex_env_def run_end)

lemma ex_init_idle: "idle_inv ex_init" "mailbox_inv K ex_init"
  unfolding ex_init_def by (rule init_idle [OF bump_allocator_ok])+

lemma ex_spawned_eq: "\<exists>h. bio_spawn_ex ex_clock ex_create 100 0 False ex_init = Inr (h, ex_spawned)"
proof -
  have "case bio_spawn_ex ex_clock ex_create 100 0 False ex_init of Inr x \<Rightarrow> True | Inl e \<Rightarrow> False"
    by code_simp
  then show ?thesis by (auto simp: ex_spawned_def split: sum.splits)
qed

lemma ex_spawned_idle: "idle_inv ex_spawned"
proof -
  have "loop_inv [] None ex_init" "current_ready_coros ex_init = None"
    using ex_init_idle(1) by (simp_all add: idle_inv_def ex_init_def init_fields)
  with spawn_safe [of "[]" None ex_init ex_clock ex_create 100 0 False] ex_spawned_eq show ?thesis
    by (auto simp: idle_inv_def)
qed

lemma ex_ready_inv: "ready_inv ex_ready"
  unfolding ex_ready_def by (rule swap_ready_inv [OF ex_spawned_idle])

lemma ex_ready_list: "array_list (current_ready_coros ex_ready) = [ex_self]"
  by code_simp

lemma ex_running_inv: "loop_inv [] (Some ex_self) ex_running"
proof -
  have inv: "loop_inv [ex_self] None ex_ready" using ex_ready_inv by (simp add: ready_inv_def ex_ready_list)
  then have q: "queue_ok [ex_self] None (next_ready_coros ex_ready) (states (map_of (coros ex_ready)))"
    by (simp add: loop_inv_def sched_inv_gen_def)
  obtain k where k: "map_of (coros ex_ready) ex_self = Some k" using queue_ok_ready [OF q, of ex_self] by (auto simp: states_def)
  show ?thesis using loop_inv_state [OF inv k queue_ok_start [OF q]] unfolding ex_running_def k option.case by simp
qed

text \<open>The running coroutine has made two signals.\<close>

definition ex_signals :: "bio_handle \<times> bio_handle \<times> unit bio_ctx" where
  "ex_signals = (case bio_make_signal ex_self ex_running of
     Inr (h1, s) \<Rightarrow> (case bio_make_signal ex_self s of Inr (h2, s) \<Rightarrow> (h1, h2, s) | Inl e \<Rightarrow> (h1, h1, s))
   | Inl e \<Rightarrow> (BIO_INVALID_HANDLE, BIO_INVALID_HANDLE, ex_running))"

abbreviation "ex_h1 \<equiv> fst ex_signals"
abbreviation "ex_h2 \<equiv> fst (snd ex_signals)"
abbreviation "ex_two \<equiv> snd (snd ex_signals)"

lemma ex_signals_inv:
  "sched_inv [] (Some ex_self) ex_two" "timer_inv ex_two" "issued (handles ex_two) ex_h1" "issued (handles ex_two) ex_h2"
proof -
  have run: "sched_inv [] (Some ex_self) ex_running" "timer_inv ex_running" using ex_running_inv by (simp_all add: loop_inv_def)
  have c: "map_of (coros s) ex_self \<noteq> None" if "sched_inv [] (Some ex_self) s" for s :: "unit bio_ctx"
    using running_coro [OF that] by auto
  have r: "case bio_make_signal ex_self ex_running of Inr (h, s) \<Rightarrow> (case bio_make_signal ex_self s of Inr (h', s') \<Rightarrow> True | Inl e \<Rightarrow> False) | Inl e \<Rightarrow> False"
    by code_simp
  then obtain h1 s1 where a: "bio_make_signal ex_self ex_running = Inr (h1, s1)" by (auto split: sum.splits prod.splits)
  with r obtain x where b: "bio_make_signal ex_self s1 = Inr x" by (cases "bio_make_signal ex_self s1") auto
  obtain h2 s2 where "x = (h2, s2)" by (cases x)
  note s = a b [unfolded this]
  have 1: "sched_inv [] (Some ex_self) s1" "sched_frame ex_running s1" "issued (handles s1) h1"
    using make_signal_safe [OF run(1), of ex_self] c [OF run(1)] by (simp_all add: s(1))
  have 2: "sched_inv [] (Some ex_self) s2" "sched_frame s1 s2" "issued (handles s2) h2"
    using make_signal_safe [OF 1(1), of ex_self] c [OF 1(1)] by (simp_all add: s(2))
  have e: "ex_signals = (h1, h2, s2)" by (simp add: ex_signals_def s)
  show "sched_inv [] (Some ex_self) ex_two" "timer_inv ex_two" "issued (handles ex_two) ex_h1" "issued (handles ex_two) ex_h2"
    using 1 2 timer_inv_frame [OF timer_inv_frame [OF run(2) 1(2)] 2(2)] sched_frame_issued [OF 2(2) 1(3)] by (simp_all add: e)
qed

text \<open>The same context while the framework is terminating.\<close>

definition ex_terminating :: "unit bio_ctx" where
  "ex_terminating = ex_ready\<lparr>is_terminating := True\<rparr>"

lemma ex_terminating_inv: "ready_inv ex_terminating"
  using ex_ready_inv by (simp add: ready_inv_def loop_inv_def ex_terminating_def sched_inv_gen_def graph_ok_def timer_inv_def timers_of_def)

lemma ex_loop: "\<exists>s'. bio_loop ex_env ex_ready = Some (Inr s')"
proof -
  have "case loop_iteration ex_env ex_ready of Inr (finished, s') \<Rightarrow> finished | Inl e \<Rightarrow> False"
    by code_simp
  then show ?thesis by (auto simp: bio_loop.simps [of ex_env ex_ready] split: sum.splits)
qed

text \<open>The running coroutine waits for both of its signals, then the loop suspends it.\<close>

definition ex_waiting :: "bool \<Rightarrow> bio_handle list \<Rightarrow> unit bio_ctx" where
  "ex_waiting wait_all hs = (case wait_prepare ex_self hs wait_all ex_two of Inr (b, s) \<Rightarrow> s | Inl e \<Rightarrow> ex_two)"

lemma ex_wait_eq:
  assumes "case wait_prepare ex_self hs wait_all ex_two of Inr (b, s) \<Rightarrow> b | Inl e \<Rightarrow> False"
  shows "wait_prepare ex_self hs wait_all ex_two = Inr (True, ex_waiting wait_all hs)"
  using assms by (auto simp: ex_waiting_def split: sum.splits prod.splits)

lemma ex_wait_both: "wait_prepare ex_self [ex_h1, ex_h2] wait_all ex_two = Inr (True, ex_waiting wait_all [ex_h1, ex_h2])"
proof (rule ex_wait_eq)
  have "case wait_prepare ex_self [ex_h1, ex_h2] True ex_two of Inr (b, s) \<Rightarrow> b | Inl e \<Rightarrow> False"
    "case wait_prepare ex_self [ex_h1, ex_h2] False ex_two of Inr (b, s) \<Rightarrow> b | Inl e \<Rightarrow> False"
    by code_simp+
  then show "case wait_prepare ex_self [ex_h1, ex_h2] wait_all ex_two of Inr (b, s) \<Rightarrow> b | Inl e \<Rightarrow> False"
    by (cases wait_all) simp_all
qed

lemma ex_wait_twice: "wait_prepare ex_self [ex_h1, ex_h1] True ex_two = Inr (True, ex_waiting True [ex_h1, ex_h1])"
  by (rule ex_wait_eq) code_simp

lemma ex_handles: "ex_h1 \<noteq> ex_h2" "blocks_on ex_self ex_two ex_h1" "blocks_on ex_self ex_two ex_h2"
  by code_simp+

lemma ex_blockers: "{h \<in> set [ex_h1, ex_h2]. blocks_on ex_self ex_two h} = {ex_h1, ex_h2}"
  using ex_handles by auto

text \<open>Making and closing one handle in a fresh table.\<close>

lemma ex_handle_calls:
  "\<exists>h t t'. bio_make_handle 7 BIO_FILE_HANDLE bio_handle_table_init = Inr (h, t) \<and> bio_close_handle h BIO_FILE_HANDLE t = Inr (7, t')"
proof -
  have "case bio_make_handle 7 BIO_FILE_HANDLE bio_handle_table_init of
      Inr (h, t) \<Rightarrow> (case bio_close_handle h BIO_FILE_HANDLE t of Inr (p, t') \<Rightarrow> p = 7 | Inl e \<Rightarrow> False) | Inl e \<Rightarrow> False"
    by code_simp
  then show ?thesis by (auto simp: case_Inr_iff)
qed

text \<open>The first of the two signals is to be raised in 3 milliseconds, at time 8.\<close>

definition ex_timer :: "unit bio_ctx" where
  "ex_timer = (case bio_raise_signal_after ex_h1 3 ex_two of Inr s \<Rightarrow> s | Inl e \<Rightarrow> ex_two)"

lemma ex_timer_inv: "loop_inv [] (Some ex_self) ex_timer" "tq_entries (timers_of ex_timer) \<noteq> {#}"
proof -
  have "case bio_raise_signal_after ex_h1 3 ex_two of Inr s \<Rightarrow> True | Inl e \<Rightarrow> False" by code_simp
  then have "bio_raise_signal_after ex_h1 3 ex_two = Inr ex_timer" by (auto simp: ex_timer_def split: sum.splits)
  with raise_after_safe [OF ex_signals_inv(1) emptied_simps(1) ex_signals_inv(2,3), of 3]
  show "loop_inv [] (Some ex_self) ex_timer" "tq_entries (timers_of ex_timer) \<noteq> {#}" by (simp_all add: loop_inv_def)
qed

lemma ex_timer_update: "\<exists>s'. bio_timer_update ex_clock ex_timer = Inr s'"
proof -
  have "case bio_timer_update ex_clock ex_timer of Inr s \<Rightarrow> True | Inl e \<Rightarrow> False" by code_simp
  then show ?thesis by (auto split: sum.splits)
qed

text \<open>A ring of two slots of two bytes whose counters are about to wrap around.\<close>

definition ex_ring :: bio_mailbox where
  "ex_ring = \<lparr>mb_capacity = 2, mb_read = - 1, mb_write = - 1, mb_signal = BIO_INVALID_HANDLE, mb_data = [0, 0, 0, 0]\<rparr>"

lemma ex_ring_ok: "ring_ok 2 ex_ring" "ring_messages 2 ex_ring = []"
proof -
  have "\<exists>k < 32. (2 :: 32 word) = 2 ^ k" by (rule exI [of _ 1]) simp
  then show "ring_ok 2 ex_ring" by (simp add: ring_ok_def ex_ring_def)
  show "ring_messages 2 ex_ring = []" by (simp add: ring_messages_def ex_ring_def)
qed

lemma no_slot_no_handle:
  assumes "handle_inv ht" "list_all (\<lambda>x. slot_tag x \<noteq> t) (handle_slots ht)"
  shows "lookup_handle ht h \<noteq> Some (p, t)"
proof
  assume h: "lookup_handle ht h = Some (p, t)"
  then have "nat (index h - 1) < length (handle_slots ht)"
    using assms(1) by (auto simp: lookup_handle_def handle_inv_def Let_def split: if_splits)
  with assms(2) h show False by (auto simp: lookup_handle_def Let_def list_all_length split: if_splits)
qed

text \<open>A mailbox for messages of one byte, with room for two.\<close>

definition ex_opened :: "bio_handle \<times> unit bio_ctx" where
  "ex_opened = (case bio__mailbox_open 1 2 ex_running of Inr x \<Rightarrow> x | Inl e \<Rightarrow> (BIO_INVALID_HANDLE, ex_running))"

abbreviation "ex_mailbox \<equiv> fst ex_opened"
abbreviation "ex_mail \<equiv> snd ex_opened"

lemma ex_mail_inv:
  "sched_inv [] (Some ex_self) ex_mail" "mailbox_inv (\<lambda>_. 1) ex_mail" "issued (handles ex_mail) ex_mailbox"
  "messages (\<lambda>_. 1) ex_mailbox ex_mail = Some []"
proof -
  have "case bio__mailbox_open 1 2 ex_running of Inr x \<Rightarrow> True | Inl e \<Rightarrow> False" by code_simp
  then have r: "bio__mailbox_open 1 2 ex_running = Inr (ex_mailbox, ex_mail)" by (auto simp: ex_opened_def case_Inr_iff)
  have m: "mailboxes ex_running = []" by code_simp
  have "list_all (\<lambda>x. slot_tag x \<noteq> BIO_MAILBOX_HANDLE) (handle_slots (handles ex_running))" by code_simp
  moreover have "handle_inv (handles ex_running)" using ex_running_inv by (auto simp: loop_inv_def intro: sched_inv_handles)
  ultimately have "lookup_handle (handles ex_running) h \<noteq> Some (p, BIO_MAILBOX_HANDLE)" for h p
    by (rule no_slot_no_handle [rotated])
  with m have "mailbox_inv (\<lambda>_. 1) ex_running" by (auto simp: mailbox_inv_def named_def intro!: exI [of _ Map.empty])
  moreover have "(\<lambda>_. 1 :: nat)(h := 1) = (\<lambda>_. 1)" for h :: bio_handle by auto
  ultimately show "sched_inv [] (Some ex_self) ex_mail" "mailbox_inv (\<lambda>_. 1) ex_mail" "issued (handles ex_mail) ex_mailbox"
    "messages (\<lambda>_. 1) ex_mailbox ex_mail = Some []"
    using open_safe [of Map.empty Map.empty "[]" "Some ex_self" ex_running "\<lambda>_. 1" 1 2] ex_running_inv r
    by (simp_all add: loop_inv_def split_beta)
qed

text \<open>The running coroutine waits for the end of the program.\<close>

definition ex_exit :: "unit bio_ctx" where
  "ex_exit = (case exit_register Inr ex_self ex_running of Inr (h, p, s) \<Rightarrow> s | Inl e \<Rightarrow> ex_running)"

lemma ex_exit_inv: "loop_inv [] (Some ex_self) ex_exit" "exit_ok ex_exit" "array_list (exit_handlers (rest ex_exit)) \<noteq> []"
proof -
  have "case exit_register Inr ex_self ex_running of Inr x \<Rightarrow> True | Inl e \<Rightarrow> False" by code_simp
  then obtain h p s where r: "exit_register Inr ex_self ex_running = Inr (h, p, s)" by (auto simp: case_Inr_iff)
  have "exit_handlers (rest ex_running) = None" by code_simp
  then have "exit_ok ex_running" by (simp add: exit_ok_def)
  from exit_register_safe [OF ex_running_inv this, of Inr] r
  show "loop_inv [] (Some ex_self) ex_exit" "exit_ok ex_exit" "array_list (exit_handlers (rest ex_exit)) \<noteq> []"
    by (simp_all add: ex_exit_def ex_self_def)
qed

lemma ex_exit_dispatch: "\<exists>s'. bio_dispatch_exit_signal id BIO_EXIT_TERMINATE ex_exit = Inr s'"
proof -
  have "case bio_dispatch_exit_signal id BIO_EXIT_TERMINATE ex_exit of Inr s \<Rightarrow> True | Inl e \<Rightarrow> False" by code_simp
  then show ?thesis by (auto split: sum.splits)
qed

text \<open>A one-shot timer of 3 milliseconds.\<close>

definition ex_created :: "bio_handle \<times> unit bio_ctx" where
  "ex_created = (case bio_create_timer ex_clock ex_create BIO_TIMER_ONESHOT 3 100 0 ex_running of Inr x \<Rightarrow> x | Inl e \<Rightarrow> (BIO_INVALID_HANDLE, ex_running))"

lemma ex_running_timers: "timer_world [] (Some ex_self) ex_running"
proof -
  have m: "timer_impls ex_running = []" by code_simp
  have "list_all (\<lambda>x. slot_tag x \<noteq> BIO_TIMER_HANDLE) (handle_slots (handles ex_running))" by code_simp
  moreover have "handle_inv (handles ex_running)" using ex_running_inv by (auto simp: loop_inv_def intro: sched_inv_handles)
  ultimately have "lookup_handle (handles ex_running) h \<noteq> Some (p, BIO_TIMER_HANDLE)" for h p
    by (rule no_slot_no_handle [rotated])
  with m ex_running_inv show ?thesis by (simp add: timer_world_def timers_ok_def)
qed

lemma ex_created_inv:
  "timer_world [] (Some ex_self) (snd ex_created)" "issued (handles (snd ex_created)) (fst ex_created)"
  "bio_is_timer_pending (fst ex_created) (snd ex_created)"
proof -
  have "case bio_create_timer ex_clock ex_create BIO_TIMER_ONESHOT 3 100 0 ex_running of Inr x \<Rightarrow> True | Inl e \<Rightarrow> False" by code_simp
  then have r: "bio_create_timer ex_clock ex_create BIO_TIMER_ONESHOT 3 100 0 ex_running = Inr ex_created" by (auto simp: ex_created_def case_Inr_iff)
  with create_timer_safe [OF ex_running_timers, of ex_clock ex_create BIO_TIMER_ONESHOT 3 100 0]
  show w: "timer_world [] (Some ex_self) (snd ex_created)" and "bio_is_timer_pending (fst ex_created) (snd ex_created)"
    by (simp_all add: split_beta timer_made_def)
  have "handle_inv (handles (snd ex_created))" using w by (auto simp: timer_world_def loop_inv_def intro: sched_inv_handles)
  have "issued (handles (snd ex_created)) (fst ex_created)" by code_simp
  then show "issued (handles (snd ex_created)) (fst ex_created)" .
qed

text \<open>Time 10: the timer is due.\<close>

definition ex_later :: "unit \<Rightarrow> int \<times> unit" where
  "ex_later w = (10, w)"

abbreviation "ex_timer_at \<equiv> bio_resolve_handle (fst ex_created) BIO_TIMER_HANDLE (handles (snd ex_created))"

lemma ex_timer_round:
  "\<exists>s'. timer_round ex_later (\<lambda>_. Inr) (\<lambda>_ _. Inr) ex_self ex_timer_at (snd ex_created) = Inr (False, s')"
proof -
  have "case timer_round ex_later (\<lambda>_. Inr) (\<lambda>_ _. Inr) ex_self ex_timer_at (snd ex_created) of Inr (b, s') \<Rightarrow> \<not> b | Inl e \<Rightarrow> False"
    by code_simp
  then show ?thesis by (auto simp: case_Inr_iff)
qed

text \<open>
  A pipe as the outside world: a write takes at most two bytes, a read delivers at
  most three. A buffer of four bytes on each side of it.
\<close>

definition ex_io :: "byte list io_calls" where
  "ex_io = \<lparr>call_read = (\<lambda>f c n e s. Inr (take (min 3 n) (world s), e, s\<lparr>world := drop (min 3 n) (world s)\<rparr>)),
    call_write = (\<lambda>f c bs e s. Inr (min 2 (length bs), e, s\<lparr>world := world s @ take 2 bs\<rparr>)),
    call_flush = (\<lambda>f c e s. Inr (True, e, s))\<rparr>"

definition ex_pipe :: "byte list \<Rightarrow> byte list bio_ctx" where
  "ex_pipe w = init_core (\<lambda>w. (5, w)) bump_allocator 0 w"

definition ex_writer :: "bio_handle \<times> byte list bio_ctx" where
  "ex_writer = (case bio_make_file_write_buffer BIO_INVALID_HANDLE 4 True (ex_pipe []) of Inr x \<Rightarrow> x | Inl e \<Rightarrow> (BIO_INVALID_HANDLE, ex_pipe []))"

definition ex_reader :: "bio_handle \<times> byte list bio_ctx" where
  "ex_reader = (case bio_make_file_read_buffer BIO_INVALID_HANDLE 4 (ex_pipe [1, 2, 3, 4, 5, 6]) of Inr x \<Rightarrow> x | Inl e \<Rightarrow> (BIO_INVALID_HANDLE, ex_pipe []))"

lemma ex_pipe_inv: "buffer_inv (ex_pipe w)"
proof -
  have "io_buffers (rest (ex_pipe w)) = []" by (simp add: ex_pipe_def init_core_def bio_scheduler_init_def bio_timer_init_def zero_ctx_def)
  then show ?thesis by (auto simp: buffer_inv_def ex_pipe_def init_fields bump_allocator_ok init_inv owned_def intro: named_empty)
qed

lemma ex_io_calls: "reads_from True ex_io opt p h id" "writes_to ex_io opt p h id"
  by (auto simp: reads_from_def writes_to_def ex_io_def keeps_buffer_def min_def)

lemma ex_writer_at:
  "\<exists>p b. buffer_at p (fst ex_writer) (snd ex_writer) b \<and> write_ok b \<and> unwritten b = [] \<and> world (snd ex_writer) = []"
proof -
  have "case bio_make_file_write_buffer BIO_INVALID_HANDLE 4 True (ex_pipe []) of Inr x \<Rightarrow> True | Inl e \<Rightarrow> False" by code_simp
  then have "bio_make_file_write_buffer BIO_INVALID_HANDLE 4 True (ex_pipe []) = Inr ex_writer" by (auto simp: ex_writer_def case_Inr_iff)
  note r = this
  have "world (ex_pipe []) = []" by (simp add: ex_pipe_def init_core_def bio_scheduler_init_def bio_timer_init_def zero_ctx_def)
  with safe_Inr [OF make_buffer_safe [OF ex_pipe_inv] r [unfolded bio_make_file_write_buffer_def]] show ?thesis
    by (auto simp: split_beta)
qed

lemma ex_reader_at:
  "\<exists>p b. buffer_at p (fst ex_reader) (snd ex_reader) b \<and> read_ok b \<and> unread b = [] \<and> 0 < buf_size (buf_options b) \<and> world (snd ex_reader) = [1, 2, 3, 4, 5, 6]"
proof -
  have "case bio_make_file_read_buffer BIO_INVALID_HANDLE 4 (ex_pipe [1, 2, 3, 4, 5, 6]) of Inr x \<Rightarrow> True | Inl e \<Rightarrow> False" by code_simp
  then have "bio_make_file_read_buffer BIO_INVALID_HANDLE 4 (ex_pipe [1, 2, 3, 4, 5, 6]) = Inr ex_reader" by (auto simp: ex_reader_def case_Inr_iff)
  note r = this
  have "world (ex_pipe [1, 2, 3, 4, 5, 6]) = [1, 2, 3, 4, 5, 6]" by (simp add: ex_pipe_def init_core_def bio_scheduler_init_def bio_timer_init_def zero_ctx_def)
  with safe_Inr [OF make_buffer_safe [OF ex_pipe_inv] r [unfolded bio_make_file_read_buffer_def]] show ?thesis
    by (simp add: split_beta) (elim exE conjE, intro exI conjI, assumption+, simp)
qed

text \<open>The steps of a call that does not have to wait, one after the other.\<close>

fun spsc_steps :: "nat \<Rightarrow> ('a spsc \<Rightarrow> 'a spsc outcome option) \<Rightarrow> 'a spsc \<Rightarrow> 'a spsc" where
  "spsc_steps 0 f s = s"
| "spsc_steps (Suc n) f s = (case f s of Some (Inr s') \<Rightarrow> spsc_steps n f s' | _ \<Rightarrow> s)"

lemma spsc_steps_reach:
  assumes "f = produce_step \<or> f = consume_step" "spsc_reach n s"
  shows "spsc_reach n (spsc_steps k f s)"
  using assms(2)
proof (induction k arbitrary: s)
  case (Suc k)
  have "spsc_reach n s'" if "f s = Some (Inr s')" for s'
    using assms(1) that reach_step [OF Suc.prems] by (auto intro: step_produce step_consume)
  with Suc show ?case by (simp split: option.split sum.split)
qed simp

text \<open>A queue of two slots: one item goes in and comes out.\<close>

definition ex_spsc :: "nat spsc" where
  "ex_spsc = spsc_steps 9 consume_step ((spsc_steps 9 produce_step ((spsc_start 2)\<lparr>producer := P_Load 7 True\<rparr>))\<lparr>consumer := C_Load True\<rparr>)"

lemma ex_spsc_reach: "spsc_reach 2 ex_spsc"
proof -
  let ?s = "spsc_steps 9 produce_step ((spsc_start 2)\<lparr>producer := P_Load 7 True\<rparr>) :: nat spsc"
  have c: "consumer ?s = C_Idle" by code_simp
  have "spsc_reach 2 ((spsc_start 2)\<lparr>producer := P_Load 7 True\<rparr> :: nat spsc)"
    by (rule reach_step [OF reach_start call_produce]) (simp add: spsc_start_def)
  from reach_step [OF spsc_steps_reach [OF _ this] call_consume [OF c]] show ?thesis
    unfolding ex_spsc_def by (intro spsc_steps_reach) simp_all
qed

lemma ex_spsc_consumed: "consumed ex_spsc = [7] \<and> produced ex_spsc = [7]"
  by code_simp

text \<open>The consumer fell asleep first; the producer has just published an item.\<close>

definition ex_asleep :: "nat spsc" where
  "ex_asleep = spsc_steps 4 produce_step ((spsc_steps 4 consume_step ((spsc_start 2)\<lparr>consumer := C_Load True\<rparr>))\<lparr>producer := P_Load 7 True\<rparr>)"

lemma ex_asleep_reach: "spsc_reach 2 ex_asleep"
proof -
  let ?s = "spsc_steps 4 consume_step ((spsc_start 2)\<lparr>consumer := C_Load True\<rparr>) :: nat spsc"
  have p: "producer ?s = P_Idle" by code_simp
  have "spsc_reach 2 ((spsc_start 2)\<lparr>consumer := C_Load True\<rparr> :: nat spsc)"
    by (rule reach_step [OF reach_start call_consume]) (simp add: spsc_start_def)
  from reach_step [OF spsc_steps_reach [OF _ this] call_produce [OF p]] show ?thesis
    unfolding ex_asleep_def by (intro spsc_steps_reach) simp_all
qed

lemma ex_asleep_state: "consumer ex_asleep = C_Asleep \<and> sleeping (can_consume (queue ex_asleep)) \<and> 0 < q_count (queue ex_asleep)"
  by code_simp

text \<open>
  A ring whose completion queue has three entries; the world is the list of
  completions and the number of free submission entries.
\<close>

type_synonym ex_ring_world = "io_uring_cqe list \<times> nat"

definition ex_uring :: "ex_ring_world uring" where
  "ex_uring = \<lparr>io_uring_get_sqe = (\<lambda>w. if snd w = 0 then None else Some (fst w, snd w - 1)),
    io_uring_prep = (\<lambda>op d w. w), io_uring_submit_and_get_events = id, io_uring_submit_and_wait = id,
    io_uring_submit_and_wait_timeout = (\<lambda>a b w. (True, 1, w)), cq_head = (\<lambda>w. 0),
    cq_entry = (\<lambda>k w. if unat k < length (take 3 (fst w)) then Some (fst w ! unat k) else None),
    io_uring_cq_advance = (\<lambda>n w. (drop (unat n) (take 3 (fst w)), snd w)),
    block_signals = id, block_all_signals = id, restore_signals = id, futex_wake = id, write_eventfd = (\<lambda>fd. id),
    clock_gettime = (\<lambda>w. (0, 0, w)), make_signalfd = (\<lambda>w. (3, w)), make_eventfd = (\<lambda>w. (4, w)), io_uring_queue_init = (\<lambda>n w. (0, w)),
    supports_bind = (\<lambda>w. True), supports_listen = (\<lambda>w. True), supports_futex_wait = (\<lambda>w. True), close_fd = (\<lambda>fd. id),
    io_uring_queue_exit = id, bind_syscall = (\<lambda>fd a n w. (0, 0, w)), listen_syscall = (\<lambda>fd n w. (0, 0, w))\<rparr>"

lemma ex_uring_ok: "uring_ok ex_uring (\<lambda>w. take 3 (fst w)) snd"
  by (auto simp: uring_ok_def ex_uring_def same_queues_def unat_of_nat)

definition ex_completion :: io_uring_cqe where
  "ex_completion = \<lparr>cqe_data = REQUEST 9, cqe_res = 2, cqe_flags = 0, cqe_bytes = [1, 2], cqe_stx_size = 0\<rparr>"

definition ex_request :: bio_io_req where
  "ex_request = \<lparr>req_signal = BIO_INVALID_HANDLE, req_res = 0, req_flags = 0, req_buf = [], req_stx_size = 0\<rparr>"

definition ex_ring_ctx :: "ex_ring_world bio_ctx" where
  "ex_ring_ctx = set_io_reqs [(9, ex_request)] (init_core (\<lambda>w. (5, w)) bump_allocator 0
     ([ex_completion, ex_completion\<lparr>cqe_data := BIO_SIGNAL_POLL_DATA\<rparr>], 1))"

lemma ex_ring_inv: "io_inv [] None ex_ring_ctx"
proof -
  let ?s = "init_core (\<lambda>w. (5, w)) bump_allocator 0 ([ex_completion, ex_completion\<lparr>cqe_data := BIO_SIGNAL_POLL_DATA\<rparr>], 1) :: ex_ring_world bio_ctx"
  have "idle_inv ?s" by (rule init_idle(1) [OF bump_allocator_ok])
  then have "loop_inv [] None ?s" by (simp add: idle_inv_def)
  moreover have "exit_handlers (rest ?s) = None" by (simp add: init_core_def bio_scheduler_init_def bio_timer_init_def zero_ctx_def)
  ultimately show ?thesis by (auto simp: io_inv_def ex_ring_ctx_def ex_request_def exit_ok_def)
qed

lemma ex_ring_world: "world ex_ring_ctx = ([ex_completion, ex_completion\<lparr>cqe_data := BIO_SIGNAL_POLL_DATA\<rparr>], 1)"
  by (simp add: ex_ring_ctx_def init_core_def bio_scheduler_init_def bio_timer_init_def zero_ctx_def)

text \<open>A ring with unlimited entries that does nothing on its own, and an open seekable file.\<close>

definition ex_quiet :: "unit uring" where
  "ex_quiet = \<lparr>io_uring_get_sqe = Some, io_uring_prep = (\<lambda>op d w. w), io_uring_submit_and_get_events = id, io_uring_submit_and_wait = id,
    io_uring_submit_and_wait_timeout = (\<lambda>a b w. (False, 1, w)), cq_head = (\<lambda>w. 0), cq_entry = (\<lambda>k w. None), io_uring_cq_advance = (\<lambda>n w. w),
    block_signals = id, block_all_signals = id, restore_signals = id, futex_wake = id, write_eventfd = (\<lambda>fd. id),
    clock_gettime = (\<lambda>w. (0, 0, w)), make_signalfd = (\<lambda>w. (3, w)), make_eventfd = (\<lambda>w. (4, w)), io_uring_queue_init = (\<lambda>n w. (0, w)),
    supports_bind = (\<lambda>w. True), supports_listen = (\<lambda>w. True), supports_futex_wait = (\<lambda>w. True), close_fd = (\<lambda>fd. id),
    io_uring_queue_exit = id, bind_syscall = (\<lambda>fd a n w. (0, 0, w)), listen_syscall = (\<lambda>fd n w. (0, 0, w))\<rparr>"

definition ex_opened_file :: "bio_handle \<times> unit bio_ctx" where
  "ex_opened_file = (case bio_file_from_fd 5 0 True ex_running of Inr x \<Rightarrow> x | Inl e \<Rightarrow> (BIO_INVALID_HANDLE, ex_running))"

abbreviation "ex_file \<equiv> fst ex_opened_file"
abbreviation "ex_file_ctx \<equiv> snd ex_opened_file"
abbreviation "ex_file_at \<equiv> bio_resolve_handle ex_file BIO_FILE_HANDLE (handles ex_file_ctx)"

lemma ex_file_open: "file_at ex_file_at ex_file ex_file_ctx \<lparr>file_fd = 5, file_offset = 0, file_seekable = True\<rparr>"
  by code_simp

text \<open>While the coroutine waits, the kernel answers its request with two bytes.\<close>

definition ex_answer :: "bio_io_req \<Rightarrow> bio_io_req" where
  "ex_answer r = r\<lparr>req_res := 2, req_buf := [7, 8]\<rparr>"

definition ex_served :: "addr \<Rightarrow> unit bio_ctx \<Rightarrow> unit bio_ctx outcome" where
  "ex_served self s = Inr (set_io_reqs (map (\<lambda>(p, r). (p, ex_answer r)) (io_reqs (rest s))) s)"

text \<open>The same, but another coroutine closes the file before the reader runs again.\<close>

definition ex_closing :: "addr \<Rightarrow> unit bio_ctx \<Rightarrow> unit bio_ctx outcome" where
  "ex_closing self s = rbind (ex_served self s) (free_file ex_file)"

lemma ex_quiet_io: "do_io ex_quiet mco_yield self op s = lift (rbind (op s) (\<lambda>op. bio_submit_io_req ex_quiet mco_yield self op s))"
proof -
  have "bio_acquire_io_req ex_quiet s = ret s" by (simp add: bio_acquire_io_req_def ring_run_simps(1) ex_quiet_def)
  then show ?thesis by (simp add: do_io_def)
qed

definition ex_request_of :: "(addr \<Rightarrow> unit bio_ctx \<Rightarrow> unit bio_ctx outcome) \<Rightarrow> (bio_io_req \<times> unit bio_ctx) outcome" where
  "ex_request_of mco_yield = bio_submit_io_req ex_quiet mco_yield ex_self (OP_READ 5 2 0) ex_file_ctx"

lemma ex_read_io: "do_io ex_quiet mco_yield ex_self (read_req ex_file_at 2) ex_file_ctx = lift (ex_request_of mco_yield)"
proof -
  have "read_req ex_file_at 2 ex_file_ctx = Inr (OP_READ 5 2 0)" using ex_file_open by (simp add: file_at_def clamp_size_def INT32_MAX_def)
  then show ?thesis by (simp add: ex_quiet_io ex_request_of_def)
qed

lemma ex_read_served: "\<exists>req s1. ex_request_of ex_served = Inr (req, s1) \<and> req_res req = 2 \<and> req_buf req = [7, 8]
    \<and> map_of (file_impls (rest s1)) ex_file_at = Some \<lparr>file_fd = 5, file_offset = 0, file_seekable = True\<rparr>"
proof -
  have "case ex_request_of ex_served of Inr (req, s1) \<Rightarrow> req_res req = 2 \<and> req_buf req = [7, 8]
    \<and> map_of (file_impls (rest s1)) ex_file_at = Some \<lparr>file_fd = 5, file_offset = 0, file_seekable = True\<rparr> | Inl e \<Rightarrow> False" by code_simp
  then show ?thesis by (auto simp: case_Inr_iff)
qed

lemma ex_read_closed: "\<exists>req s1. ex_request_of ex_closing = Inr (req, s1) \<and> map_of (file_impls (rest s1)) ex_file_at = None"
proof -
  have "case ex_request_of ex_closing of Inr (req, s1) \<Rightarrow> map_of (file_impls (rest s1)) ex_file_at = None | Inl e \<Rightarrow> False" by code_simp
  then show ?thesis by (auto simp: case_Inr_iff)
qed

text \<open>The error of the functions on files for a handle that is not one of a live file.\<close>

abbreviation invalid_argument :: "int \<Rightarrow> bio_error \<Rightarrow> error_ptr" where
  "invalid_argument line e \<equiv> bio_set_core_error (''src/linux/file.c'', line) (Some e) BIO_ERROR_INVALID_ARGUMENT"

text \<open>
  A caller that has made its two signals, and whose first one was raised; the
  caller need not be suspended again.
\<close>

definition ex_call :: "bio_handle \<times> bio_handle \<times> unit bio_ctx" where
  "ex_call = (case bio_make_signal ex_self ex_mail of
     Inr (h1, s) \<Rightarrow> (case bio_make_signal ex_self s of
         Inr (h2, s) \<Rightarrow> (case bio_raise_signal h1 s of Inr (b, s) \<Rightarrow> (h1, h2, s) | Inl e \<Rightarrow> (h1, h2, s))
       | Inl e \<Rightarrow> (h1, h1, s))
   | Inl e \<Rightarrow> (BIO_INVALID_HANDLE, BIO_INVALID_HANDLE, ex_mail))"

abbreviation "ex_ack \<equiv> fst ex_call"
abbreviation "ex_mon \<equiv> fst (snd ex_call)"
abbreviation "ex_caller \<equiv> snd (snd ex_call)"

definition ex_stay :: "addr \<Rightarrow> unit bio_ctx \<Rightarrow> unit bio_ctx outcome" where
  "ex_stay self s = Inl SignedOverflow"

lemma ex_stay_ok: "yield_ok ex_stay self mailbox n"
  by (simp add: yield_ok_def ex_stay_def)

lemma ex_call_inv:
  "call_inv ex_self ex_mailbox 1 ex_caller" "issued (handles ex_caller) ex_mailbox" "issued (handles ex_caller) ex_ack"
  "issued (handles ex_caller) ex_mon" "mine ex_self ex_ack ex_caller" "mine ex_self ex_mon ex_caller"
proof -
  have c0: "call_inv ex_self ex_mailbox 1 ex_mail" using ex_mail_inv(1,2) unfolding call_inv_def by fastforce
  have r: "case bio_make_signal ex_self ex_mail of Inr (h1, s) \<Rightarrow> (case bio_make_signal ex_self s of
      Inr (h2, s) \<Rightarrow> (case bio_raise_signal h1 s of Inr (b, s) \<Rightarrow> True | Inl e \<Rightarrow> False) | Inl e \<Rightarrow> False) | Inl e \<Rightarrow> False"
    by code_simp
  then obtain h1 s1 where a: "bio_make_signal ex_self ex_mail = Inr (h1, s1)" by (auto simp: case_Inr_iff)
  with r obtain h2 s2 where b: "bio_make_signal ex_self s1 = Inr (h2, s2)" by (auto simp: case_Inr_iff)
  with r a obtain x s3 where c: "bio_raise_signal h1 s2 = Inr (x, s3)" by (auto simp: case_Inr_iff)
  have e: "ex_call = (h1, h2, s3)" by (simp add: ex_call_def a b c)
  have 1: "call_inv ex_self ex_mailbox 1 s1" "sig_kept ex_mail s1" "mine ex_self h1 s1" "issued (handles s1) h1"
    using svc_make_signal [OF c0] by (simp_all add: a)
  have 2: "call_inv ex_self ex_mailbox 1 s2" "sig_kept s1 s2" "mine ex_self h2 s2" "issued (handles s2) h2"
    using svc_make_signal [OF 1(1)] by (simp_all add: b)
  have 3: "call_inv ex_self ex_mailbox 1 s3" "sig_kept s2 s3"
  proof -
    have h: "issued (handles s2) h1" by (rule sig_keptD(1) [OF 2(2) 1(4)])
    have i: "sched_inv cur (Some ex_self) s2 \<Longrightarrow> sched_inv cur (Some ex_self) s3 \<and> sched_frame s2 s3 \<and> sig_kept s2 s3" for cur
      using raise_cleanup [OF _ h] raise_kept [OF _ emptied_simps(1) h] c by fastforce
    obtain cur where "sched_inv cur (Some ex_self) s2" using 2(1) by (auto simp: call_inv_def)
    with i show "sig_kept s2 s3" "call_inv ex_self ex_mailbox 1 s3" using call_inv_frame [OF 2(1), of s3] by blast+
  qed
  show "call_inv ex_self ex_mailbox 1 ex_caller" "issued (handles ex_caller) ex_mailbox" "issued (handles ex_caller) ex_ack"
    "issued (handles ex_caller) ex_mon" "mine ex_self ex_ack ex_caller" "mine ex_self ex_mon ex_caller"
    unfolding e fst_conv snd_conv
    using 3 1 2 ex_mail_inv(3) sig_keptD(1) [OF 1(2)] sig_keptD(1) [OF 2(2)] sig_keptD(1) [OF 3(2)] sig_keptD(2) [OF 2(2)] sig_keptD(2) [OF 3(2)]
    by blast+
qed

lemma ex_call_runs: "\<exists>s'. service_await ex_stay ex_self ex_ack ex_mon BIO_INVALID_HANDLE ex_mailbox [9] ex_caller = Some (Inr (BIO_CALL_OK, s'))"
proof -
  have "\<not> (bio_handle_compare BIO_INVALID_HANDLE BIO_INVALID_HANDLE \<noteq> 0 \<and> bio_check_signal BIO_INVALID_HANDLE ex_caller)
      \<and> \<not> bio_check_signal ex_mon ex_caller" by code_simp
  note c = this
  have "case bio__mailbox_send ex_mailbox [9] ex_caller of Inr (ok, s1) \<Rightarrow> ok \<and> (case bio_wait_for_signals ex_stay ex_self [ex_ack, ex_mon, BIO_INVALID_HANDLE] False s1 of
      Inr s2 \<Rightarrow> service_status ex_ack BIO_INVALID_HANDLE s2 = BIO_CALL_OK | Inl e \<Rightarrow> False) | Inl e \<Rightarrow> False" by code_simp
  then obtain s1 s2 where "bio__mailbox_send ex_mailbox [9] ex_caller = Inr (True, s1)"
      "bio_wait_for_signals ex_stay ex_self [ex_ack, ex_mon, BIO_INVALID_HANDLE] False s1 = Inr s2" "service_status ex_ack BIO_INVALID_HANDLE s2 = BIO_CALL_OK"
    by (auto simp: case_Inr_iff)
  then show ?thesis unfolding service_await_def by (subst service_send.simps) (use c in \<open>simp add: ret_def\<close>)
qed

text \<open>A pool of two workers, and a job that was not handed to one yet.\<close>

definition ex_pool :: "unit bio_ctx" where
  "ex_pool = ex_running\<lparr>rest := (rest ex_running)\<lparr>thread_pool := [new_worker 2 4, new_worker 2 4], num_running_async_jobs := 0,
     worker_msgs := [(50, new_job 100 0 BIO_INVALID_HANDLE)]\<rparr>\<rparr>"

lemma ex_pool_init: "\<exists>s. bio_thread_init id id 2 2 ex_running = Inr s \<and> thread_pool (rest s) = thread_pool (rest ex_pool)"
proof -
  have "case bio_thread_init id id 2 2 ex_running of Inr s \<Rightarrow> thread_pool (rest s) = thread_pool (rest ex_pool) | Inl e \<Rightarrow> False"
    by code_simp
  then show ?thesis by (auto simp: case_Inr_iff)
qed

lemma ex_pool_inv: "sched_inv [] (Some ex_self) ex_pool" "pool_inv {50} ex_pool" "thread_pool (rest ex_pool) \<noteq> []"
proof -
  show "sched_inv [] (Some ex_self) ex_pool" using ex_running_inv by (simp add: loop_inv_def ex_pool_def)
  show "pool_inv {50} ex_pool"
    by (simp add: ex_pool_def pool_inv_def all_jobs_def in_flight_def held_def worker_ok_def keeps_running_def new_worker_def new_job_def)
  show "thread_pool (rest ex_pool) \<noteq> []" by (simp add: ex_pool_def)
qed

text \<open>The start with all options left at zero.\<close>

lemma ex_started: "\<exists>s. bio_init ex_quiet ex_clock bump_allocator (Some zero_options) () = Some (Inr s)"
proof -
  have "case bio_init ex_quiet ex_clock bump_allocator (Some zero_options) () of Some (Inr s) \<Rightarrow> True | _ \<Rightarrow> False" by code_simp
  then show ?thesis by (auto split: option.splits sum.splits)
qed

section \<open>FreeBSD\<close>

text \<open>A kernel that accepts everything and answers a control block with two bytes.\<close>

definition ex_bsd :: "unit bsd" where
  "ex_bsd = \<lparr>kqueuex = (\<lambda>v. (3, v)), kevent_change = (\<lambda>_ v. v), kevent_wait = (\<lambda>_ _ _ v. (0, [], v)), bsd_close = (\<lambda>_ v. (0, 0, v)),
    bsd_clock_gettime = (\<lambda>v. (0, 0, v)), mask_all_signals = (\<lambda>v. v), unmask_signals = (\<lambda>v. v), ignore_exit_signals = (\<lambda>v. v),
    restore_exit_signals = (\<lambda>v. v), bsd_socket = (\<lambda>_ _ v. (4, 0, v)), bsd_bind = (\<lambda>_ _ _ v. (0, 0, v)), bsd_listen = (\<lambda>_ _ v. (0, 0, v)),
    bsd_accept = (\<lambda>_ v. (5, 0, v)), bsd_connect = (\<lambda>_ _ _ v. (0, 0, v)), bsd_send = (\<lambda>_ bs v. (int (length bs), 0, v)),
    bsd_recv = (\<lambda>_ _ v. (0, 0, [], v)), aio_write = (\<lambda>_ _ v. (0, 0, v)), aio_read = (\<lambda>_ _ v. (0, 0, v)), aio_fsync = (\<lambda>_ _ v. (0, 0, v)),
    aio_error = (\<lambda>_ v. (0, v)), aio_return = (\<lambda>_ v. (2, 0, [7, 8], v)), aio_cancel = (\<lambda>_ _ v. (3, v)), bsd_open = (\<lambda>_ _ v. (5, 0, v)),
    bsd_lseek = (\<lambda>_ _ v. (0, v)), bsd_write = (\<lambda>_ bs v. (int (length bs), 0, v)), bsd_read = (\<lambda>_ _ v. (0, 0, [], v)),
    bsd_fsync = (\<lambda>_ v. (0, 0, v)), bsd_fstat = (\<lambda>_ v. (0, 0, 0, v))\<rparr>"

definition ex_freebsd :: "unit freebsd" where
  "ex_freebsd = \<lparr>fb_kqueue = 3, fb_batch_size = 4, fb_in_events = None, fb_signal_monitored = False, fb_reqs = [], fb_events = [],
    fb_sockets = [], fb_files = [], fb_aiocbs = [], fb_fopen_args = [], fb_io_args = [], fb_fstat_args = [], fb_system = ()\<rparr>"

definition ex_bsd_spawned :: "unit bsd_ctx" where
  "ex_bsd_spawned =
    (let s = init_core (\<lambda>w. (5, w)) bump_allocator 0 ex_freebsd in
     case bio_spawn_ex (\<lambda>w. (5, w)) (\<lambda>c w. w) 100 0 False s of Inr (h, s) \<Rightarrow> swap_ready s | Inl e \<Rightarrow> s)"

definition ex_bsd_running :: "unit bsd_ctx" where
  "ex_bsd_running = (case map_of (coros ex_bsd_spawned) ex_self of
     Some k \<Rightarrow> ex_bsd_spawned\<lparr>coros := put ex_self (k\<lparr>coro_state := BIO_CORO_RUNNING, num_blocking_signals := 0\<rparr>) (coros ex_bsd_spawned)\<rparr>
   | None \<Rightarrow> ex_bsd_spawned)"

definition ex_bsd_opened :: "bio_handle \<times> unit bsd_ctx" where
  "ex_bsd_opened = (case bio_file_from_fd_freebsd 5 10 True ex_bsd_running of Inr x \<Rightarrow> x | Inl e \<Rightarrow> (BIO_INVALID_HANDLE, ex_bsd_running))"

abbreviation "ex_bsd_file \<equiv> fst ex_bsd_opened"
abbreviation "ex_bsd_ctx \<equiv> snd ex_bsd_opened"
abbreviation "ex_bsd_at \<equiv> bio_resolve_handle ex_bsd_file BIO_FILE_HANDLE (handles ex_bsd_ctx)"

definition ex_bsd_impl :: bio_file_impl_freebsd where
  "ex_bsd_impl = \<lparr>bfile_fd = 5, bfile_offset = 10, bfile_seekable = True, bfile_aio_support = BIO_AIO_SUPPORT_UNKNOWN, bfile_aio = NULL\<rparr>"

lemma ex_bsd_open: "bsd_file_at ex_bsd_at ex_bsd_file ex_bsd_ctx ex_bsd_impl"
  by code_simp

text \<open>While the coroutine waits, another one may close the file, whose request is already done.\<close>

definition ex_bsd_closing :: "addr \<Rightarrow> unit bsd_ctx \<Rightarrow> unit bsd_ctx outcome" where
  "ex_bsd_closing self s = rbind (bio_fclose_freebsd ex_bsd ex_bsd_file None s) (\<lambda>(ok, e, s). Inr s)"

definition ex_aio_request :: "((int + addr \<times> addr) \<times> unit bsd_ctx) outcome" where
  "ex_aio_request = aio_start (aio_write ex_bsd) ex_self ex_bsd_at (write_cb [1, 2]) ex_bsd_ctx"

definition ex_aio_waited :: "(addr \<Rightarrow> unit bsd_ctx \<Rightarrow> unit bsd_ctx outcome) \<Rightarrow> (addr \<times> addr \<times> unit bsd_ctx) outcome" where
  "ex_aio_waited mco_yield = rbind ex_aio_request (\<lambda>(start, s1). case start of Inl n \<Rightarrow> Inl DanglingPointer
     | Inr (r, c) \<Rightarrow> rbind (bio_wait_for_io mco_yield ex_self r s1) (\<lambda>s2. Inr (r, c, s2)))"

lemma ex_aio_waitedD:
  assumes "ex_aio_waited mco_yield = Inr (r, c, s2)" "map_of (fb_reqs (world s2)) r = Some req" "\<not> kreq_cancelled req" "aio_answers ex_bsd c n bytes s2"
  shows "aio_answered ex_bsd (aio_write ex_bsd) (write_cb [1, 2]) mco_yield ex_self ex_bsd_at n bytes ex_bsd_ctx s2"
proof -
  obtain start s1 where "ex_aio_request = Inr (start, s1)" using assms(1) by (auto simp: ex_aio_waited_def rbind_eq_Inr)
  with assms show ?thesis
    by (cases start) (auto simp: aio_answered_def ex_aio_waited_def ex_aio_request_def rbind_eq_Inr)
qed

lemma ex_aio_waited_open: "\<exists>r c s2 req. ex_aio_waited (\<lambda>_. Inr) = Inr (r, c, s2) \<and> map_of (fb_reqs (world s2)) r = Some req \<and> \<not> kreq_cancelled req
    \<and> aio_answers ex_bsd c 2 [7, 8] s2 \<and> map_of (fb_files (world s2)) NULL = None \<and> bsd_file_at ex_bsd_at ex_bsd_file s2 (ex_bsd_impl\<lparr>bfile_aio := c\<rparr>)"
proof -
  have "case ex_aio_waited (\<lambda>_. Inr) of Inr (r, c, s2) \<Rightarrow> (case map_of (fb_reqs (world s2)) r of Some req \<Rightarrow> \<not> kreq_cancelled req | None \<Rightarrow> False)
    \<and> aio_answers ex_bsd c 2 [7, 8] s2 \<and> map_of (fb_files (world s2)) NULL = None \<and> bsd_file_at ex_bsd_at ex_bsd_file s2 (ex_bsd_impl\<lparr>bfile_aio := c\<rparr>)
    | Inl e \<Rightarrow> False" by code_simp
  then show ?thesis by (auto simp: case_Inr_iff split: option.splits)
qed

lemma ex_aio_waited_closed: "\<exists>r c s2 req. ex_aio_waited ex_bsd_closing = Inr (r, c, s2) \<and> map_of (fb_reqs (world s2)) r = Some req \<and> \<not> kreq_cancelled req
    \<and> aio_answers ex_bsd c 2 [7, 8] s2 \<and> map_of (fb_files (world s2)) NULL = None \<and> bio_resolve_handle ex_bsd_file BIO_FILE_HANDLE (handles s2) = NULL"
proof -
  have "case ex_aio_waited ex_bsd_closing of Inr (r, c, s2) \<Rightarrow> (case map_of (fb_reqs (world s2)) r of Some req \<Rightarrow> \<not> kreq_cancelled req | None \<Rightarrow> False)
    \<and> aio_answers ex_bsd c 2 [7, 8] s2 \<and> map_of (fb_files (world s2)) NULL = None \<and> bio_resolve_handle ex_bsd_file BIO_FILE_HANDLE (handles s2) = NULL
    | Inl e \<Rightarrow> False" by code_simp
  then show ?thesis by (auto simp: case_Inr_iff split: option.splits)
qed

text \<open>A queue with the events of an exit signal, of a live and of a cancelled request.\<close>

definition ex_event :: "kev_udata \<Rightarrow> kevent" where
  "ex_event u = \<lparr>kev_ident = 2, kev_filter = EVFILT_READ, kev_flags = EV_ADD, kev_fflags = 0, kev_data = 0, kev_udata = u\<rparr>"

definition ex_kreq :: "bool \<Rightarrow> bio_io_req_freebsd" where
  "ex_kreq cancelled = \<lparr>kreq_signal = BIO_INVALID_HANDLE, kreq_result = NULL, kreq_cancelled = cancelled\<rparr>"

definition ex_queued :: "unit bsd_ctx" where
  "ex_queued = on_fb (\<lambda>w. w\<lparr>fb_reqs := [(50, ex_kreq False), (60, ex_kreq True)],
     fb_in_events := bio_array_push (bio_array_push (bio_array_push None (ex_event (IO_REQ 60))) (ex_event SIGNAL_POLL_DATA)) (ex_event (IO_REQ 50))\<rparr>) ex_bsd_running"

lemma ex_queued_events:
  "array_inv (fb_in_events (world ex_queued))"
  "array_list (fb_in_events (world ex_queued)) = [ex_event (IO_REQ 60), ex_event SIGNAL_POLL_DATA, ex_event (IO_REQ 50)]"
  "fb_reqs (world ex_queued) = [(50, ex_kreq False), (60, ex_kreq True)]"
  by (simp_all add: ex_queued_def array_push_list array_push_inv)

lemma ex_queued_inv: "events_inv ex_queued"
  by (simp add: events_inv_def ex_queued_events known_event_def ex_event_def)

text \<open>An open socket whose pending writer is \<open>w\<close>.\<close>

definition ex_bsd_socket_opened :: "bio_handle \<times> unit bsd_ctx" where
  "ex_bsd_socket_opened = (case bio_socket_from_fd_freebsd 5 ex_bsd_running of Inr x \<Rightarrow> x | Inl e \<Rightarrow> (BIO_INVALID_HANDLE, ex_bsd_running))"

abbreviation "ex_bsd_socket \<equiv> fst ex_bsd_socket_opened"

definition ex_socket_ctx :: "addr \<Rightarrow> unit bsd_ctx" where
  "ex_socket_ctx w = on_fb (\<lambda>fb. fb\<lparr>fb_sockets := map (\<lambda>(p, impl). (p, impl\<lparr>bsock_write := w\<rparr>)) (fb_sockets fb)\<rparr>) (snd ex_bsd_socket_opened)"

lemma ex_socket_open:
  "\<exists>p ht. \<forall>w. bio_close_handle ex_bsd_socket BIO_SOCKET_HANDLE (handles (ex_socket_ctx w)) = Inr (p, ht) \<and> p \<noteq> NULL
     \<and> map_of (fb_sockets (world (ex_socket_ctx w))) p = Some \<lparr>bsock_fd = 5, bsock_read = NULL, bsock_write = w\<rparr>
     \<and> map_of (fb_events (world (ex_socket_ctx w))) NULL = None"
proof -
  have "case bio_close_handle ex_bsd_socket BIO_SOCKET_HANDLE (handles (snd ex_bsd_socket_opened)) of
      Inr (p, ht) \<Rightarrow> p \<noteq> NULL \<and> map_of (fb_sockets (world (snd ex_bsd_socket_opened))) p = Some \<lparr>bsock_fd = 5, bsock_read = NULL, bsock_write = NULL\<rparr>
        \<and> map_of (fb_events (world (snd ex_bsd_socket_opened))) NULL = None
    | Inl e \<Rightarrow> False" by code_simp
  then show ?thesis by (auto simp: case_Inr_iff ex_socket_ctx_def map_of_map)
qed

end
