(* ===== verification/Spec2Isabelle.thy ===== *)
theory Spec2Isabelle
  imports Examples
begin

text \<open>
  \<^bold>\<open>bio\<close> is a C library for cooperative concurrency: coroutines that wait for
  signals, timers, mailboxes and services between them, a thread pool for blocking
  jobs, files, sockets, buffers and logging on top of a platform layer. This
  development models the core and the Linux and FreeBSD platform layers and proves the
  properties C1 to C40 below. Every theorem is about definitions that translate
  the C functions of the same name.

  \<^bold>\<open>How the code is modelled.\<close> The global \<open>bio_ctx\<close> is the record of theory \<open>Context\<close>;
  every function takes it and returns it. Objects on the heap live in one store
  per struct, keyed by address; freeing an object removes it, so that a use after
  free is visible. The result of a function is \<open>Inl DanglingPointer\<close> when it
  touches memory that is not there, \<open>Inl SignedOverflow\<close> when a signed counter
  leaves its range, and \<open>Inr\<close> of the result otherwise (theory \<open>Prelude\<close>); \<open>safe m Q\<close>
  says that \<open>m\<close> is not the first and satisfies \<open>Q\<close> unless it is the second. Code that
  waits in a loop has a further layer, \<open>None\<close> for \<open>does not return\<close> (theory \<open>Running\<close>).
  Unsigned integers are words, signed ones are \<open>int\<close> with explicit range checks. A
  variable on a stack whose address is given away lives in a store until its
  function returns. Function pointers are addresses; \<open>self\<close> is the running coroutine,
  \<open>NULL\<close> outside of one. Error out-parameters are passed and returned.

  \<^bold>\<open>Parameters.\<close> Code that is not part of the library is a parameter: minicoro (\<open>mco_resume\<close>,
  \<open>mco_yield\<close>, \<open>mco_create\<close>, \<open>mco_destroy\<close>), the allocation function, the clock, the application's
  functions and callbacks, liburing and the kernel (records \<open>uring\<close> of theory \<open>Uring\<close> and \<open>bsd\<close> of theory \<open>FreeBsd\<close>), and
  what a format string expands to. Their hidden state is the field \<open>world\<close>. What the code
  relies on is stated with names: \<open>allocator_ok\<close> (fresh, non-null addresses), \<open>env_ok\<close> (whatever
  runs between two steps of the loop uses the library through its functions),
  \<open>yield_ok\<close>, \<open>keeps_timer\<close>, \<open>reads_from\<close>, \<open>writes_to\<close>, \<open>uring_ok\<close>. A function that may suspend the
  coroutine calls \<open>mco_yield\<close>, after which the whole context may have changed.

  \<^bold>\<open>Theories and code.\<close>
  \<^item> \<open>Prelude\<close>, \<open>Running\<close>: outcomes, stores, ranges. \<open>Pow2\<close>: \<open>bio_next_pow2\<close> of \<open>src/src/internal.h\<close>.
  \<^item> \<open>BioArray\<close> (\<open>src/src/array.c\<close>), \<open>IntrusiveList\<close> (the list macros of \<open>internal.h\<close> on a store of
    links). Elsewhere an intrusive list is the list of the addresses of its items, which
    C28 justifies.
  \<^item> \<open>HandleTable\<close> (\<open>src/src/handle.c\<close>), \<open>Objects\<close>, \<open>Owned\<close>: handles with generations; how handles,
    objects and lists hang together. The table is used through the locale \<open>handle_map\<close>.
  \<^item> \<open>Context\<close>: the structs of \<open>internal.h\<close> and of the components, \<open>bio_ctx\<close>, \<open>bio_malloc\<close>.
  \<^item> \<open>Signal\<close>, \<open>Monitor\<close>, \<open>Waiting\<close>, \<open>WaitProtocol\<close>, \<open>Scheduler\<close>, \<open>EventLoop\<close>, \<open>Cls\<close> (\<open>src/src/scheduler.c\<close>): signals,
    monitors, waiting, spawning, the loop and the end of a coroutine, coroutine-local
    storage. \<open>EventLoop\<close> has the invariant \<open>loop_inv\<close> and the sequences of API calls \<open>api_run\<close>.
  \<^item> \<open>TimerHeap\<close>, \<open>TimerQueue\<close>, \<open>Timers\<close> (\<open>src/src/timer.c\<close>): the binary heap (refined to a multiset
    through the locale \<open>timed_queue\<close>), delayed signals, timer objects.
  \<^item> \<open>Mailbox\<close> (\<open>src/src/mailbox.c\<close>): the ring with wrapping counters (locale \<open>bounded_queue\<close>) and the
    functions on mailboxes. \<open>Service\<close> (\<open>src/src/service.c\<close>, \<open>service.h\<close>): calls and notifications.
  \<^item> \<open>Spscq\<close> (\<open>src/src/thread.c\<close>): the queue between two threads, every atomic access a step, all
    interleavings. \<open>ThreadPool\<close>: workers, submission and answers on queues that are lists,
    as C26 justifies.
  \<^item> \<open>Errors\<close>, \<open>Format\<close>, \<open>Exactly\<close>, \<open>Buffering\<close> (\<open>src/src/buffering.c\<close>), \<open>NetAddr\<close> (\<open>src/src/net.c\<close>), \<open>Exit\<close>
    (waiting for the end of the program in \<open>src/src/bio.c\<close>).
  \<^item> \<open>Uring\<close>, \<open>LinuxFile\<close>, \<open>LinuxNet\<close> (\<open>src/src/linux\<close>): requests and completions, files, sockets.
  \<^item> \<open>FreeBsd\<close>, \<open>FreeBsdFile\<close>, \<open>FreeBsdNet\<close> (\<open>src/src/freebsd\<close>): kernel events, files through requests of the
    kernel or the thread pool, sockets. Names that clash with the Linux layer have the
    suffix \<open>_freebsd\<close>; \<open>world\<close> is then the record \<open>freebsd\<close>, which holds the platform's part of
    \<open>bio_ctx\<close>, its objects and, in \<open>fb_system\<close>, the state of the operating system.
  \<^item> \<open>Logging\<close>, \<open>FileLogger\<close> (\<open>src/src/logging.c\<close>, \<open>src/src/logging/file.c\<close>).
  \<^item> \<open>Bio\<close>, \<open>Lifecycle\<close> (\<open>src/src/bio.c\<close>): \<open>bio_init\<close> and \<open>bio_terminate\<close>. \<open>Examples\<close>: concrete contexts.

  \<^bold>\<open>What is shown.\<close> C1 to C4: the loop and the API never touch freed memory and keep the
  invariant from \<open>bio_init\<close> to an empty end. C5 to C7: when waiting coroutines wake. C8,
  C9: handles are a map and dead handles stay dead. C11, C13, C21 to C23: timers.
  C14 to C18: mailboxes. C20: the exit signal. C24, C25: buffers are streams. C26, C27: the
  queue between threads is FIFO and loses no wake-up. C28, C29, C31, C32: lists, local
  storage, addresses, texts. C10, C12, C19, C30: sockets,
  kernel events and files on FreeBSD. C33 to C37: the ring and files. C38: services. C39: the pool.
  C40: logging. C7, C10, C18, C19, C23, C35, C37 and C40 show behaviour that the
  code does not mean to have.

  \<^bold>\<open>Bounds and fuel.\<close> Loops with a bound are structural or have a measure. \<open>drain_rounds\<close>,
  \<open>cleanup_rounds\<close> and the walk over a list take as fuel one more than the number of items, which
  is proved to be enough. Loops that may run for ever (\<open>bio_loop\<close>, the coroutine of a
  timer, retries after a full queue, \<open>ring_run\<close>, \<open>drain_events\<close>) are partial functions; C33 and C36 prove
  that theirs return.

  \<^bold>\<open>Not modelled.\<close> The Windows platform layer (I/O completion ports and the Windows API), samples and tests; the
  contents of stacks; \<open>bio_free\<close> of memory that is not an object of a store; weak memory
  orders (the atomics of the code are sequentially consistent). The time a step takes
  and real scheduling of threads are arbitrary.
\<close>

section \<open>The event loop\<close>





text \<open>
  C3. \<open>bio_init\<close> establishes the invariant: with an allocation function that returns
  fresh memory and logging options that fit together, a start that is not aborted
  touches no invalid memory, the loop can be entered at once, and the three
  standard files are open.
\<close>

theorem init_establishes_invariant:
  assumes "allocator_ok (case opt_allocator options of None \<Rightarrow> stdlib_realloc | Some f \<Rightarrow> f)" "log_options_ok options"
    and "bio_init U clk stdlib_realloc (Some options) w = Some r"
  shows "r \<noteq> Inl DanglingPointer \<and> (\<forall>s. r = Inr s \<longrightarrow> idle_inv s \<and> ready_inv s
    \<and> (\<exists>p f. file_at p (BIO_STDIN (rest s)) s f \<and> file_fd f = 0)
    \<and> (\<exists>p f. file_at p (BIO_STDOUT (rest s)) s f \<and> file_fd f = 1)
    \<and> (\<exists>p f. file_at p (BIO_STDERR (rest s)) s f \<and> file_fd f = 2))"
  using init_safe [OF assms(1,2), of U clk w] assms(3) by (auto simp: safe_iff started_def)

theorem init_establishes_invariant_witness:
  "\<exists>s. bio_init ex_quiet ex_clock bump_allocator (Some zero_options) () = Some (Inr s) \<and> idle_inv s \<and> ready_inv s"
proof -
  obtain s where r: "bio_init ex_quiet ex_clock bump_allocator (Some zero_options) () = Some (Inr s)" using ex_started by blast
  have "allocator_ok (case opt_allocator zero_options of None \<Rightarrow> bump_allocator | Some f \<Rightarrow> f)" "log_options_ok zero_options"
    by (simp_all add: zero_options_def bump_allocator_ok log_options_ok_def)
  from init_establishes_invariant [OF this r] r show ?thesis by blast
qed



section \<open>Waiting and waking\<close>

text \<open>
  C5. A coroutine that waits for all of some distinct signals becomes runnable
  exactly when the last one it blocks on has been raised, in whatever order the
  signals are raised and whatever other signals are raised in between.
\<close>

theorem wait_all_wakes_at_the_last:
  assumes "sched_inv cur (Some self) s" "\<forall>h \<in> set hs. issued (handles s) h" "distinct hs"
    and "wait_prepare self hs True s = Inr (True, s1)" "\<forall>h \<in> set rs. issued (handles s) h"
  shows "safe (raise_signals rs (suspend_coro self s1)) (\<lambda>s2.
    if {h \<in> set hs. blocks_on self s h} \<subseteq> set rs then runnable self s2 else \<exists>n. suspended self n s2)"
proof -
  note S = wait_suspended [OF assms(1,2,4)]
  have "wait_blockers self hs True s = int (card (awaited self (suspend_coro self s1)))"
    using wait_all_card [OF assms(1,2,4,3)] by (simp add: wait_blockers_def S(4))
  then have susp: "suspended self (int (card (awaited self (suspend_coro self s1)))) (suspend_coro self s1)" using S(2) by simp
  have "awaited self (suspend_coro self s1) \<noteq> {}" using wait_awaited_nonempty [OF assms(1,2,4)] S(4) by simp
  note W = raise_signals_wakes [OF S(1) emptied_simps(1) _ susp this, of rs]
  have nm: "signals_named R (suspend_coro self s1) = signals_named R s1" for R by (simp add: signals_named_def S(5))
  have "safe (raise_signals rs (suspend_coro self s1)) (\<lambda>s2. if awaited self s1 \<subseteq> signals_named (set rs) s1
      then runnable self s2 else \<exists>n. suspended self n s2)"
    by (rule safe_mono [OF W]) (use assms(5) S(3) in \<open>auto simp: S(4) nm split: if_splits\<close>)
  then show ?thesis unfolding awaited_named(1) [OF assms(1,2,4)] .
qed

theorem wait_all_wakes_at_the_last_witness:
  "safe (raise_signals [ex_h2, ex_h1] (suspend_coro ex_self (ex_waiting True [ex_h1, ex_h2]))) (runnable ex_self)
   \<and> safe (raise_signals [ex_h2] (suspend_coro ex_self (ex_waiting True [ex_h1, ex_h2]))) (\<lambda>s. \<exists>n. suspended ex_self n s)"
proof -
  have pre: "\<forall>h \<in> set [ex_h1, ex_h2]. issued (handles ex_two) h" "distinct [ex_h1, ex_h2]"
      "\<forall>h \<in> set [ex_h2, ex_h1]. issued (handles ex_two) h" "\<forall>h \<in> set [ex_h2]. issued (handles ex_two) h"
    using ex_signals_inv(3,4) ex_handles(1) by simp_all
  have cov: "({ex_h1, ex_h2} \<subseteq> set [ex_h2, ex_h1]) = True" "({ex_h1, ex_h2} \<subseteq> set [ex_h2]) = False"
    using ex_handles(1) by auto
  from wait_all_wakes_at_the_last [OF ex_signals_inv(1) pre(1,2) ex_wait_both pre(3)]
    wait_all_wakes_at_the_last [OF ex_signals_inv(1) pre(1,2) ex_wait_both pre(4)]
  show ?thesis unfolding ex_blockers cov if_True if_False by blast
qed

text \<open>
  C6. A coroutine that waits for any of some signals becomes runnable with the
  first of them that is raised, and stays suspended while none is.
\<close>

theorem wait_any_wakes_at_the_first:
  assumes "sched_inv cur (Some self) s" "\<forall>h \<in> set hs. issued (handles s) h"
    and "wait_prepare self hs False s = Inr (True, s1)" "\<forall>h \<in> set rs. issued (handles s) h"
  shows "safe (raise_signals rs (suspend_coro self s1)) (\<lambda>s2.
    if {h \<in> set hs. blocks_on self s h} \<inter> set rs = {} then suspended self 1 s2 else runnable self s2)"
proof -
  note S = wait_suspended [OF assms(1,2,3)]
  have susp: "suspended self 1 (suspend_coro self s1)" using S(2) by (simp add: wait_blockers_def)
  have nm: "signals_named R (suspend_coro self s1) = signals_named R s1" for R by (simp add: signals_named_def S(5))
  have "\<forall>h \<in> set rs. issued (handles (suspend_coro self s1)) h" using assms(4) S(3) by simp
  from raise_signals_any [OF S(1) emptied_simps(1) this susp]
  show ?thesis unfolding S(4) nm awaited_named(2) [OF assms(1,2,3)] .
qed

theorem wait_any_wakes_at_the_first_witness:
  "safe (raise_signals [ex_h2] (suspend_coro ex_self (ex_waiting False [ex_h1, ex_h2]))) (runnable ex_self)"
proof -
  have pre: "\<forall>h \<in> set [ex_h1, ex_h2]. issued (handles ex_two) h" "\<forall>h \<in> set [ex_h2]. issued (handles ex_two) h"
    using ex_signals_inv(3,4) by simp_all
  have cov: "({ex_h1, ex_h2} \<inter> set [ex_h2] = {}) = False" by auto
  from wait_any_wakes_at_the_first [OF ex_signals_inv(1) pre(1) ex_wait_both pre(2)]
  show ?thesis unfolding ex_blockers cov if_False .
qed

text \<open>
  C7. When a signal occurs twice among the ones a coroutine waits for with
  \<open>wait_all\<close>, it is counted twice and can only be raised once: no sequence of
  raises ever wakes the coroutine.
\<close>

theorem duplicate_signal_never_wakes:
  assumes "sched_inv cur (Some self) s" "\<forall>h \<in> set hs. issued (handles s) h" "\<not> distinct (filter (blocks_on self s) hs)"
    and "wait_prepare self hs True s = Inr (True, s1)" "\<forall>h \<in> set rs. issued (handles s) h"
  shows "safe (raise_signals rs (suspend_coro self s1)) (\<lambda>s2. \<exists>n. suspended self n s2)"
proof -
  note S = wait_suspended [OF assms(1,2,4)]
  have "card (awaited self s1) = card (set (filter (blocks_on self s) hs))"
    using card_image [OF resolve_inj [OF sched_invD(2) [OF assms(1)] assms(2), of self]]
    by (simp add: wait_prepare_awaited [OF assms(1,2,4)])
  moreover have "card (set (filter (blocks_on self s) hs)) < length (filter (blocks_on self s) hs)"
    using assms(3) card_length [of "filter (blocks_on self s) hs"] card_distinct le_neq_implies_less by blast
  ultimately have "int (card (awaited self (suspend_coro self s1))) < wait_blockers self hs True s"
    by (simp add: wait_blockers_def S(4))
  from raise_signals_stuck [OF S(1) emptied_simps(1) _ S(2) this, of rs] assms(5) S(3) show ?thesis by simp
qed

theorem duplicate_signal_never_wakes_witness:
  "safe (raise_signals [ex_h1, ex_h2] (suspend_coro ex_self (ex_waiting True [ex_h1, ex_h1]))) (\<lambda>s. \<exists>n. suspended ex_self n s)"
  by (rule duplicate_signal_never_wakes [OF ex_signals_inv(1) _ _ ex_wait_twice])
    (use ex_signals_inv(3,4) ex_handles in auto)

section \<open>Handles\<close>

text \<open>
  C8. Closing a handle removes exactly one name and for ever: the object is
  returned, every other handle resolves as before, and however the table is used
  afterwards, resolving the handle gives \<open>NULL\<close> and closing it again has no effect,
  for every tag, also when its slot has been given to another object.
\<close>

theorem closed_handle_stays_dead:
  assumes "handle_inv t" "issued t h" "bio_close_handle h g t = Inr (p, t')" "p \<noteq> NULL" "handle_steps t' u"
  shows "p = bio_resolve_handle h g t \<and> bio_resolve_handle h g' u = NULL \<and> bio_close_handle h g' u = Inr (NULL, u)
    \<and> (issued t k \<and> k \<noteq> h \<longrightarrow> bio_resolve_handle k g' t' = bio_resolve_handle k g' t)"
proof -
  note C = ht.close_Inr [OF assms(1-3)]
  have "\<exists>q. lookup_handle t h = Some (q, g)"
    using C(3) assms(4) ht.resolve_known [OF assms(1,2)] by (auto split: option.splits if_splits)
  then have "lookup_handle t' h = None" using C(4) by simp
  then have "lookup_handle u h = None" by (rule handle_steps_stale [OF assms(5) C(1) C(2) [OF assms(2)]])
  moreover have "handle_inv u" "issued u h"
    using handle_steps_inv [OF assms(5) C(1)] handle_steps_issued [OF assms(5) C(1) C(2) [OF assms(2)]] .
  ultimately show ?thesis using C(3) ht.resolve_other_close [OF assms(1-3)] by (simp add: resolve_lookup close_handle_dead)
qed

theorem closed_handle_stays_dead_witness:
  "\<exists>h t t'. bio_make_handle 7 BIO_FILE_HANDLE bio_handle_table_init = Inr (h, t)
    \<and> bio_close_handle h BIO_FILE_HANDLE t = Inr (7, t') \<and> bio_resolve_handle h BIO_FILE_HANDLE t' = NULL"
proof -
  obtain h t t' where r: "bio_make_handle 7 BIO_FILE_HANDLE bio_handle_table_init = Inr (h, t)"
      "bio_close_handle h BIO_FILE_HANDLE t = Inr (7, t')"
    using ex_handle_calls by blast
  note M = ht.make_Inr [OF init_inv(1) r(1)]
  from closed_handle_stays_dead [OF M(1,4) r(2) _ steps_refl] r show ?thesis by auto
qed

text \<open>
  C9. The table is a map from handles to tagged objects: a new handle is one that
  was never given out before, it resolves to its object under its own tag only,
  and every handle given out earlier resolves as before, across the growth of the
  slot array and the reuse of slots.
\<close>

theorem make_handle_extends_map:
  assumes "handle_inv t" "bio_make_handle p g t = Inr (h, t')"
  shows "handle_inv t' \<and> \<not> issued t h \<and> issued t' h
    \<and> bio_resolve_handle h g' t' = (if g' = g then p else NULL)
    \<and> (issued t k \<longrightarrow> issued t' k \<and> bio_resolve_handle k g' t' = bio_resolve_handle k g' t)"
  using ht.make_Inr [OF assms] ht.resolve_new [OF assms] ht.resolve_other_make [OF assms] by simp

theorem make_handle_extends_map_witness:
  "\<exists>h t. bio_make_handle 7 BIO_FILE_HANDLE bio_handle_table_init = Inr (h, t) \<and> bio_resolve_handle h BIO_FILE_HANDLE t = 7"
proof -
  obtain h t t' where r: "bio_make_handle 7 BIO_FILE_HANDLE bio_handle_table_init = Inr (h, t)"
    using ex_handle_calls by blast
  from make_handle_extends_map [OF init_inv(1) r, of BIO_FILE_HANDLE] r show ?thesis by auto
qed

section \<open>Timers\<close>

text \<open>
  C11. \<open>bio_timer_update\<close> raises the signals of exactly the timers that are due,
  in the order of their due times, and keeps the others: its effect is that of
  raising the signals of a list of entries one after the other, where the list is
  sorted by due time and holds the due entries with their multiplicity. Afterwards
  every due signal counts as raised, and the invariant of the framework is kept.
\<close>

theorem timer_update_raises_due_in_order:
  assumes "loop_inv cur run s" "clock_fn (world s) = (now, w)"
  shows "(\<exists>es q. mset es = filter_mset (\<lambda>e. due_time_ms e \<le> now) (tq_entries (timers_of s)) \<and> sorted (map due_time_ms es)
      \<and> tq_entries q = filter_mset (\<lambda>e. now < due_time_ms e) (tq_entries (timers_of s))
      \<and> bio_timer_update clock_fn s = rbind (raise_signals (map timer_signal es) (s\<lparr>world := w, current_time_ms := now\<rparr>))
          (\<lambda>s'. Inr (s'\<lparr>timer_entries := fst q, num_timers := snd (snd q)\<rparr>)))
    \<and> (bio_timer_update clock_fn s = Inr s' \<longrightarrow> loop_inv cur run s'
      \<and> tq_entries (timers_of s') = filter_mset (\<lambda>e. now < due_time_ms e) (tq_entries (timers_of s))
      \<and> (\<forall>e. e \<in># tq_entries (timers_of s) \<and> due_time_ms e \<le> now \<longrightarrow> bio_check_signal (timer_signal e) s'))"
    (is "?order \<and> ?after")
proof
  have q: "tq_invar (timers_of s)" "timers_of (s\<lparr>world := w, current_time_ms := now\<rparr>) = timers_of s"
    using assms(1) by (simp_all add: loop_inv_def timer_inv_def timers_of_def)
  obtain es q' where d: "tq.drains now (timers_of s) es q'" using tq.drains_total [OF q(1)] by blast
  note D = tq.drains_due [OF d q(1)] tq.drains_sorted [OF d q(1)] timer_expire_drains [OF d q(2,1)]
  show ?order
    by (rule exI [of _ es], rule exI [of _ q']) (use D assms(2) in \<open>simp add: bio_timer_update_def\<close>)
  show ?after
    using timer_update_safe [of Map.empty Map.empty cur run s clock_fn] assms by (auto simp: loop_inv_def)
qed

theorem timer_update_raises_due_in_order_witness:
  "\<exists>s'. bio_timer_update ex_clock ex_timer = Inr s' \<and> tq_entries (timers_of ex_timer) \<noteq> {#}
    \<and> tq_entries (timers_of s') = filter_mset (\<lambda>e. 5 < due_time_ms e) (tq_entries (timers_of ex_timer))"
proof -
  obtain s' where "bio_timer_update ex_clock ex_timer = Inr s'" using ex_timer_update by blast
  with timer_update_raises_due_in_order [OF ex_timer_inv(1), of ex_clock 5 "()"] ex_timer_inv(2) show ?thesis
    by (auto simp: ex_clock_def)
qed



section \<open>Mailboxes\<close>

text \<open>
  C14. The ring of a mailbox is a bounded queue, for every position of its 32-bit
  counters, the ones about to wrap around included: messages written one after
  the other come out in the same order and unchanged.
\<close>

theorem mailbox_ring_is_fifo:
  assumes "ring_ok sz m" "ring_messages sz m = []" "list_all (\<lambda>x. length x = sz) xs" "length xs \<le> unat (mb_capacity m)"
  shows "\<exists>m' m''. ring.enqs xs m = Inr m' \<and> ring.deqs sz (length xs) m' = Inr (xs, m'') \<and> ring_messages sz m'' = []"
  using ring.fifo [OF assms] .

theorem mailbox_ring_is_fifo_witness:
  "\<exists>m' m''. ring.enqs [[1, 2], [3, 4]] ex_ring = Inr m' \<and> ring.deqs 2 (length [[1, 2 :: byte], [3, 4]]) m' = Inr ([[1, 2], [3, 4]], m'')"
proof -
  have "length [[1, 2 :: byte], [3, 4]] \<le> unat (mb_capacity ex_ring)" by (simp add: ex_ring_def)
  from mailbox_ring_is_fifo [OF ex_ring_ok _ this] show ?thesis by auto
qed

text \<open>
  C15. \<open>bio__mailbox_send\<close> on a handle the sender was given: when the mailbox is
  open and has room the message is appended, the waiting receiver's signal is
  raised and the result is \<open>true\<close>; when it is full or closed nothing changes and
  the result is \<open>false\<close>. Other mailboxes are untouched and the invariants are kept.
\<close>

theorem send_appends_or_refuses:
  assumes "sched_inv cur run s" "mailbox_inv K s" "issued (handles s) h" "length data = K h"
    and "bio__mailbox_send h data s = Inr (ok, s')"
  shows "sched_inv cur run s' \<and> mailbox_inv K s'
    \<and> (case mailbox_of h s of
         None \<Rightarrow> \<not> ok \<and> s' = s
       | Some m \<Rightarrow> if length (ring_messages (K h) m) < unat (mb_capacity m) then ok \<and> sent K h data s m s' else \<not> ok \<and> s' = s)"
  using send_safe [OF assms(1) emptied_simps(1) assms(2-4)] assms(5) by simp

theorem send_appends_or_refuses_witness:
  "\<exists>s'. bio__mailbox_send ex_mailbox [9] ex_mail = Inr (True, s') \<and> messages (\<lambda>_. 1) ex_mailbox s' = Some [[9]]"
proof -
  have "case bio__mailbox_send ex_mailbox [9] ex_mail of Inr (ok, s') \<Rightarrow> ok | Inl e \<Rightarrow> False" by code_simp
  then obtain s' where r: "bio__mailbox_send ex_mailbox [9] ex_mail = Inr (True, s')" by (auto simp: case_Inr_iff)
  from send_appends_or_refuses [OF ex_mail_inv(1,2,3) _ r] ex_mail_inv(4) r show ?thesis
    by (auto simp: sent_def messages_def split: option.splits if_splits)
qed



text \<open>
  C17. Closing a mailbox wakes the receiver that waits on it: afterwards the
  mailbox is gone, the receiver's signal counts as raised, and every other
  mailbox is as before.
\<close>

theorem close_wakes_the_receiver:
  assumes "sched_inv cur run s" "mailbox_inv K s" "issued (handles s) h" "bio__mailbox_close h s = Inr s'"
  shows "sched_inv cur run s' \<and> mailbox_inv K s' \<and> mailbox_of h s' = None
    \<and> (\<forall>h'. h' \<noteq> h \<longrightarrow> mailbox_of h' s' = mailbox_of h' s)
    \<and> (\<forall>m. mailbox_of h s = Some m \<longrightarrow> mb_signal m \<noteq> BIO_INVALID_HANDLE \<longrightarrow> bio_check_signal (mb_signal m) s')"
  using mailbox_close_safe [OF assms(1) emptied_simps(1) assms(2,3)] assms(4) by simp

theorem close_wakes_the_receiver_witness:
  "\<exists>s'. bio__mailbox_close ex_mailbox ex_mail = Inr s' \<and> mailbox_of ex_mailbox s' = None"
proof -
  have "case bio__mailbox_close ex_mailbox ex_mail of Inr s' \<Rightarrow> True | Inl e \<Rightarrow> False" by code_simp
  then obtain s' where r: "bio__mailbox_close ex_mailbox ex_mail = Inr s'" by (auto simp: case_Inr_iff)
  from close_wakes_the_receiver [OF ex_mail_inv(1-3) r] r show ?thesis by blast
qed

text \<open>
  C18. \<open>bio_next_pow2\<close> gives the smallest power of two that is not below its
  argument, for every argument from 1 to \<open>2 ^ 31\<close>. It gives 0 for every other
  argument, so a mailbox that is opened with capacity 0 has no room at all.
\<close>

theorem next_pow2_is_least:
  "if 0 < v \<and> v \<le> 2 ^ 31
   then \<exists>n \<le> 31. unat (bio_next_pow2 v) = 2 ^ n \<and> unat v \<le> 2 ^ n \<and> (\<forall>m. unat v \<le> 2 ^ m \<longrightarrow> n \<le> m)
   else bio_next_pow2 v = 0"
proof (cases "0 < v \<and> v \<le> 2 ^ 31")
  case True
  then obtain n where n: "n \<le> 31" "unat (bio_next_pow2 v) = 2 ^ n" "unat v \<le> 2 ^ n" "2 ^ n < 2 * unat v"
    using next_pow2_bounds by blast
  have "n \<le> m" if "unat v \<le> 2 ^ m" for m
  proof -
    have "(2::nat) ^ n < 2 ^ Suc m" using n(4) that by simp
    then have "n < Suc m" by (rule power_less_imp_less_exp [rotated]) simp
    then show ?thesis by simp
  qed
  with n True show ?thesis by auto
next
  case False
  then show ?thesis using next_pow2_outside(1) next_pow2_outside(2) [of v] by (cases "v = 0") (auto simp: word_gt_0)
qed

theorem next_pow2_is_least_witness:
  "(\<exists>n \<le> 31. unat (bio_next_pow2 5) = 2 ^ n \<and> unat (5 :: 32 word) \<le> 2 ^ n \<and> (\<forall>m. unat (5 :: 32 word) \<le> 2 ^ m \<longrightarrow> n \<le> m))
   \<and> bio_next_pow2 (2 ^ 31 + 1) = 0"
  using next_pow2_is_least [of 5] next_pow2_is_least [of "2 ^ 31 + 1"] by (simp add: word_le_nat_alt word_less_nat_alt)

section \<open>The end of the program\<close>

text \<open>
  C20. The end of the program reaches every coroutine that waits for it:
  \<open>bio_dispatch_exit_signal\<close> gives each registered waiter the reason, raises its
  signal and empties the list of waiters.
\<close>

theorem exit_reaches_every_waiter:
  assumes "loop_inv cur run s" "exit_ok s" "bio_dispatch_exit_signal unblock reason s = Inr s'"
  shows "loop_inv cur run s' \<and> exit_ok s' \<and> array_list (exit_handlers (rest s')) = []
    \<and> (\<forall>p \<in> set (array_list (exit_handlers (rest s))). told reason s' p)"
  using dispatch_safe [OF assms(1,2), of unblock reason] assms(3) by simp

theorem exit_reaches_every_waiter_witness:
  "\<exists>s' p. bio_dispatch_exit_signal id BIO_EXIT_TERMINATE ex_exit = Inr s' \<and> told BIO_EXIT_TERMINATE s' p"
proof -
  obtain s' where r: "bio_dispatch_exit_signal id BIO_EXIT_TERMINATE ex_exit = Inr s'" using ex_exit_dispatch by blast
  obtain p where "p \<in> set (array_list (exit_handlers (rest ex_exit)))" using ex_exit_inv(3) by (cases "array_list (exit_handlers (rest ex_exit))") auto
  with exit_reaches_every_waiter [OF ex_exit_inv(1,2) r] r show ?thesis by blast
qed

section \<open>Timer objects\<close>



text \<open>
  C22. The coroutine of a timer, when it returns, has freed the timer object and
  touched no freed memory on the way, whatever happens to the timer (resets and
  cancellations included) while the coroutine is suspended or calls the
  application's function.
\<close>

theorem timer_coroutine_frees_timer:
  assumes "bio_timer_entry clk mco_yield call self p s = Some r"
    and "keeps_timer self p (mco_yield self)" "\<And>f data. keeps_timer self p (call f data)"
    and "timer_world cur (Some self) s" "map_of (timer_impls s) p \<noteq> None" "self \<noteq> NULL"
  shows "r \<noteq> Inl DanglingPointer \<and> (\<forall>s'. r = Inr s' \<longrightarrow> (\<exists>cur'. timer_world cur' (Some self) s') \<and> map_of (timer_impls s') p = None)"
  using timer_entry_safe [OF assms] by (simp add: safe_iff)

theorem timer_coroutine_frees_timer_witness:
  "\<exists>s'. bio_timer_entry ex_later (\<lambda>_. Inr) (\<lambda>_ _. Inr) ex_self ex_timer_at (snd ex_created) = Some (Inr s')
     \<and> map_of (timer_impls s') ex_timer_at = None"
proof -
  have k: "keeps_timer ex_self ex_timer_at Inr" by (auto simp: keeps_timer_def)
  obtain s1 where s1: "timer_round ex_later (\<lambda>_. Inr) (\<lambda>_ _. Inr) ex_self ex_timer_at (snd ex_created) = Inr (False, s1)"
    using ex_timer_round by blast
  have r: "bio_timer_entry ex_later (\<lambda>_. Inr) (\<lambda>_ _. Inr) ex_self ex_timer_at (snd ex_created) = Some (timer_free ex_timer_at s1)"
    by (subst bio_timer_entry.simps) (simp add: s1)
  have "case timer_round ex_later (\<lambda>_. Inr) (\<lambda>_ _. Inr) ex_self ex_timer_at (snd ex_created) of
      Inr (b, s') \<Rightarrow> (case timer_free ex_timer_at s' of Inr x \<Rightarrow> True | Inl e \<Rightarrow> False) | Inl e \<Rightarrow> False"
    by code_simp
  then obtain s2 where s2: "timer_free ex_timer_at s1 = Inr s2" by (auto simp: s1 case_Inr_iff)
  have "map_of (timer_impls (snd ex_created)) ex_timer_at \<noteq> None" by code_simp
  note F = timer_coroutine_frees_timer [OF r k k ex_created_inv(1) this, unfolded s2]
  have "map_of (timer_impls s2) ex_timer_at = None" using F by (simp add: ex_self_def)
  with r s2 show ?thesis by simp
qed

text \<open>
  C23. \<open>bio_reset_timer\<close> changes the deadline stored in the timer and nothing else:
  the delayed signal its coroutine waits for keeps its old due time, so a reset to
  a shorter timeout takes effect only when the old one has passed.
\<close>

theorem reset_keeps_old_wakeup:
  assumes "timer_world cur run s" "issued (handles s) h" "bio_reset_timer clk h timeout_ms s = Inr s'"
  shows "timer_world cur run s' \<and> tq_entries (timers_of s') = tq_entries (timers_of s) \<and> signals s' = signals s
    \<and> (bio_is_timer_pending h s \<longrightarrow> (\<exists>p t. bio_resolve_handle h BIO_TIMER_HANDLE (handles s') = p
        \<and> map_of (timer_impls s) p = Some t
        \<and> map_of (timer_impls s') = (map_of (timer_impls s))
            (p \<mapsto> t\<lparr>tm_timeout_ms := timeout_ms, tm_due_time_ms := fst (bio_current_time_ms clk s) + timeout_ms\<rparr>)))"
proof -
  have R: "timer_world cur run s'" "timers_of s' = timers_of s" "handles s' = handles s" "signals s' = signals s"
    "\<forall>p t. lookup_handle (handles s) h = Some (p, BIO_TIMER_HANDLE) \<longrightarrow> map_of (timer_impls s) p = Some t \<longrightarrow>
        map_of (timer_impls s') = (map_of (timer_impls s))
          (p \<mapsto> t\<lparr>tm_timeout_ms := timeout_ms, tm_due_time_ms := fst (bio_current_time_ms clk s) + timeout_ms\<rparr>)"
    using reset_timer_safe [OF assms(1,2), of clk timeout_ms] assms(3) by simp_all
  have ok: "timers_ok s" "handle_inv (handles s)" using assms(1) by (auto simp: timer_world_def loop_inv_def intro: sched_inv_handles)
  from ok(1,2) assms(2) show ?thesis
  proof (cases rule: resolve_cases)
    case dead
    with R show ?thesis by (simp add: bio_is_timer_pending_def)
  next
    case (live p t)
    then have "map_of (timer_impls s') = (map_of (timer_impls s))
          (p \<mapsto> t\<lparr>tm_timeout_ms := timeout_ms, tm_due_time_ms := fst (bio_current_time_ms clk s) + timeout_ms\<rparr>)" using R(5) by blast
    with R(1-4) live(1,4) show ?thesis by metis
  qed
qed

theorem reset_keeps_old_wakeup_witness:
  "\<exists>s' p t. bio_reset_timer ex_clock (fst ex_created) 1 (snd ex_created) = Inr s' \<and> tq_entries (timers_of s') = tq_entries (timers_of (snd ex_created))
     \<and> map_of (timer_impls s') p = Some t \<and> tm_due_time_ms t = 6"
proof -
  have "case bio_reset_timer ex_clock (fst ex_created) 1 (snd ex_created) of Inr s' \<Rightarrow> True | Inl e \<Rightarrow> False" by code_simp
  then obtain s' where r: "bio_reset_timer ex_clock (fst ex_created) 1 (snd ex_created) = Inr s'" by (auto simp: case_Inr_iff)
  have "fst (bio_current_time_ms ex_clock (snd ex_created)) = 5" by (simp add: bio_current_time_ms_def ex_clock_def)
  with reset_keeps_old_wakeup [OF ex_created_inv(1,2) r] ex_created_inv(3) r show ?thesis by auto
qed

section \<open>Buffered I/O\<close>

text \<open>
  C24. What is written into a buffer and flushed arrives: when
  \<open>bio_buffered_write_exactly\<close> reports all bytes as written and \<open>bio_flush_buffer\<close>
  succeeds, the sink has received what the buffer held back and then these bytes,
  in order, whatever short writes the callback makes and whatever the size of the
  buffer.
\<close>

theorem buffered_write_then_flush_delivers:
  assumes "buffer_at p h s b" "write_ok b" "writes_to io (buf_options b) p h dst"
    and "bio_buffered_write_exactly io h out e s = Inr (length out, e1, s1)" "bio_flush_buffer io h e1 s1 = Inr (True, e2, s2)"
  shows "dst (world s2) = dst (world s) @ unwritten b @ out"
proof -
  obtain b' where b': "buffer_at p h s1 b'" "write_ok b'" "buf_options b' = buf_options b"
      "dst (world s1) @ unwritten b' = dst (world s) @ unwritten b @ out"
    using write_exactly_safe [OF assms(1-3), of out e] assms(4) by auto
  have "writes_to io (buf_options b') p h dst" using assms(3) b'(3) by simp
  from flush_buffer_safe [OF b'(1,2) this, of e1] assms(5) b'(4) show ?thesis by auto
qed

theorem buffered_write_then_flush_delivers_witness:
  "\<exists>s1 s2. bio_buffered_write_exactly ex_io (fst ex_writer) [1, 2, 3, 4, 5, 6, 7] None (snd ex_writer) = Inr (7, None, s1)
     \<and> bio_flush_buffer ex_io (fst ex_writer) None s1 = Inr (True, None, s2) \<and> world s2 = [1, 2, 3, 4, 5, 6, 7]"
proof -
  have "case bio_buffered_write_exactly ex_io (fst ex_writer) [1, 2, 3, 4, 5, 6, 7] None (snd ex_writer) of
      Inr (n, e, s1) \<Rightarrow> n = length [1 :: byte, 2, 3, 4, 5, 6, 7] \<and> e = None \<and> (case bio_flush_buffer ex_io (fst ex_writer) None s1 of
          Inr (ok, e, s2) \<Rightarrow> ok \<and> e = None | Inl e \<Rightarrow> False) | Inl e \<Rightarrow> False"
    by code_simp
  then obtain s1 s2 where r: "bio_buffered_write_exactly ex_io (fst ex_writer) [1, 2, 3, 4, 5, 6, 7] None (snd ex_writer) = Inr (length [1 :: byte, 2, 3, 4, 5, 6, 7], None, s1)"
      "bio_flush_buffer ex_io (fst ex_writer) None s1 = Inr (True, None, s2)" by (auto simp: case_Inr_iff)
  obtain p b where b: "buffer_at p (fst ex_writer) (snd ex_writer) b" "write_ok b" "unwritten b = []" "world (snd ex_writer) = []"
    using ex_writer_at by blast
  from buffered_write_then_flush_delivers [OF b(1,2) ex_io_calls(2) r] r b show ?thesis by simp
qed

text \<open>
  C25. Reading through a buffer is reading the stream: from a source that delivers
  nothing only at its end, \<open>bio_buffered_read_exactly\<close> delivers the bytes held in
  the buffer and then those of the source, as many as were asked for or all there
  are, and what was not delivered is still there.
\<close>

theorem buffered_read_exactly_is_stream:
  assumes "buffer_at p h s b" "read_ok b" "0 < buf_size (buf_options b)" "reads_from True io (buf_options b) p h src"
    and "bio_buffered_read_exactly io h n e s = Inr (bs, e', s')"
  shows "bs = take n (unread b @ src (world s))
    \<and> (\<exists>b'. buffer_at p h s' b' \<and> read_ok b' \<and> unread b' @ src (world s') = drop n (unread b @ src (world s)))"
proof -
  obtain b' where b': "buffer_at p h s' b'" "read_ok b'" "unread b @ src (world s) = bs @ unread b' @ src (world s')"
      "bs = take n (unread b @ src (world s))"
    using safe_Inr [OF read_exactly_safe [OF assms(1,2,4), of n e] assms(5)] assms(3) by (simp only: prod.case simp_thms) metis
  have "bs @ unread b' @ src (world s') = bs @ drop n (unread b @ src (world s))"
    using append_take_drop_id [of n "unread b @ src (world s)"] b'(3,4) by metis
  then have "unread b' @ src (world s') = drop n (unread b @ src (world s))" by (simp only: same_append_eq)
  with b'(1,2,4) show ?thesis by blast
qed

theorem buffered_read_exactly_is_stream_witness:
  "\<exists>s'. bio_buffered_read_exactly ex_io (fst ex_reader) 5 None (snd ex_reader) = Inr ([1, 2, 3, 4, 5], None, s')"
proof -
  have "case bio_buffered_read_exactly ex_io (fst ex_reader) 5 None (snd ex_reader) of Inr (bs, e, s') \<Rightarrow> e = None | Inl e \<Rightarrow> False"
    by code_simp
  then obtain bs s' where r: "bio_buffered_read_exactly ex_io (fst ex_reader) 5 None (snd ex_reader) = Inr (bs, None, s')" by (auto simp: case_Inr_iff)
  obtain p b where b: "buffer_at p (fst ex_reader) (snd ex_reader) b" "read_ok b" "unread b = []" "0 < buf_size (buf_options b)" "world (snd ex_reader) = [1, 2, 3, 4, 5, 6]"
    using ex_reader_at by blast
  from buffered_read_exactly_is_stream [OF b(1,2,4) ex_io_calls(1) r] r b show ?thesis by simp
qed

section \<open>The queue between two threads\<close>

text \<open>
  C26. In every interleaving of the two threads (with sequentially consistent
  atomics and spurious wake-ups), for every size that is a power of two and for
  counters that wrap around, what the consumer has taken is what the producer has
  put in first, in the same order and without loss or duplication, and never more
  than the size of the queue is under way. No step reads an empty slot or leaves
  the array.
\<close>

theorem spscq_is_fifo:
  assumes "spsc_reach n s" "n = 2 ^ k" "k < 32"
  shows "consumed s = take (length (consumed s)) (produced s) \<and> length (produced s) \<le> length (consumed s) + n
    \<and> q_count (queue s) = int (length (produced s)) - int (length (consumed s))
    \<and> produce_step s \<noteq> Some (Inl e) \<and> consume_step s \<noteq> Some (Inl e)"
proof -
  have I: "spsc_inv n s" using spsc_reach_inv [OF assms] .
  then have "count_inv s" "slots_inv s" "q_size (queue s) = n" by (simp_all add: spsc_inv_def)
  then show ?thesis
    using produce_step_defined [OF I assms(2,3)] consume_step_defined [OF I assms(2,3)] by (simp add: count_inv_def slots_inv_def Let_def)
qed

theorem spscq_is_fifo_witness:
  "consumed ex_spsc = take (length (consumed ex_spsc)) (produced ex_spsc) \<and> consumed ex_spsc = [7]"
  using spscq_is_fifo [OF ex_spsc_reach, of 1] ex_spsc_consumed by simp

text \<open>
  C27. No lost wake-up: a thread that sleeps although it could go on is about to be
  woken, because the other thread is on its way to signal it; and the two threads
  never sleep at the same time.
\<close>

theorem spscq_no_lost_wakeup:
  assumes "spsc_reach n s" "n = 2 ^ k" "k < 32"
  shows "(\<forall>item. producer s = P_Asleep item \<and> sleeping (can_produce (queue s)) \<and> q_count (queue s) < int n \<longrightarrow> consumer s \<in> {C_Raise, C_Signal})
    \<and> (consumer s = C_Asleep \<and> sleeping (can_consume (queue s)) \<and> 0 < q_count (queue s) \<longrightarrow> producer s \<in> {P_Raise, P_Signal})
    \<and> \<not> ((\<exists>item. producer s = P_Asleep item) \<and> sleeping (can_produce (queue s)) \<and> consumer s = C_Asleep \<and> sleeping (can_consume (queue s)))"
proof -
  have I: "spsc_inv n s" using spsc_reach_inv [OF assms] .
  have n: "0 < n" using assms(2) by simp
  show ?thesis using sleeper_is_woken [OF I] never_both_asleep [OF I n] by blast
qed

theorem spscq_no_lost_wakeup_witness:
  "consumer ex_asleep = C_Asleep \<and> sleeping (can_consume (queue ex_asleep)) \<and> producer ex_asleep \<in> {P_Raise, P_Signal}"
  using spscq_no_lost_wakeup [OF ex_asleep_reach, of 1] ex_asleep_state by simp

section \<open>Lists, local storage, addresses, texts\<close>

text \<open>
  C28. The list macros implement lists: on a well-formed circular list with head
  \<open>l\<close> and items \<open>xs\<close>, appending a new item and then removing any item gives
  well-formed lists with the expected items, and the loop the code walks lists
  with ends and meets exactly these items in order.
\<close>

theorem list_macros_implement_lists:
  assumes "dll st l xs" "map_of st x = Some k" "x \<notin> set (l # xs)" "x \<noteq> NULL" "y \<in> set (xs @ [x])"
  shows "\<exists>st1 st2. BIO_LIST_APPEND l x st = Inr st1 \<and> dll st1 l (xs @ [x])
    \<and> BIO_LIST_REMOVE y st1 = Inr st2 \<and> dll st2 l (remove1 y (xs @ [x])) \<and> unlinked st2 y
    \<and> rbind (get_next l st2) (\<lambda>itr. case list_walk (length xs + 2) l itr st2 of Some r \<Rightarrow> r | None \<Rightarrow> Inl DanglingPointer)
        = Inr (remove1 y (xs @ [x]))"
proof -
  obtain st1 where 1: "BIO_LIST_APPEND l x st = Inr st1" "dll st1 l (xs @ [x])" using append_dll [OF assms(1-4)] by blast
  obtain st2 where 2: "BIO_LIST_REMOVE y st1 = Inr st2" "dll st2 l (remove1 y (xs @ [x]))" "unlinked st2 y"
    using remove_dll [OF 1(2) assms(5)] by blast
  have "length (remove1 y (xs @ [x])) < length xs + 2" using length_remove1 [of y "xs @ [x]"] by (simp split: if_splits)
  from walk_dll [OF 2(2) this] 1 2 show ?thesis by blast
qed

theorem list_macros_implement_lists_witness:
  "\<exists>st1 st2. BIO_LIST_APPEND 1 2 [(1, \<lparr>link_next = 1, link_prev = 1\<rparr>), (2, \<lparr>link_next = 0, link_prev = 0\<rparr>)] = Inr st1
    \<and> dll st1 1 [2] \<and> BIO_LIST_REMOVE 2 st1 = Inr st2 \<and> dll st2 1 []"
proof -
  have "dll [(1, \<lparr>link_next = 1, link_prev = 1\<rparr>), (2, \<lparr>link_next = 0, link_prev = 0\<rparr>)] 1 []"
    by (auto simp: dll_def edge_def)
  from list_macros_implement_lists [OF this, of 2 "\<lparr>link_next = 0, link_prev = 0\<rparr>" 2] show ?thesis by auto
qed



text \<open>
  C31. The comparison of network addresses has the sign of a reference order: by
  type, then lexicographically by the bytes that count (for a named address the
  first \<open>len\<close>). It is zero exactly for equal addresses.
\<close>

theorem address_compare_is_reference_order:
  assumes "addr_ok a" "addr_ok b"
  shows "sgn (bio_net_address_compare a b) =
    (if addr_type a = addr_type b \<and> addr_bytes a = addr_bytes b then 0 else if addr_less a b then -1 else 1)"
  using address_compare_order [OF assms] .

theorem address_compare_is_reference_order_witness:
  "sgn (bio_net_address_compare BIO_ADDR_IPV4_ANY BIO_ADDR_IPV4_LOOPBACK) = -1 \<and> addr_less BIO_ADDR_IPV4_ANY BIO_ADDR_IPV4_LOOPBACK"
proof -
  have "addr_ok BIO_ADDR_IPV4_ANY" "addr_ok BIO_ADDR_IPV4_LOOPBACK" "addr_less BIO_ADDR_IPV4_ANY BIO_ADDR_IPV4_LOOPBACK"
    "addr_bytes BIO_ADDR_IPV4_ANY \<noteq> addr_bytes BIO_ADDR_IPV4_LOOPBACK" by code_simp+
  with address_compare_is_reference_order show ?thesis by simp
qed

text \<open>
  C32. \<open>bio_vfmt\<close> never truncates and never writes outside of its buffer: for every
  text and every state of the buffer, the result is the length of the text and the
  buffer, grown when needed, holds the text with its terminator.
\<close>

theorem vfmt_never_truncates:
  assumes "fmt_ok buf" "int (length str) < INT32_MAX" "NUL \<notin> set str"
  shows "\<exists>buf'. bio_vfmt (Some str) buf = Inr (int (length str), buf') \<and> fmt_ok buf' \<and> fmt_string buf' = Some str
    \<and> int (length str) < fmt_len buf' \<and> fmt_len buf \<le> fmt_len buf'"
  using vfmt_holds [OF assms] .

theorem vfmt_never_truncates_witness:
  "\<exists>buf'. bio_vfmt (Some ''hello'') \<lparr>fmt_mem = None, fmt_len = 0\<rparr> = Inr (int (length ''hello''), buf') \<and> fmt_string buf' = Some ''hello''"
  using vfmt_never_truncates [of "\<lparr>fmt_mem = None, fmt_len = 0\<rparr>" "''hello''"] by (auto simp: fmt_ok_def INT32_MAX_def)

section \<open>The platform layer\<close>



section \<open>Files\<close>

text \<open>
  C34. Seeking and telling: after \<open>bio_fseek\<close> to a position, absolute or relative,
  \<open>bio_ftell\<close> gives that position.
\<close>

theorem seek_then_tell:
  assumes "file_at p h s f" "file_seekable f"
  shows "\<exists>s1. bio_fseek h off SEEK_SET e s = Inr (True, e, s1) \<and> bio_ftell h e s1 = Inr (off, e)
    \<and> (\<forall>d. - INT64_MAX - 1 \<le> off + d \<and> off + d \<le> INT64_MAX \<longrightarrow>
        (\<exists>s2. bio_fseek h d SEEK_CUR e s1 = Inr (True, e, s2) \<and> bio_ftell h e s2 = Inr (off + d, e)))"
proof -
  let ?s = "set_file_impls (put p (f\<lparr>file_offset := off\<rparr>) (file_impls (rest s))) s"
  have at: "file_at p h ?s (f\<lparr>file_offset := off\<rparr>)" "file_seekable (f\<lparr>file_offset := off\<rparr>)" using assms by (simp_all add: file_at_def)
  have cur: "\<exists>s2. bio_fseek h d SEEK_CUR e ?s = Inr (True, e, s2) \<and> bio_ftell h e s2 = Inr (off + d, e)"
    if "- INT64_MAX - 1 \<le> off + d" "off + d \<le> INT64_MAX" for d
  proof -
    let ?g = "f\<lparr>file_offset := off + d\<rparr>"
    let ?s2 = "set_file_impls (put p ?g (file_impls (rest ?s))) ?s"
    have "file_at p h ?s2 ?g" "file_seekable ?g" using assms by (simp_all add: file_at_def)
    then have "bio_ftell h e ?s2 = Inr (off + d, e)" using fseek_live(3) by fastforce
    moreover have "bio_fseek h d SEEK_CUR e ?s = Inr (True, e, ?s2)" unfolding fseek_live(2) [OF at] using that by (simp add: check64_def)
    ultimately show ?thesis by blast
  qed
  show ?thesis
    by (rule exI [of _ ?s]) (use fseek_live(1) [OF assms, of off e] fseek_live(3) [OF at] cur in simp)
qed

theorem seek_then_tell_witness:
  "\<exists>s1. bio_fseek ex_file 10 SEEK_SET None ex_file_ctx = Inr (True, None, s1) \<and> bio_ftell ex_file None s1 = Inr (10, None)"
  using seek_then_tell [OF ex_file_open, of 10 None] by auto

text \<open>
  C35. A read whose request the kernel has answered. As long as the file is still
  open then, the caller gets the bytes and the position moves by their number, or
  the error number and no bytes. When another coroutine has closed the file in the
  meantime, the function uses the freed object.
\<close>

theorem read_after_wait:
  assumes "file_at p h s f" "do_io U mco_yield self (read_req p n) s = ret (req, s1)"
  shows "case map_of (file_impls (rest s1)) p of
      None \<Rightarrow> bio_fread U mco_yield self h n e s = Some (Inl DanglingPointer)
    | Some g \<Rightarrow> \<exists>s2. bio_fread U mco_yield self h n e s =
          ret (if req_res req < 0 then ([], bio_set_errno (''src/linux/file.c'', 158) e (- req_res req), s2)
               else (take (nat (req_res req)) (req_buf req), e, s2))
        \<and> map_of (file_impls (rest s2)) p = Some (advanced (nat (max 0 (req_res req))) g)"
proof (cases "map_of (file_impls (rest s1)) p")
  case None
  then show ?thesis using fread_freed [OF assms] by simp
next
  case (Some g)
  then show ?thesis using fread_live [OF assms Some] by (auto simp: max_def)
qed

theorem read_after_wait_witness:
  "bio_fread ex_quiet ex_closing ex_self ex_file 2 None ex_file_ctx = Some (Inl DanglingPointer)
   \<and> (\<exists>s2. bio_fread ex_quiet ex_served ex_self ex_file 2 None ex_file_ctx = ret ([7, 8], None, s2))"
proof -
  obtain r1 s1 r2 s2 where r: "ex_request_of ex_closing = Inr (r1, s1)" "map_of (file_impls (rest s1)) ex_file_at = None"
      "ex_request_of ex_served = Inr (r2, s2)" "req_res r2 = 2" "req_buf r2 = [7, 8]"
      "map_of (file_impls (rest s2)) ex_file_at = Some \<lparr>file_fd = 5, file_offset = 0, file_seekable = True\<rparr>"
    using ex_read_closed ex_read_served by blast
  have "do_io ex_quiet ex_closing ex_self (read_req ex_file_at 2) ex_file_ctx = ret (r1, s1)"
    "do_io ex_quiet ex_served ex_self (read_req ex_file_at 2) ex_file_ctx = ret (r2, s2)"
    unfolding ex_read_io r(1,3) by (simp_all add: lift_def ret_def)
  from read_after_wait [OF ex_file_open this(1)] read_after_wait [OF ex_file_open this(2)] r show ?thesis by auto
qed

text \<open>
  C36. \<open>bio_fread_exactly\<close> ends and delivers: when every single read delivers the
  next bytes of the file, in whatever portions, and none only at the end of the
  file, the loop returns the first \<open>n\<close> bytes of the content, or all of it.
\<close>

theorem read_exactly_ends_with_all:
  assumes "\<And>k s. at k s \<Longrightarrow> k < n \<Longrightarrow> \<exists>bs s'. bio_fread U mco_yield self h (n - k) e s = ret (bs, e, s') \<and> at (k + length bs) s'
      \<and> length bs \<le> n - k \<and> bs = take (length bs) (drop k content) \<and> (k < length content \<longrightarrow> bs \<noteq> [])"
    and "at 0 s"
  shows "\<exists>s'. bio_fread_exactly U mco_yield self h n e s = ret (take n content, e, s') \<and> at (length (take n content)) s'"
  using read_loop_total [where at = at and read = "bio_fread U mco_yield self h" and stop = n and e = e and content = content and k = 0 and s = s and got = "[]"]
    assms by (auto simp: bio_fread_exactly_def)

theorem read_exactly_ends_with_all_witness:
  "\<exists>s'. bio_fread_exactly ex_quiet ex_served ex_self ex_file 2 None ex_file_ctx = ret ([7, 8], None, s')"
proof -
  obtain r2 s2 where r: "ex_request_of ex_served = Inr (r2, s2)" "req_res r2 = 2" "req_buf r2 = [7, 8]"
      "map_of (file_impls (rest s2)) ex_file_at = Some \<lparr>file_fd = 5, file_offset = 0, file_seekable = True\<rparr>"
    using ex_read_served by blast
  have "do_io ex_quiet ex_served ex_self (read_req ex_file_at 2) ex_file_ctx = ret (r2, s2)"
    unfolding ex_read_io r(1) by (simp add: lift_def ret_def)
  from fread_live [OF ex_file_open this r(4), of None] r(2,3)
  obtain s3 where s3: "bio_fread ex_quiet ex_served ex_self ex_file 2 None ex_file_ctx = ret ([7, 8], None, s3)" by auto
  define at where "at = (\<lambda>k s. k = 0 \<and> s = ex_file_ctx \<or> k = (2 :: nat) \<and> s = s3)"
  have "\<exists>bs s'. bio_fread ex_quiet ex_served ex_self ex_file (2 - k) None s = ret (bs, None, s') \<and> at (k + length bs) s'
      \<and> length bs \<le> 2 - k \<and> bs = take (length bs) (drop k [7, 8]) \<and> (k < length [7 :: byte, 8] \<longrightarrow> bs \<noteq> [])" if "at k s" "k < 2" for k s
    using that s3 by (auto simp: at_def)
  from read_exactly_ends_with_all [of at 2, OF this, of ex_file_ctx] show ?thesis by (auto simp: at_def)
qed

text \<open>
  C37. A dead or foreign handle is reported by every function on files as
  \<open>BIO_ERROR_INVALID_ARGUMENT\<close>, formatted as such, and nothing else happens; \<open>bio_fstat\<close>
  sets the error too but returns \<open>true\<close>.
\<close>

theorem invalid_file_handle_is_reported:
  assumes "handle_inv (handles s)" "issued (handles s) h" "\<And>p. lookup_handle (handles s) h \<noteq> Some (p, BIO_FILE_HANDLE)"
  shows "bio_fwrite U mco_yield self h buf (Some e) s = ret (0, invalid_argument 140 e, s)
    \<and> bio_fread U mco_yield self h n (Some e) s = ret ([], invalid_argument 164 e, s)
    \<and> bio_fflush U mco_yield self h (Some e) s = ret (False, invalid_argument 178 e, s)
    \<and> bio_fclose U mco_yield self h (Some e) s = ret (False, invalid_argument 192 e, s)
    \<and> bio_fseek h off origin (Some e) s = Inr (False, invalid_argument 222 e, s)
    \<and> bio_ftell h (Some e) s = Inr (-1, invalid_argument 241 e)
    \<and> bio_fstat U mco_yield self h (Some e) s = ret (True, None, invalid_argument 261 e, s)
    \<and> bio_strerror fmt (invalid_argument line e) = Some ''Invalid argument''"
proof -
  have "bio_resolve_handle h BIO_FILE_HANDLE (handles s) = NULL"
    using assms by (auto simp: resolve_lookup split: option.split)
  with close_handle_dead [OF assms] show ?thesis
    by (simp add: strerror_core bio_fwrite_def bio_fread_def bio_fflush_def bio_fclose_def bio_fseek_def bio_ftell_def bio_fstat_def)
qed

theorem invalid_file_handle_is_reported_witness:
  "\<exists>err. bio_fread ex_quiet ex_served ex_self BIO_INVALID_HANDLE 2 (Some \<lparr>err_tag = NULL_TAG, err_strerror = NULL_STRERROR, err_code = 0, err_file = [], err_line = 0\<rparr>) ex_running
     = ret ([], err, ex_running) \<and> bio_strerror (\<lambda>_ _. []) err = Some ''Invalid argument''"
proof -
  have "handle_inv (handles ex_running)" using ex_running_inv by (auto simp: loop_inv_def intro: sched_inv_handles)
  then show ?thesis using invalid_file_handle_is_reported [of ex_running BIO_INVALID_HANDLE] by auto
qed

section \<open>Services\<close>



section \<open>The thread pool\<close>

text \<open>
  C39. Handing a job to the pool keeps the accounts of the pool: every job is with
  exactly one worker, the load of each worker and the number of running jobs count
  them, and the job goes to a worker with the least load; or nothing is lost when
  the queue of that worker is full and the caller has to try again.
\<close>

theorem job_goes_to_least_loaded_worker:
  assumes "sched_inv cur run s" "pool_inv X s" "m \<in> X" "thread_pool (rest s) \<noteq> []" "run_async_try m s = Inr (ok, s')"
  shows "sched_inv cur run s' \<and> (if ok then pool_inv (X - {m}) s' \<and> (\<exists>s1. pool_inv X s1 \<and> pool_frame s s1 \<and> job_sent m s1 s') else pool_inv X s')"
  using run_async_try_safe [OF assms(1) emptied_simps(1) assms(2-4)] assms(5) by (auto split: if_splits)

theorem job_goes_to_least_loaded_worker_witness:
  "\<exists>s'. run_async_try 50 ex_pool = Inr (True, s') \<and> pool_inv {} s'"
proof -
  have "case run_async_try 50 ex_pool of Inr (ok, s') \<Rightarrow> ok | Inl e \<Rightarrow> False" by code_simp
  then obtain s' where r: "run_async_try 50 ex_pool = Inr (True, s')" by (auto simp: case_Inr_iff)
  from job_goes_to_least_loaded_worker [OF ex_pool_inv(1) ex_pool_inv(2) _ ex_pool_inv(3) r] r show ?thesis by auto
qed

section \<open>Logging\<close>

text \<open>
  C40. The root of the project is cut off the file names of log messages: when the
  program is told its own file name \<open>root/rel\<close> and how many directories deep it is,
  every file \<open>root/x\<close> is logged as \<open>x\<close>. When the name has fewer separators than that,
  the start of the framework reads outside of the name.
\<close>

theorem log_names_are_relative:
  assumes "is_separator c" "int (length (filter is_separator rel)) < INT32_MAX"
  shows "(\<exists>s'. bio_logging_init (Some (root @ c # rel)) (int (length (filter is_separator rel))) s = Inr s'
        \<and> shorten_filename (Some (root @ c # x)) s' = x)
    \<and> (length (filter is_separator name) \<le> length (filter is_separator rel) \<longrightarrow>
        bio_logging_init (Some name) (int (length (filter is_separator rel))) s = Inl DanglingPointer)"
proof -
  obtain s' where "bio_logging_init (Some (root @ c # rel)) (int (separators rel)) s = Inr s'"
      "log_prefix_len (rest s') = int (Suc (length root))" "log_filename (rest s') = Some (root @ c # rel)"
    using logging_init_prefix [OF assms] by blast
  then have "\<exists>s'. bio_logging_init (Some (root @ c # rel)) (int (separators rel)) s = Inr s' \<and> shorten_filename (Some (root @ c # x)) s' = x"
    by (auto simp: shorten_filename_def simp del: of_nat_Suc)
  with logging_init_outside [OF _ assms(2), of name s] show ?thesis by simp
qed

theorem log_names_are_relative_witness:
  "(\<exists>s'. bio_logging_init (Some ''/home/me/proj/src/main.c'') 1 ex_init = Inr s' \<and> shorten_filename (Some ''/home/me/proj/lib/x.c'') s' = ''lib/x.c'')
   \<and> bio_logging_init (Some ''main.c'') 1 ex_init = Inl DanglingPointer"
  using log_names_are_relative [of "CHR ''/''" "''src/main.c''" "''/home/me/proj''" ex_init "''lib/x.c''" "''main.c''"]
  by (simp add: is_separator_def INT32_MAX_def)

section \<open>FreeBSD\<close>

text \<open>
  C19. A write on FreeBSD that the kernel has carried out. As long as the file is still
  open then, the caller gets the number of bytes, the position moves by it and
  the file is ready for the next request. When another coroutine has closed the
  file in the meantime, the function follows a null pointer.
\<close>

theorem aio_write_after_wait:
  assumes "bsd_file_at p h s f" "bfile_aio_support f \<noteq> BIO_AIO_SUPPORT_DISABLED"
    "aio_answered B (aio_write B) (write_cb buf) mco_yield self p n bytes s s2" "map_of (fb_files (world s2)) NULL = None"
  shows "(bsd_file_at p h s2 g \<longrightarrow>
      (\<exists>s3. bio_fwrite_freebsd B mco_yield self h buf e s = ret (nat n, e, s3) \<and> bsd_file_at p h s3 (supported f (transferred n g))))
    \<and> (bio_resolve_handle h BIO_FILE_HANDLE (handles s2) = NULL \<longrightarrow> bio_fwrite_freebsd B mco_yield self h buf e s = Some (Inl DanglingPointer))"
  using fwrite_answered [OF assms(1-3)] assms(4) by blast

theorem aio_write_after_wait_witness:
  "(\<exists>s3. bio_fwrite_freebsd ex_bsd (\<lambda>_. Inr) ex_self ex_bsd_file [1, 2] None ex_bsd_ctx = ret (2, None, s3))
   \<and> bio_fwrite_freebsd ex_bsd ex_bsd_closing ex_self ex_bsd_file [1, 2] None ex_bsd_ctx = Some (Inl DanglingPointer)"
proof -
  have u: "bfile_aio_support ex_bsd_impl \<noteq> BIO_AIO_SUPPORT_DISABLED" by (simp add: ex_bsd_impl_def)
  obtain r c s2 req where a: "ex_aio_waited (\<lambda>_. Inr) = Inr (r, c, s2)" "map_of (fb_reqs (world s2)) r = Some req" "\<not> kreq_cancelled req"
      "aio_answers ex_bsd c 2 [7, 8] s2" "map_of (fb_files (world s2)) NULL = None" "bsd_file_at ex_bsd_at ex_bsd_file s2 (ex_bsd_impl\<lparr>bfile_aio := c\<rparr>)"
    using ex_aio_waited_open by blast
  obtain r' c' s2' req' where b: "ex_aio_waited ex_bsd_closing = Inr (r', c', s2')" "map_of (fb_reqs (world s2')) r' = Some req'" "\<not> kreq_cancelled req'"
      "aio_answers ex_bsd c' 2 [7, 8] s2'" "map_of (fb_files (world s2')) NULL = None" "bio_resolve_handle ex_bsd_file BIO_FILE_HANDLE (handles s2') = NULL"
    using ex_aio_waited_closed by blast
  from aio_write_after_wait [OF ex_bsd_open u ex_aio_waitedD [OF a(1-4)] a(5), of _ None] a(6)
    aio_write_after_wait [OF ex_bsd_open u ex_aio_waitedD [OF b(1-4)] b(5), of _ None] b(6)
  show ?thesis by auto
qed

text \<open>
  C10. \<open>bio_net_close\<close> on FreeBSD, for a socket no reader waits on: when no writer
  waits either, the handle is dead and the object freed; when a writer waits, the
  function means to cancel its request but follows the null pointer of the reader.
\<close>

theorem close_follows_missing_reader:
  assumes "bio_close_handle h BIO_SOCKET_HANDLE (handles s) = Inr (p, ht)" "p \<noteq> NULL" "map_of (fb_sockets (world s)) p = Some impl"
    "bsock_read impl = NULL" "map_of (fb_events (world s)) NULL = None" "bsd_close B (bsock_fd impl) (fb_system (world s)) = (0, errno, v)"
  shows "if bsock_write impl = NULL
    then \<exists>s1. bio_net_close_freebsd B h e s = Inr (True, e, s1) \<and> handles s1 = ht \<and> fb_sockets (world s1) = del p (fb_sockets (world s))
    else bio_net_close_freebsd B h e s = Inl DanglingPointer"
  using close_idle_socket [OF assms(1-4) _ assms(6)] close_with_writer_crashes [OF assms(1-4) _ assms(5)] by auto

theorem close_follows_missing_reader_witness:
  "(\<exists>s1. bio_net_close_freebsd ex_bsd ex_bsd_socket None (ex_socket_ctx NULL) = Inr (True, None, s1))
   \<and> bio_net_close_freebsd ex_bsd ex_bsd_socket None (ex_socket_ctx 70) = Inl DanglingPointer"
proof -
  have c: "bsd_close ex_bsd n v = (0, 0, v)" for n v by (simp add: ex_bsd_def)
  obtain p ht where s: "bio_close_handle ex_bsd_socket BIO_SOCKET_HANDLE (handles (ex_socket_ctx w)) = Inr (p, ht)" "p \<noteq> NULL"
      "map_of (fb_sockets (world (ex_socket_ctx w))) p = Some \<lparr>bsock_fd = 5, bsock_read = NULL, bsock_write = w\<rparr>"
      "map_of (fb_events (world (ex_socket_ctx w))) NULL = None" for w
    using ex_socket_open by metis
  from close_follows_missing_reader [OF s(1) s(2) s(3) [of NULL] _ s(4) c, of None]
    close_follows_missing_reader [OF s(1) s(2) s(3) [of 70] _ s(4) c, of None]
  show ?thesis by auto
qed

text \<open>
  C12. The queue of events stays well-formed: an array of events that name live
  requests or exit signals. Blocking the exit signals, queueing an event for a
  socket and cancelling a request keep it so, and an update that returns leaves
  it empty.
\<close>

theorem event_queue_well_formed:
  assumes "events_inv s"
  shows "events_inv (bio_platform_block_exit_signal_freebsd B s)
    \<and> (queue_event self fd flt with_result s = Inr (e, r, s1) \<longrightarrow> events_inv s1)
    \<and> (bio_cancel_io p s = Inr s2 \<longrightarrow> events_inv s2)
    \<and> (bio_platform_update_freebsd B timeout notifiable s = Some (Inr s3) \<longrightarrow> events_inv s3 \<and> array_list (fb_in_events (world s3)) = [])"
  using block_exit_signal_events [OF assms] queue_event_events [OF assms] cancel_io_events [OF assms] update_events [OF assms]
  by (auto simp: events_inv_def)

theorem event_queue_well_formed_witness:
  "events_inv (bio_platform_block_exit_signal_freebsd ex_bsd ex_queued)
   \<and> (\<exists>e r s1. queue_event ex_self 5 EVFILT_READ True ex_queued = Inr (e, r, s1) \<and> events_inv s1)"
proof -
  have "case queue_event ex_self 5 EVFILT_READ True ex_queued of Inr x \<Rightarrow> True | Inl e \<Rightarrow> False" by code_simp
  then obtain e r s1 where "queue_event ex_self 5 EVFILT_READ True ex_queued = Inr (e, r, s1)" by (auto simp: case_Inr_iff)
  with event_queue_well_formed [OF ex_queued_inv] show ?thesis by blast
qed

text \<open>
  C30. On FreeBSD the kernel is given exactly the queued events whose request was not
  cancelled, in the order they were queued, with the timeout of the loop; the loop
  that moves them to the front of the array stays inside of it.
\<close>

theorem kernel_gets_the_wanted_events:
  assumes "events_inv s"
  shows "bio_platform_update_freebsd B wait_timeout_ms notifiable s =
    obind (lift (fetch_events B (filter (wanted_event (fb_reqs (world s))) (array_list (fb_in_events (world s))))
      (if wait_timeout_ms \<ge> 0 then Some (wait_timeout_ms div 1000, (wait_timeout_ms mod 1000) * 1000000) else None) s))
      (\<lambda>r. drain_events B (fst r) (snd r))"
  by (rule update_submits_wanted [OF assms])

theorem kernel_gets_the_wanted_events_witness:
  "bio_platform_update_freebsd ex_bsd 1500 True ex_queued =
    obind (lift (fetch_events ex_bsd [ex_event SIGNAL_POLL_DATA, ex_event (IO_REQ 50)] (Some (1, 500000000)) ex_queued))
      (\<lambda>r. drain_events ex_bsd (fst r) (snd r))"
  using kernel_gets_the_wanted_events [OF ex_queued_inv, of ex_bsd 1500 True]
  by (simp add: ex_queued_events wanted_event_def ex_event_def ex_kreq_def)

end
